(* ===== verification/Rust_Prelude.thy ===== *)
theory Rust_Prelude
  imports Main "HOL-Library.Word"
begin

text \<open>
  Shared vocabulary of the development: the machine integers of the source with Rust's
  checked arithmetic written out, results as values of a sum type, slice reads that fail out
  of range, and the generic list lemmas the component theories use.

  Unsigned counters (\<open>usize\<close>, \<open>u64\<close>) are natural numbers; wherever the source adds to one it
  calls \<open>checked_add\<close> or \<open>saturating_add\<close>, and the model calls the definition of the same
  name with the bound of the type. The target is a 64-bit one, so both bounds are
  \<open>2 ^ 64 - 1\<close>. Values that the source computes modulo \<open>2 ^ 64\<close> (the random streams) are
  \<open>64 word\<close>.
\<close>

named_theorems budget_simps \<open>evaluation of the budget operations\<close>
named_theorems runner_simps \<open>evaluation of the runner's operations\<close>
named_theorems result_simps \<open>inversion of result-valued operations\<close>

section \<open>Machine integers\<close>

type_synonym u64 = nat
type_synonym usize = nat
type_synonym i64 = int

definition u64_max :: u64 where
  "u64_max = 18446744073709551615"

definition usize_max :: usize where
  "usize_max = 18446744073709551615"

definition checked_add :: "nat \<Rightarrow> nat \<Rightarrow> nat \<Rightarrow> nat option" where
  "checked_add m a b = (if a + b \<le> m then Some (a + b) else None)"

definition checked_sub :: "nat \<Rightarrow> nat \<Rightarrow> nat option" where
  "checked_sub a b = (if b \<le> a then Some (a - b) else None)"

definition saturating_add :: "nat \<Rightarrow> nat \<Rightarrow> nat \<Rightarrow> nat" where
  "saturating_add m a b = min m (a + b)"

lemma checked_add_eq_Some [simp]: "checked_add m a b = Some c \<longleftrightarrow> c = a + b \<and> a + b \<le> m"
  by (auto simp: checked_add_def)

lemma checked_add_eq_None [simp]: "checked_add m a b = None \<longleftrightarrow> m < a + b"
  by (auto simp: checked_add_def)

lemma checked_add_fits [simp]: "a + b \<le> m \<Longrightarrow> checked_add m a b = Some (a + b)"
  by (simp add: checked_add_def)

lemma checked_add_overflows [simp]: "m < a + b \<Longrightarrow> checked_add m a b = None"
  by (simp add: checked_add_def)

lemma checked_sub_eq_Some [simp]: "checked_sub a b = Some c \<longleftrightarrow> b \<le> a \<and> c = a - b"
  by (auto simp: checked_sub_def)

lemma checked_sub_eq_None [simp]: "checked_sub a b = None \<longleftrightarrow> a < b"
  by (auto simp: checked_sub_def)

lemma checked_sub_fits [simp]: "b \<le> a \<Longrightarrow> checked_sub a b = Some (a - b)"
  by (simp add: checked_sub_def)

section \<open>Results\<close>

type_synonym ('e, 'a) result = "'e + 'a"

abbreviation Err :: "'e \<Rightarrow> ('e, 'a) result" where
  "Err \<equiv> Inl"

abbreviation Ok :: "'a \<Rightarrow> ('e, 'a) result" where
  "Ok \<equiv> Inr"

definition ok_or :: "'a option \<Rightarrow> 'e \<Rightarrow> ('e, 'a) result" where
  "ok_or v e = (case v of Some x \<Rightarrow> Ok x | None \<Rightarrow> Err e)"

lemma ok_or_simps [simp]:
  "ok_or (Some x) e = Ok x"
  "ok_or None e = Err e"
  by (simp_all add: ok_or_def)

lemma ok_or_eq_Ok [simp]: "ok_or v e = Ok x \<longleftrightarrow> v = Some x"
  by (cases v) simp_all

lemma ok_or_eq_Err [simp]: "ok_or v e = Err f \<longleftrightarrow> v = None \<and> f = e"
  by (cases v) auto

fun is_ok :: "('e, 'a) result \<Rightarrow> bool" where
  "is_ok (Ok _) = True"
| "is_ok (Err _) = False"

section \<open>Slices\<close>

text \<open>\<open>slice.get(i)\<close>: out of range is \<open>None\<close>.\<close>

definition vec_get :: "'a list \<Rightarrow> usize \<Rightarrow> 'a option" where
  "vec_get xs i = (if i < length xs then Some (xs ! i) else None)"

lemma vec_get_eq_Some: "vec_get xs i = Some x \<longleftrightarrow> i < length xs \<and> x = xs ! i"
  by (auto simp: vec_get_def)

lemma vec_get_eq_None: "vec_get xs i = None \<longleftrightarrow> length xs \<le> i"
  by (auto simp: vec_get_def)

lemma vec_get_in_range [simp]: "i < length xs \<Longrightarrow> vec_get xs i = Some (xs ! i)"
  by (simp add: vec_get_def)

lemma vec_get_out_of_range [simp]: "length xs \<le> i \<Longrightarrow> vec_get xs i = None"
  by (simp add: vec_get_def)

lemma vec_get_in_set: "vec_get xs i = Some x \<Longrightarrow> x \<in> set xs"
  by (auto simp: vec_get_eq_Some)

text \<open>\<open>Vec::last_mut\<close> and \<open>stack[len - 1]\<close>: the top frame is the last element.\<close>

lemma vec_get_snoc: "vec_get (xs @ [x]) (length xs) = Some x"
  by simp

lemma list_update_snoc: "(xs @ [x])[length xs := y] = xs @ [y]"
  by simp

lemma drop_eq_Cons_nth: "drop n xs = y # ys \<Longrightarrow> n < length xs \<and> xs ! n = y \<and> drop (Suc n) xs = ys"
  by (metis drop_eq_Nil2 linorder_not_le list.distinct(1) list.inject Cons_nth_drop_Suc)

section \<open>Fallible state transformers\<close>

text \<open>
  A routine on \<open>&mut self\<close> that returns \<open>Result\<close>: the state after the call is part of the value
  also when the call fails. \<open>and_then\<close> is the \<open>?\<close> operator.
\<close>

type_synonym ('s, 'e, 'a) routine = "'s \<Rightarrow> ('e, 'a) result \<times> 's"

definition return_ok :: "'a \<Rightarrow> ('s, 'e, 'a) routine" where
  "return_ok x = (\<lambda>s. (Ok x, s))"

definition return_err :: "'e \<Rightarrow> ('s, 'e, 'a) routine" where
  "return_err e = (\<lambda>s. (Err e, s))"

definition and_then ::
  "('s, 'e, 'a) routine \<Rightarrow> ('a \<Rightarrow> ('s, 'e, 'b) routine) \<Rightarrow> ('s, 'e, 'b) routine" where
  "and_then m f = (\<lambda>s. case m s of (Err e, s') \<Rightarrow> (Err e, s') | (Ok x, s') \<Rightarrow> f x s')"

definition reading :: "('s \<Rightarrow> ('s, 'e, 'a) routine) \<Rightarrow> ('s, 'e, 'a) routine" where
  "reading f = (\<lambda>s. f s s)"

definition modify :: "('s \<Rightarrow> 's) \<Rightarrow> ('s, 'e, unit) routine" where
  "modify f = (\<lambda>s. (Ok (), f s))"

definition lift_result :: "('e, 'a) result \<Rightarrow> ('s, 'e, 'a) routine" where
  "lift_result r = (\<lambda>s. (r, s))"

lemma return_ok_apply [simp]: "return_ok x s = (Ok x, s)"
  by (simp add: return_ok_def)

lemma return_err_apply [simp]: "return_err e s = (Err e, s)"
  by (simp add: return_err_def)

lemma reading_apply [simp]: "reading f s = f s s"
  by (simp add: reading_def)

lemma modify_apply [simp]: "modify f s = (Ok (), f s)"
  by (simp add: modify_def)

lemma lift_result_apply [simp]: "lift_result r s = (r, s)"
  by (simp add: lift_result_def)

lemma and_then_Ok [simp]: "m s = (Ok x, s') \<Longrightarrow> and_then m f s = f x s'"
  by (simp add: and_then_def)

lemma and_then_Err [simp]: "m s = (Err e, s') \<Longrightarrow> and_then m f s = (Err e, s')"
  by (simp add: and_then_def)

lemma and_then_eq_Ok:
  "and_then m f s = (Ok y, s') \<longleftrightarrow> (\<exists>x s1. m s = (Ok x, s1) \<and> f x s1 = (Ok y, s'))"
  by (auto simp: and_then_def split: prod.splits sum.splits)

lemma and_then_eq_Err:
  "and_then m f s = (Err e, s') \<longleftrightarrow>
     m s = (Err e, s') \<or> (\<exists>x s1. m s = (Ok x, s1) \<and> f x s1 = (Err e, s'))"
  by (auto simp: and_then_def split: prod.splits sum.splits)

text \<open>
  A relation between the state before and after a call that every routine of a component
  respects: reflexive and transitive, so that it passes through \<open>and_then\<close>.
\<close>

definition keeps :: "('s \<Rightarrow> 's \<Rightarrow> bool) \<Rightarrow> ('s, 'e, 'a) routine \<Rightarrow> bool" where
  "keeps R m \<longleftrightarrow> (\<forall>s. R s (snd (m s)))"

locale method_relation =
  fixes R :: "'s \<Rightarrow> 's \<Rightarrow> bool"
  assumes refl: "R s s"
    and trans: "R s t \<Longrightarrow> R t u \<Longrightarrow> R s u"
begin

lemma keeps_return_ok: "keeps R (return_ok x)"
  by (simp add: keeps_def refl)

lemma keeps_return_err: "keeps R (return_err e)"
  by (simp add: keeps_def refl)

lemma keeps_lift_result: "keeps R (lift_result r)"
  by (simp add: keeps_def refl)

lemma keeps_and_then:
  assumes "keeps R m" and "\<And>x. keeps R (f x)"
  shows "keeps R (and_then m f)"
  unfolding keeps_def
proof
  fix s
  obtain r s1 where m: "m s = (r, s1)" by fastforce
  have "R s s1" using assms(1) m by (auto simp: keeps_def dest: spec [of _ s])
  moreover have "R s1 (snd (f x s1))" for x using assms(2) by (auto simp: keeps_def)
  ultimately show "R s (snd (and_then m f s))" using m trans by (cases r) auto
qed

lemma keeps_reading: "(\<And>s. keeps R (f s)) \<Longrightarrow> keeps R (reading f)"
  by (simp add: keeps_def)

lemma keeps_modify: "(\<And>s. R s (f s)) \<Longrightarrow> keeps R (modify f)"
  by (simp add: keeps_def)

lemmas keeps_rules = keeps_return_ok keeps_return_err keeps_lift_result keeps_and_then
  keeps_reading

end

lemma keepsD: "keeps R m \<Longrightarrow> m s = (r, s') \<Longrightarrow> R s s'"
  by (auto simp: keeps_def dest: spec [of _ s])

section \<open>Loops\<close>

text \<open>
  A \<open>loop\<close> or \<open>while\<close> of the source as the iteration of its body: one pass either leaves the loop
  with a result (\<open>Break\<close>) or goes on with the next state (\<open>Again\<close>). A loop that never leaves is
  \<open>None\<close>, so that returning is something to be proved.
\<close>

datatype ('s, 'r) pass = Again 's | Break 'r

partial_function (option) iterate :: "('s \<Rightarrow> ('s, 'r) pass) \<Rightarrow> 's \<Rightarrow> 'r option" where
  "iterate f s = (case f s of Break r \<Rightarrow> Some r | Again s' \<Rightarrow> iterate f s')"

lemma iterate_Break [simp]: "f s = Break r \<Longrightarrow> iterate f s = Some r"
  by (subst iterate.simps) simp

lemma iterate_Again: "f s = Again s' \<Longrightarrow> iterate f s = iterate f s'"
  by (subst iterate.simps) simp

text \<open>A loop whose passes keep an invariant and decrease a well-founded relation returns.\<close>

lemma iterate_returns:
  assumes "wf R" and "I s"
    and "\<And>s s'. I s \<Longrightarrow> f s = Again s' \<Longrightarrow> I s' \<and> (s', s) \<in> R"
  shows "\<exists>r. iterate f s = Some r"
  using assms(1,2)
proof (induction s rule: wf_induct_rule)
  case (less s)
  then show ?case
  proof (cases "f s")
    case (Again s')
    then have "I s'" "(s', s) \<in> R" using assms(3) less.prems by blast+
    then show ?thesis using less.IH Again by (simp add: iterate_Again)
  qed simp
qed

end
