(* ===== verification/Controller_Program.thy ===== *)
theory Controller_Program
  imports Rust_Prelude
begin

text \<open>
  Controller trees and their compilation (\<open>crates/runtime/src/controllers.rs\<close>): the source
  tree, the resource limits, the typed errors, the flat compiled program and the iterative
  postorder compiler \<open>compile_tree\<close>.

  The task stack of the compiler is a list whose head is the top; pushing the children in
  reverse, as the source does, therefore puts the first child on top. \<open>results\<close> and \<open>nodes\<close>
  grow at the end, as the vectors do. Strings are byte lists.
\<close>

section \<open>Data\<close>

type_synonym element_id = u64
type_synonym node_index = usize

definition DEFAULT_MAX_NODES :: usize where
  "DEFAULT_MAX_NODES = 16384"

definition DEFAULT_MAX_DEPTH :: usize where
  "DEFAULT_MAX_DEPTH = 128"

definition MAX_ALLOWED_NODES :: usize where
  "MAX_ALLOWED_NODES = 1048576"

definition MAX_ALLOWED_DEPTH :: usize where
  "MAX_ALLOWED_DEPTH = 4096"

definition MAX_CONTROLLER_KIND_BYTES :: usize where
  "MAX_CONTROLLER_KIND_BYTES = 4096"

datatype loop_count =
    Finite u64
  | Forever

datatype controller_node =
    Sample element_id
  | Simple element_id "controller_node list"
  | Loop element_id loop_count "controller_node list"
  | Disabled element_id "controller_node list"
  | OnceOnly element_id "controller_node list"
  | Interleave element_id "controller_node list"
  | Random element_id "64 word" "controller_node list"
  | RandomOrder element_id "64 word" "controller_node list"
  | Unsupported element_id string

record controller_limits =
  max_nodes :: usize
  max_depth :: usize

datatype controller_error =
    InvalidLoopCount i64
  | InvalidLimits usize usize
  | PlanTooLarge usize usize
  | PlanTooDeep usize usize
  | UnsupportedController element_id string
  | StepBudgetExhausted usize usize
  | RunBudgetExhausted usize usize
  | SampleBudgetExhausted usize usize
  | IterationOverflow element_id
  | CounterOverflow string
  | InvalidState node_index
  | DuplicateElementId element_id

fun controller_error_code :: "controller_error \<Rightarrow> string" where
  "controller_error_code (InvalidLoopCount _) = ''runtime.controller.invalid-loop-count''"
| "controller_error_code (InvalidLimits _ _) = ''runtime.controller.invalid-limits''"
| "controller_error_code (PlanTooLarge _ _) = ''runtime.controller.plan-too-large''"
| "controller_error_code (PlanTooDeep _ _) = ''runtime.controller.plan-too-deep''"
| "controller_error_code (UnsupportedController _ _) = ''runtime.controller.unsupported''"
| "controller_error_code (StepBudgetExhausted _ _) = ''runtime.controller.step-budget''"
| "controller_error_code (RunBudgetExhausted _ _) = ''runtime.controller.run-budget''"
| "controller_error_code (SampleBudgetExhausted _ _) = ''runtime.controller.sample-budget''"
| "controller_error_code (IterationOverflow _) = ''runtime.controller.iteration-overflow''"
| "controller_error_code (CounterOverflow _) = ''runtime.controller.counter-overflow''"
| "controller_error_code (InvalidState _) = ''runtime.controller.invalid-state''"
| "controller_error_code (DuplicateElementId _) = ''runtime.controller.duplicate-element-id''"

definition loop_from_jmeter :: "i64 \<Rightarrow> (controller_error, loop_count) result" where
  "loop_from_jmeter v =
     (if v = - 1 then Ok Forever
      else if 0 \<le> v then Ok (Finite (nat v))
      else Err (InvalidLoopCount v))"

fun finite_count :: "loop_count \<Rightarrow> u64 option" where
  "finite_count (Finite n) = Some n"
| "finite_count Forever = None"

definition default_limits :: controller_limits where
  "default_limits = \<lparr>max_nodes = DEFAULT_MAX_NODES, max_depth = DEFAULT_MAX_DEPTH\<rparr>"

definition limits_new :: "usize \<Rightarrow> usize \<Rightarrow> (controller_error, controller_limits) result" where
  "limits_new n d =
     (if MAX_ALLOWED_NODES < n \<or> MAX_ALLOWED_DEPTH < d then Err (InvalidLimits n d)
      else Ok \<lparr>max_nodes = n, max_depth = d\<rparr>)"

section \<open>Bounded diagnostics\<close>

text \<open>\<open>str::is_char_boundary\<close>: a byte that is not a UTF-8 continuation byte starts a character.\<close>

definition is_char_boundary :: "string \<Rightarrow> usize \<Rightarrow> bool" where
  "is_char_boundary v i =
     (if i = 0 then True
      else if length v \<le> i then i = length v
      else (let b = (of_char (v ! i) :: nat) in b < 128 \<or> 192 \<le> b))"

fun boundary_at_most :: "string \<Rightarrow> usize \<Rightarrow> usize" where
  "boundary_at_most v 0 = 0"
| "boundary_at_most v (Suc e) =
     (if is_char_boundary v (Suc e) then Suc e else boundary_at_most v e)"

definition bounded_kind :: "string \<Rightarrow> string" where
  "bounded_kind v =
     (if length v \<le> MAX_CONTROLLER_KIND_BYTES then v
      else take (boundary_at_most v MAX_CONTROLLER_KIND_BYTES) v)"

definition unsupported :: "element_id \<Rightarrow> string \<Rightarrow> controller_node" where
  "unsupported i kind = Unsupported i (bounded_kind kind)"

section \<open>The compiled program\<close>

datatype compiled_node =
    CSample element_id
  | CSimple element_id "node_index list"
  | CLoop element_id loop_count "node_index list"
  | CDisabled element_id
  | COnceOnly element_id "node_index list"
  | CInterleave element_id "node_index list"
  | CRandom element_id "64 word" "node_index list"
  | CRandomOrder element_id "64 word" "node_index list"

record controller_program =
  nodes :: "compiled_node list"
  root :: node_index

fun source_id :: "controller_node \<Rightarrow> element_id" where
  "source_id (Sample i) = i"
| "source_id (Simple i _) = i"
| "source_id (Loop i _ _) = i"
| "source_id (Disabled i _) = i"
| "source_id (OnceOnly i _) = i"
| "source_id (Interleave i _) = i"
| "source_id (Random i _ _) = i"
| "source_id (RandomOrder i _ _) = i"
| "source_id (Unsupported i _) = i"

fun source_children :: "controller_node \<Rightarrow> controller_node list option" where
  "source_children (Simple _ cs) = Some cs"
| "source_children (Loop _ _ cs) = Some cs"
| "source_children (Disabled _ cs) = Some cs"
| "source_children (OnceOnly _ cs) = Some cs"
| "source_children (Interleave _ cs) = Some cs"
| "source_children (Random _ _ cs) = Some cs"
| "source_children (RandomOrder _ _ cs) = Some cs"
| "source_children (Sample _) = None"
| "source_children (Unsupported _ _) = None"

text \<open>\<open>seen\<close> and \<open>seen_ids\<close> of the compiler, passed as a pair.\<close>

type_synonym account = "usize \<times> element_id set"

definition account_source_node ::
  "controller_node \<Rightarrow> usize \<Rightarrow> controller_limits \<Rightarrow> account \<Rightarrow> (controller_error, account) result" where
  "account_source_node node depth limits acc =
     (case acc of (seen, seen_ids) \<Rightarrow>
        if max_depth limits < depth then Err (PlanTooDeep depth (max_depth limits))
        else (case checked_add usize_max seen 1 of
          None \<Rightarrow> Err (CounterOverflow ''controller-nodes'')
        | Some next \<Rightarrow>
            if max_nodes limits < next then Err (PlanTooLarge next (max_nodes limits))
            else if source_id node \<in> seen_ids then Err (DuplicateElementId (source_id node))
            else Ok (next, insert (source_id node) seen_ids)))"

definition ensure_child_capacity ::
  "usize \<Rightarrow> usize \<Rightarrow> controller_limits \<Rightarrow> (controller_error, unit) result" where
  "ensure_child_capacity child_count seen limits =
     (case checked_sub (max_nodes limits) seen of
        None \<Rightarrow> Err (CounterOverflow ''controller-node-budget'')
      | Some remaining \<Rightarrow>
          if remaining < child_count then
            (case checked_add usize_max seen child_count of
               None \<Rightarrow> Err (CounterOverflow ''controller-node-budget'')
             | Some n \<Rightarrow> Err (PlanTooLarge n (max_nodes limits)))
          else Ok ())"

section \<open>The iterative compiler\<close>

datatype compile_task =
    Enter controller_node usize
  | InspectDisabled controller_node usize
  | Build controller_node

record compile_state =
  tasks :: "compile_task list"
  results :: "node_index list"
  out_nodes :: "compiled_node list"
  acct :: account

text \<open>Pushing the children of a node for a visit, after the capacity and depth checks.\<close>

definition push_children ::
  "(controller_node \<Rightarrow> usize \<Rightarrow> compile_task) \<Rightarrow> controller_node list \<Rightarrow> usize \<Rightarrow>
   controller_limits \<Rightarrow> compile_state \<Rightarrow> (controller_error, compile_state) result" where
  "push_children mk children depth limits st =
     (case ensure_child_capacity (length children) (fst (acct st)) limits of
        Err e \<Rightarrow> Err e
      | Ok _ \<Rightarrow>
          (case checked_add usize_max depth 1 of
             None \<Rightarrow> Err (CounterOverflow ''controller-depth'')
           | Some child_depth \<Rightarrow>
               Ok (st\<lparr>tasks := map (\<lambda>c. mk c child_depth) children @ tasks st\<rparr>)))"

definition emit_node :: "compiled_node \<Rightarrow> compile_state \<Rightarrow> compile_state" where
  "emit_node n st =
     st\<lparr>out_nodes := out_nodes st @ [n], results := results st @ [length (out_nodes st)]\<rparr>"

definition compile_enter ::
  "controller_limits \<Rightarrow> controller_node \<Rightarrow> usize \<Rightarrow> compile_state \<Rightarrow>
   (controller_error, compile_state) result" where
  "compile_enter limits node depth st =
     (case account_source_node node depth limits (acct st) of
        Err e \<Rightarrow> Err e
      | Ok acc \<Rightarrow>
          (let st = st\<lparr>acct := acc\<rparr>
           in case node of
                Sample i \<Rightarrow> Ok (emit_node (CSample i) st)
              | Disabled i children \<Rightarrow>
                  push_children InspectDisabled children depth limits (emit_node (CDisabled i) st)
              | Unsupported i kind \<Rightarrow> Err (UnsupportedController i (bounded_kind kind))
              | _ \<Rightarrow>
                  (case source_children node of
                     Some children \<Rightarrow>
                       push_children Enter children depth limits
                         (st\<lparr>tasks := Build node # tasks st\<rparr>)
                   | None \<Rightarrow> Err (InvalidState (length (out_nodes st))))))"

definition compile_inspect ::
  "controller_limits \<Rightarrow> controller_node \<Rightarrow> usize \<Rightarrow> compile_state \<Rightarrow>
   (controller_error, compile_state) result" where
  "compile_inspect limits node depth st =
     (case account_source_node node depth limits (acct st) of
        Err e \<Rightarrow> Err e
      | Ok acc \<Rightarrow>
          (let st = st\<lparr>acct := acc\<rparr>
           in case source_children node of
                None \<Rightarrow> Ok st
              | Some children \<Rightarrow> push_children InspectDisabled children depth limits st))"

fun build_node :: "controller_node \<Rightarrow> node_index list \<Rightarrow> compiled_node option" where
  "build_node (Simple i _) cs = Some (CSimple i cs)"
| "build_node (Loop i n _) cs = Some (CLoop i n cs)"
| "build_node (OnceOnly i _) cs = Some (COnceOnly i cs)"
| "build_node (Interleave i _) cs = Some (CInterleave i cs)"
| "build_node (Random i seed _) cs = Some (CRandom i seed cs)"
| "build_node (RandomOrder i seed _) cs = Some (CRandomOrder i seed cs)"
| "build_node (Sample _) cs = None"
| "build_node (Disabled _ _) cs = None"
| "build_node (Unsupported _ _) cs = None"

definition compile_build ::
  "controller_node \<Rightarrow> compile_state \<Rightarrow> (controller_error, compile_state) result" where
  "compile_build node st =
     (case (build_node node [], source_children node) of
        (Some _, Some children) \<Rightarrow>
          if length (results st) < length children then Err (InvalidState (length (out_nodes st)))
          else
            (let split = length (results st) - length children
             in case build_node node (drop split (results st)) of
                  None \<Rightarrow> Err (InvalidState (length (out_nodes st)))
                | Some compiled \<Rightarrow>
                    Ok (emit_node compiled (st\<lparr>results := take split (results st)\<rparr>)))
      | _ \<Rightarrow> Err (InvalidState (length (out_nodes st))))"

fun run_compile_task ::
  "controller_limits \<Rightarrow> compile_task \<Rightarrow> compile_state \<Rightarrow> (controller_error, compile_state) result" where
  "run_compile_task limits (Enter node depth) st = compile_enter limits node depth st"
| "run_compile_task limits (InspectDisabled node depth) st = compile_inspect limits node depth st"
| "run_compile_task limits (Build node) st = compile_build node st"

text \<open>
  Termination of the task loop: every pending visit weighs twice the nodes below it, so
  replacing a visit by the visits of its children and one build task gets lighter.
\<close>

fun node_count :: "controller_node \<Rightarrow> nat" where
  "node_count (Simple i cs) = Suc (sum_list (map node_count cs))"
| "node_count (Loop i n cs) = Suc (sum_list (map node_count cs))"
| "node_count (Disabled i cs) = Suc (sum_list (map node_count cs))"
| "node_count (OnceOnly i cs) = Suc (sum_list (map node_count cs))"
| "node_count (Interleave i cs) = Suc (sum_list (map node_count cs))"
| "node_count (Random i s cs) = Suc (sum_list (map node_count cs))"
| "node_count (RandomOrder i s cs) = Suc (sum_list (map node_count cs))"
| "node_count (Sample i) = 1"
| "node_count (Unsupported i k) = 1"

fun task_weight :: "compile_task \<Rightarrow> nat" where
  "task_weight (Enter n d) = 2 * node_count n"
| "task_weight (InspectDisabled n d) = 2 * node_count n"
| "task_weight (Build n) = 1"

definition state_weight :: "compile_state \<Rightarrow> nat" where
  "state_weight st = sum_list (map task_weight (tasks st))"

lemma node_count_pos: "0 < node_count n"
  by (cases n) simp_all

lemma node_count_children:
  "source_children n = Some cs \<Longrightarrow> node_count n = Suc (sum_list (map node_count cs))"
  by (cases n) simp_all

lemma sum_list_double: "sum_list (map (\<lambda>c. 2 * f c) cs) = 2 * (sum_list (map f cs) :: nat)"
  by (induction cs) simp_all

lemma push_children_weight:
  assumes "push_children mk cs d limits st = Ok st'"
    and "\<And>c e. task_weight (mk c e) = 2 * node_count c"
  shows "state_weight st' = 2 * sum_list (map node_count cs) + state_weight st"
  using assms
  by (auto simp: push_children_def state_weight_def comp_def sum_list_double
      split: sum.splits option.splits)

lemma emit_node_weight [simp]: "state_weight (emit_node n st) = state_weight st"
  by (simp add: emit_node_def state_weight_def)

lemma acct_weight [simp]: "state_weight (st\<lparr>acct := a\<rparr>) = state_weight st"
  by (simp add: state_weight_def)

lemma results_weight [simp]: "state_weight (st\<lparr>results := r\<rparr>) = state_weight st"
  by (simp add: state_weight_def)

lemma push_build_weight [simp]:
  "state_weight (st\<lparr>tasks := Build n # tasks st\<rparr>) = Suc (state_weight st)"
  by (simp add: state_weight_def)

lemma push_build_acct_weight [simp]:
  "state_weight (st\<lparr>acct := a, tasks := Build n # tasks st\<rparr>) = Suc (state_weight st)"
  by (simp add: state_weight_def)

lemma compile_enter_weight:
  "compile_enter limits n d st = Ok st' \<Longrightarrow> state_weight st' < state_weight st + 2 * node_count n"
  by (cases n)
    (auto simp: compile_enter_def Let_def node_count_pos dest!: push_children_weight
      split: sum.splits option.splits)

lemma compile_inspect_weight:
  "compile_inspect limits n d st = Ok st' \<Longrightarrow> state_weight st' < state_weight st + 2 * node_count n"
  by (auto simp: compile_inspect_def Let_def node_count_pos node_count_children
      dest!: push_children_weight split: sum.splits option.splits)

lemma compile_build_weight: "compile_build n st = Ok st' \<Longrightarrow> state_weight st' = state_weight st"
  by (auto simp: compile_build_def Let_def split: option.splits if_splits)

lemma run_compile_task_weight:
  "run_compile_task limits t (st\<lparr>tasks := ts\<rparr>) = Ok st' \<Longrightarrow> tasks st = t # ts \<Longrightarrow>
   state_weight st' < state_weight st"
  by (cases t)
    (auto dest!: compile_enter_weight compile_inspect_weight compile_build_weight
      simp: state_weight_def)

function compile_loop ::
  "controller_limits \<Rightarrow> compile_state \<Rightarrow> (controller_error, compile_state) result" where
  "compile_loop limits st =
     (case tasks st of
        [] \<Rightarrow> Ok st
      | t # ts \<Rightarrow>
          (case run_compile_task limits t (st\<lparr>tasks := ts\<rparr>) of
             Err e \<Rightarrow> Err e
           | Ok st' \<Rightarrow> compile_loop limits st'))"
  by pat_completeness auto
termination
  by (relation "measure (\<lambda>(limits, st). state_weight st)") (auto simp: run_compile_task_weight)

declare compile_loop.simps [simp del]

definition initial_compile_state :: "controller_node \<Rightarrow> compile_state" where
  "initial_compile_state node =
     \<lparr>tasks = [Enter node 0], results = [], out_nodes = [], acct = (0, {})\<rparr>"

definition compile_tree ::
  "controller_node \<Rightarrow> controller_limits \<Rightarrow>
   (controller_error, compiled_node list \<times> node_index) result" where
  "compile_tree node limits =
     (case compile_loop limits (initial_compile_state node) of
        Err e \<Rightarrow> Err e
      | Ok st \<Rightarrow>
          (if results st = [] then Err (InvalidState 0)
           else if butlast (results st) \<noteq> [] then Err (InvalidState (last (results st)))
           else Ok (out_nodes st, last (results st))))"

definition compile_with_limits ::
  "controller_node \<Rightarrow> controller_limits \<Rightarrow> (controller_error, controller_program) result" where
  "compile_with_limits node limits =
     (case compile_tree node limits of
        Err e \<Rightarrow> Err e
      | Ok (ns, r) \<Rightarrow> Ok \<lparr>nodes = ns, root = r\<rparr>)"

definition compile :: "controller_node \<Rightarrow> (controller_error, controller_program) result" where
  "compile node = compile_with_limits node default_limits"

end
