(* ===== verification/Controller_Compile.thy ===== *)
theory Controller_Compile
  imports Controller_Program
begin

text \<open>
  Correctness of the iterative compiler. The reference is a pair of structurally recursive
  definitions over the source tree: \<open>walk\<close>, which performs the limit and identity accounting
  in preorder, and \<open>layout\<close>, which lays the executable nodes out in postorder. The task loop
  of \<open>compile_tree\<close> is shown to compute exactly these two; acceptance, the shape of the
  compiled program and the meaning of each error follow.
\<close>

section \<open>The reference\<close>

fun is_disabled :: "controller_node \<Rightarrow> bool" where
  "is_disabled (Disabled i cs) = True"
| "is_disabled _ = False"

fun unsupported_error :: "controller_node \<Rightarrow> controller_error option" where
  "unsupported_error (Unsupported i kind) = Some (UnsupportedController i (bounded_kind kind))"
| "unsupported_error _ = None"

function walk ::
  "controller_limits \<Rightarrow> bool \<Rightarrow> controller_node \<Rightarrow> usize \<Rightarrow> account \<Rightarrow>
   (controller_error, account) result"
and walks ::
  "controller_limits \<Rightarrow> bool \<Rightarrow> controller_node list \<Rightarrow> usize \<Rightarrow> account \<Rightarrow>
   (controller_error, account) result"
where
  "walk limits inspect n d acc =
     (case account_source_node n d limits acc of
        Err e \<Rightarrow> Err e
      | Ok acc' \<Rightarrow>
          (case (if inspect then None else unsupported_error n) of
             Some e \<Rightarrow> Err e
           | None \<Rightarrow>
               (case source_children n of
                  None \<Rightarrow> Ok acc'
                | Some cs \<Rightarrow>
                    (case ensure_child_capacity (length cs) (fst acc') limits of
                       Err e \<Rightarrow> Err e
                     | Ok _ \<Rightarrow>
                         (case checked_add usize_max d 1 of
                            None \<Rightarrow> Err (CounterOverflow ''controller-depth'')
                          | Some d' \<Rightarrow> walks limits (inspect \<or> is_disabled n) cs d' acc')))))"
| "walks limits inspect [] d acc = Ok acc"
| "walks limits inspect (c # cs) d acc =
     (case walk limits inspect c d acc of
        Err e \<Rightarrow> Err e
      | Ok acc' \<Rightarrow> walks limits inspect cs d acc')"
  by pat_completeness auto
termination
  by (relation "measure (\<lambda>a. case a of
        Inl (limits, inspect, n, d, acc) \<Rightarrow> 2 * node_count n
      | Inr (limits, inspect, cs, d, acc) \<Rightarrow> 2 * sum_list (map node_count cs) + 1)")
    (auto simp: node_count_children node_count_pos)

declare walk.simps [simp del]

fun layout :: "nat \<Rightarrow> controller_node \<Rightarrow> compiled_node list"
and layouts :: "nat \<Rightarrow> controller_node list \<Rightarrow> compiled_node list \<times> node_index list" where
  "layout b (Sample i) = [CSample i]"
| "layout b (Disabled i cs) = [CDisabled i]"
| "layout b (Unsupported i k) = []"
| "layout b (Simple i cs) = (case layouts b cs of (ns, is) \<Rightarrow> ns @ [CSimple i is])"
| "layout b (Loop i n cs) = (case layouts b cs of (ns, is) \<Rightarrow> ns @ [CLoop i n is])"
| "layout b (OnceOnly i cs) = (case layouts b cs of (ns, is) \<Rightarrow> ns @ [COnceOnly i is])"
| "layout b (Interleave i cs) = (case layouts b cs of (ns, is) \<Rightarrow> ns @ [CInterleave i is])"
| "layout b (Random i s cs) = (case layouts b cs of (ns, is) \<Rightarrow> ns @ [CRandom i s is])"
| "layout b (RandomOrder i s cs) = (case layouts b cs of (ns, is) \<Rightarrow> ns @ [CRandomOrder i s is])"
| "layouts b [] = ([], [])"
| "layouts b (c # cs) =
     (let n1 = layout b c
      in case layouts (b + length n1) cs of
           (n2, is) \<Rightarrow> (n1 @ n2, (b + length n1 - 1) # is))"

section \<open>The task loop computes the reference\<close>

abbreviation cstate ::
  "compile_task list \<Rightarrow> node_index list \<Rightarrow> compiled_node list \<Rightarrow> account \<Rightarrow> compile_state" where
  "cstate ts rs ns a \<equiv> \<lparr>tasks = ts, results = rs, out_nodes = ns, acct = a\<rparr>"

lemma compile_loop_Nil: "compile_loop limits (cstate [] rs ns a) = Ok (cstate [] rs ns a)"
  by (simp add: compile_loop.simps)

lemma compile_loop_Cons:
  "compile_loop limits (cstate (t # ts) rs ns a) =
     (case run_compile_task limits t (cstate ts rs ns a) of
        Err e \<Rightarrow> Err e
      | Ok st' \<Rightarrow> compile_loop limits st')"
  by (subst compile_loop.simps) simp

text \<open>Inspecting a disabled subtree only accounts for it.\<close>

lemma inspect_walk:
  "compile_loop limits (cstate (InspectDisabled n d # ts) rs ns acc) =
     (case walk limits True n d acc of
        Err e \<Rightarrow> Err e
      | Ok acc' \<Rightarrow> compile_loop limits (cstate ts rs ns acc'))"
  "compile_loop limits (cstate (map (\<lambda>c. InspectDisabled c d) cs @ ts) rs ns acc) =
     (case walks limits True cs d acc of
        Err e \<Rightarrow> Err e
      | Ok acc' \<Rightarrow> compile_loop limits (cstate ts rs ns acc'))"
proof (induction limits True n d acc and limits True cs d acc arbitrary: ts and ts
    rule: walk_walks.induct)
  case (1 limits n d acc)
  show ?case
    using 1 by (auto simp: compile_loop_Cons compile_inspect_def push_children_def Let_def
        walk.simps [of limits True n d acc] split: sum.split option.split)
next
  case (2 limits d acc)
  then show ?case by simp
next
  case (3 limits c cs d acc)
  then show ?case by (simp split: sum.split)
qed

text \<open>
  Entering an executable subtree accounts for it and appends its layout; the index of its
  root is pushed on the result stack. A rejected subtree stops the compilation.
\<close>

lemma length_layouts [simp]: "length (snd (layouts b cs)) = length cs"
  by (induction cs arbitrary: b) (simp_all add: Let_def split_def)

text \<open>The six controllers with executable children are treated alike.\<close>

definition branch :: "controller_node \<Rightarrow> controller_node list \<Rightarrow> bool" where
  "branch n cs \<longleftrightarrow> source_children n = Some cs \<and> (\<forall>is. build_node n is \<noteq> None)"

lemma node_cases [case_names Sample Disabled Unsupported Branch]:
  obtains i where "n = Sample i"
  | i cs where "n = Disabled i cs"
  | i k where "n = Unsupported i k"
  | cs where "branch n cs"
  by (cases n) (auto simp: branch_def)

lemma branch_simps:
  assumes "branch n cs"
  shows "source_children n = Some cs" and "unsupported_error n = None" and "\<not> is_disabled n"
  using assms by (cases n; simp add: branch_def)+

lemma compile_enter_branch:
  assumes "branch n cs" and "account_source_node n d limits (acct st) = Ok acc"
  shows "compile_enter limits n d st =
    push_children Enter cs d limits (st\<lparr>acct := acc, tasks := Build n # tasks st\<rparr>)"
  using assms by (cases n) (simp_all add: compile_enter_def branch_def)

lemma layout_branch:
  assumes "branch n cs" and "layouts b cs = (ns, is)"
  shows "layout b n = ns @ [the (build_node n is)]"
  using assms by (cases n) (simp_all add: branch_def)

lemma compile_build_branch:
  assumes "branch n cs" and "length is = length cs"
  shows "compile_build n (cstate ts (rs @ is) ns a) =
    Ok (cstate ts (rs @ [length ns]) (ns @ [the (build_node n is)]) a)"
  using assms by (cases n) (simp_all add: branch_def compile_build_def emit_node_def Let_def)

lemma enter_walk:
  "compile_loop limits (cstate (Enter n d # ts) rs ns acc) =
     (case walk limits False n d acc of
        Err e \<Rightarrow> Err e
      | Ok acc' \<Rightarrow>
          (let out = layout (length ns) n
           in compile_loop limits (cstate ts (rs @ [length ns + length out - 1]) (ns @ out) acc')))"
  "compile_loop limits (cstate (map (\<lambda>c. Enter c d) cs @ ts) rs ns acc) =
     (case walks limits False cs d acc of
        Err e \<Rightarrow> Err e
      | Ok acc' \<Rightarrow>
          (case layouts (length ns) cs of
             (out, is) \<Rightarrow> compile_loop limits (cstate ts (rs @ is) (ns @ out) acc')))"
proof (induction limits False n d acc and limits False cs d acc arbitrary: ts rs ns and ts rs ns
    rule: walk_walks.induct)
  case (1 limits n d acc)
  show ?case
  proof (cases "account_source_node n d limits acc")
    case (Inl e)
    then show ?thesis
      by (simp add: compile_loop_Cons compile_enter_def walk.simps [of limits False n d acc])
  next
    case (Inr acc')
    note IH = 1 [OF Inr]
    show ?thesis
    proof (cases n rule: node_cases)
      case (Branch cs)
      obtain out "is" where out: "layouts (length ns) cs = (out, is)" by fastforce
      then have len: "length is = length cs" by (metis length_layouts snd_conv)
      show ?thesis
        using Inr Branch out len IH [where ts = "Build n # ts"]
        by (auto simp: compile_loop_Cons compile_enter_branch push_children_def branch_simps
            layout_branch compile_build_branch walk.simps [of limits False n d acc]
            split: sum.split option.split)
    qed (use Inr in \<open>simp_all add: compile_loop_Cons compile_enter_def push_children_def Let_def
          emit_node_def inspect_walk walk.simps split: sum.split option.split\<close>)
  qed
next
  case (2 limits d acc)
  then show ?case by simp
next
  case (3 limits c cs d acc)
  then show ?case by (auto simp: Let_def split: sum.split prod.split)
qed

section \<open>What the accounting accepts and rejects\<close>

definition kids :: "controller_node \<Rightarrow> controller_node list" where
  "kids n = (case source_children n of Some cs \<Rightarrow> cs | None \<Rightarrow> [])"

lemma node_count_kids: "node_count n = Suc (sum_list (map node_count (kids n)))"
  by (cases n) (simp_all add: kids_def)

lemma kid_smaller [termination_simp]: "c \<in> set (kids n) \<Longrightarrow> node_count c < node_count n"
  using member_le_sum_list [of "node_count c" "map node_count (kids n)"]
  by (simp add: node_count_kids [of n] less_Suc_eq_le)

function preorder_ids :: "controller_node \<Rightarrow> element_id list" where
  "preorder_ids n = source_id n # concat (map preorder_ids (kids n))"
  by pat_completeness auto
termination by (relation "measure node_count") (simp_all add: kid_smaller)

function within_depth :: "usize \<Rightarrow> usize \<Rightarrow> controller_node \<Rightarrow> bool" where
  "within_depth m d n \<longleftrightarrow> d \<le> m \<and> list_all (within_depth m (Suc d)) (kids n)"
  by pat_completeness auto
termination by (relation "measure (\<lambda>(m, d, n). node_count n)") (simp_all add: kid_smaller)

text \<open>The unsupported controllers outside every disabled subtree.\<close>

fun own_unsupported :: "controller_node \<Rightarrow> (element_id \<times> string) list" where
  "own_unsupported (Unsupported i k) = [(i, k)]"
| "own_unsupported _ = []"

function enabled_unsupported :: "controller_node \<Rightarrow> (element_id \<times> string) list" where
  "enabled_unsupported n =
     (if is_disabled n then []
      else own_unsupported n @ concat (map enabled_unsupported (kids n)))"
  by pat_completeness auto
termination by (relation "measure node_count") (simp_all add: kid_smaller)

declare preorder_ids.simps [simp del] within_depth.simps [simp del]
  enabled_unsupported.simps [simp del]

definition admissible :: "controller_limits \<Rightarrow> controller_node \<Rightarrow> bool" where
  "admissible limits n \<longleftrightarrow>
     within_depth (max_depth limits) 0 n \<and> node_count n \<le> max_nodes limits \<and>
     distinct (preorder_ids n) \<and> enabled_unsupported n = []"

text \<open>Limits that \<open>ControllerLimits::new\<close> accepts leave room in the counters.\<close>

definition limits_fit :: "controller_limits \<Rightarrow> bool" where
  "limits_fit limits \<longleftrightarrow> max_nodes limits \<le> usize_max \<and> max_depth limits < usize_max"

lemma limits_new_fit: "limits_new n d = Ok limits \<Longrightarrow> limits_fit limits"
  by (auto simp: limits_new_def limits_fit_def MAX_ALLOWED_NODES_def MAX_ALLOWED_DEPTH_def
      usize_max_def split: if_splits)

lemma account_Ok:
  assumes "limits_fit limits"
  shows "account_source_node n d limits (seen, S) = Ok acc \<longleftrightarrow>
    d \<le> max_depth limits \<and> Suc seen \<le> max_nodes limits \<and> source_id n \<notin> S \<and>
    acc = (Suc seen, insert (source_id n) S)"
  using assms
  by (auto simp: account_source_node_def limits_fit_def split: option.splits if_splits)

lemma capacity_Ok:
  "ensure_child_capacity k seen limits = Ok u \<longleftrightarrow> seen + k \<le> max_nodes limits"
  by (auto simp: ensure_child_capacity_def split: option.splits if_splits)

lemma length_le_node_counts: "length cs \<le> sum_list (map node_count cs)"
  by (induction cs) (use node_count_pos in \<open>auto simp: Suc_le_eq add.commute less_le_trans
      add_mono intro: add_le_mono [of 1, simplified]\<close>)


lemma account_cases:
  assumes "limits_fit limits" and "account_source_node n d limits (seen, S) = Err e"
  shows "e = PlanTooDeep d (max_depth limits) \<and> max_depth limits < d \<or>
    e = PlanTooLarge (Suc seen) (max_nodes limits) \<and> max_nodes limits < Suc seen \<or>
    e = CounterOverflow ''controller-nodes'' \<and> usize_max < Suc seen \<or>
    e = DuplicateElementId (source_id n) \<and> source_id n \<in> S"
  using assms by (auto simp: account_source_node_def split: option.splits if_splits)

text \<open>
  The state of the accounting after a subtree: every node counted, every identity recorded.
\<close>

definition walk_after :: "controller_node list \<Rightarrow> account \<Rightarrow> account" where
  "walk_after cs acc =
     (fst acc + sum_list (map node_count cs), snd acc \<union> set (concat (map preorder_ids cs)))"

definition walk_ok ::
  "controller_limits \<Rightarrow> bool \<Rightarrow> controller_node list \<Rightarrow> usize \<Rightarrow> account \<Rightarrow> bool" where
  "walk_ok limits inspect cs d acc \<longleftrightarrow>
     list_all (within_depth (max_depth limits) d) cs \<and>
     (cs \<noteq> [] \<longrightarrow> fst acc + sum_list (map node_count cs) \<le> max_nodes limits) \<and>
     distinct (concat (map preorder_ids cs)) \<and>
     snd acc \<inter> set (concat (map preorder_ids cs)) = {} \<and>
     (inspect \<or> list_all (\<lambda>c. enabled_unsupported c = []) cs)"

lemma walk_after_Nil [simp]: "walk_after [] acc = acc"
  by (simp add: walk_after_def)

lemma walk_ok_Nil [simp]: "walk_ok limits inspect [] d acc"
  by (simp add: walk_ok_def)

lemma walk_after_Cons: "walk_after (c # cs) acc = walk_after cs (walk_after [c] acc)"
  by (auto simp: walk_after_def)

lemma walk_ok_Cons:
  "walk_ok limits inspect (c # cs) d acc \<longleftrightarrow>
     walk_ok limits inspect [c] d acc \<and> walk_ok limits inspect cs d (walk_after [c] acc)"
  by (cases cs) (auto simp: walk_ok_def walk_after_def)

lemma walk_after_node:
  "walk_after [n] (seen, S) = walk_after (kids n) (Suc seen, insert (source_id n) S)"
  by (simp add: walk_after_def node_count_kids [of n] preorder_ids.simps [of n])

lemma unsupported_error_None: "unsupported_error n = None \<longleftrightarrow> own_unsupported n = []"
  by (cases n) simp_all

lemma disabled_not_unsupported: "is_disabled n \<Longrightarrow> own_unsupported n = []"
  by (cases n) simp_all

lemma walk_ok_node:
  "walk_ok limits inspect [n] d (seen, S) \<longleftrightarrow>
     d \<le> max_depth limits \<and> Suc seen \<le> max_nodes limits \<and> source_id n \<notin> S \<and>
     (inspect \<or> unsupported_error n = None) \<and>
     Suc seen + length (kids n) \<le> max_nodes limits \<and>
     walk_ok limits (inspect \<or> is_disabled n) (kids n) (Suc d)
       (Suc seen, insert (source_id n) S)"
proof -
  have "enabled_unsupported n = [] \<longleftrightarrow>
      unsupported_error n = None \<and>
      (is_disabled n \<or> list_all (\<lambda>c. enabled_unsupported c = []) (kids n))"
    by (auto simp: enabled_unsupported.simps [of n] unsupported_error_None
        disabled_not_unsupported list_all_iff)
  then show ?thesis
    using length_le_node_counts [of "kids n"]
    by (auto simp: walk_ok_def within_depth.simps [of _ d n] node_count_kids [of n]
        preorder_ids.simps [of n])
qed

lemma walk_Ok_iff:
  assumes "limits_fit limits"
  shows "walk limits inspect n d acc = Ok acc' \<longleftrightarrow>
      walk_ok limits inspect [n] d acc \<and> acc' = walk_after [n] acc"
    and "walks limits inspect cs d acc = Ok acc' \<longleftrightarrow>
      walk_ok limits inspect cs d acc \<and> acc' = walk_after cs acc"
  using assms
proof (induction limits inspect n d acc and limits inspect cs d acc arbitrary: acc' and acc'
    rule: walk_walks.induct)
  case (1 limits inspect n d acc)
  obtain seen S where acc: "acc = (seen, S)" by fastforce
  show ?case
  proof (cases "account_source_node n d limits acc")
    case (Inl e)
    then have "\<not> walk_ok limits inspect [n] d acc"
      using 1(2) acc account_Ok [of limits n d seen S] by (fastforce simp: walk_ok_node)
    with Inl show ?thesis by (simp add: walk.simps [of limits inspect n d acc])
  next
    case (Inr a)
    then have a: "d \<le> max_depth limits" "Suc seen \<le> max_nodes limits" "source_id n \<notin> S"
      "a = (Suc seen, insert (source_id n) S)"
      using 1(2) acc by (auto simp: account_Ok)
    have d: "checked_add usize_max d 1 = Some (Suc d)"
      using a(1) 1(2) by (simp add: limits_fit_def)
    have eq: "walk limits inspect n d acc =
        (case (if inspect then None else unsupported_error n) of
           Some e \<Rightarrow> Err e
         | None \<Rightarrow>
             (case source_children n of
                None \<Rightarrow> Ok a
              | Some cs \<Rightarrow>
                  (case ensure_child_capacity (length cs) (Suc seen) limits of
                     Err e \<Rightarrow> Err e
                   | Ok _ \<Rightarrow> walks limits (inspect \<or> is_disabled n) cs (Suc d) a)))"
      using Inr d a(4)
      by (simp add: walk.simps [of limits inspect n d acc] cong: option.case_cong sum.case_cong)
    show ?thesis
    proof (cases "if inspect then None else unsupported_error n")
      case (Some e)
      then show ?thesis
        unfolding eq by (auto simp: acc walk_ok_node split: if_splits)
    next
      case supported: None
      show ?thesis
      proof (cases "source_children n")
        case None
        then show ?thesis
          using supported a
          unfolding eq by (auto simp: acc walk_ok_node walk_after_node kids_def split: if_splits)
      next
        case (Some cs)
        note IH = 1(1) [OF Inr supported Some]
        show ?thesis
        proof (cases "ensure_child_capacity (length cs) (Suc seen) limits")
          case (Inl e)
          then have "\<not> Suc seen + length cs \<le> max_nodes limits"
            by (metis Inl_Inr_False capacity_Ok)
          with Inl show ?thesis
            using supported Some
            unfolding eq by (auto simp: acc walk_ok_node kids_def split: if_splits)
        next
          case cap: (Inr u)
          have "walks limits (inspect \<or> is_disabled n) cs (Suc d) a = Ok acc' \<longleftrightarrow>
              walk_ok limits (inspect \<or> is_disabled n) cs (Suc d) a \<and> acc' = walk_after cs a"
            using IH [of u "Suc d"] cap d a(4) 1(2) by simp
          moreover have "Suc seen + length cs \<le> max_nodes limits"
            using cap by (simp add: capacity_Ok)
          ultimately show ?thesis
            using supported Some a cap
            unfolding eq by (auto simp: acc walk_ok_node walk_after_node kids_def split: if_splits)
        qed
      qed
    qed
  qed
next
  case (2 limits inspect d acc)
  then show ?case by auto
next
  case (3 limits inspect c cs d acc)
  note IH = 3(1) [OF 3(3)]
  show ?case
  proof (cases "walk limits inspect c d acc")
    case (Inl e)
    then have "\<not> walk_ok limits inspect [c] d acc" using IH by (metis Inl_Inr_False)
    with Inl show ?thesis by (simp add: walk_ok_Cons [of _ _ c cs])
  next
    case (Inr a)
    then have "walk_ok limits inspect [c] d acc" and "a = walk_after [c] acc"
      using IH by auto
    with Inr 3(2) [OF Inr 3(3)] show ?thesis
      by (simp add: walk_ok_Cons [of _ _ c cs] walk_after_Cons [of c cs])
  qed
qed

section \<open>The compiled program represents its source\<close>

text \<open>
  \<open>represents ns k n\<close>: entry \<open>k\<close> of the node table is the executable projection of the source
  node \<open>n\<close>; a disabled node keeps its identity and loses its subtree.
\<close>

inductive represents :: "compiled_node list \<Rightarrow> node_index \<Rightarrow> controller_node \<Rightarrow> bool" for ns where
  rep_sample: "k < length ns \<Longrightarrow> ns ! k = CSample i \<Longrightarrow> represents ns k (Sample i)"
| rep_disabled: "k < length ns \<Longrightarrow> ns ! k = CDisabled i \<Longrightarrow> represents ns k (Disabled i cs)"
| rep_branch: "branch n cs \<Longrightarrow> k < length ns \<Longrightarrow> build_node n is = Some (ns ! k) \<Longrightarrow>
     list_all2 (represents ns) is cs \<Longrightarrow> represents ns k n"

lemma layout_nonempty: "enabled_unsupported n = [] \<Longrightarrow> layout b n \<noteq> []"
  by (cases n) (auto simp: enabled_unsupported.simps split: prod.splits)

lemma branch_supported:
  assumes "branch n cs" and "enabled_unsupported n = []"
  shows "list_all (\<lambda>c. enabled_unsupported c = []) cs"
  using assms(2) branch_simps [OF assms(1)]
  by (auto simp: enabled_unsupported.simps [of n] kids_def list_all_iff)

lemma branch_children_smaller: "branch n cs \<Longrightarrow> c \<in> set cs \<Longrightarrow> node_count c < node_count n"
  using kid_smaller [of c n] by (simp add: branch_def kids_def)

lemma layout_represents:
  assumes "enabled_unsupported n = []"
  shows "represents (pre @ layout (length pre) n @ post)
    (length pre + length (layout (length pre) n) - 1) n"
  using assms
proof (induction n arbitrary: pre post rule: measure_induct_rule [of node_count])
  case (less n)
  show ?case
  proof (cases n rule: node_cases)
    case (Branch cs)
    obtain out "is" where out: "layouts (length pre) cs = (out, is)" by fastforce
    have lay: "layout (length pre) n = out @ [the (build_node n is)]"
      using Branch out by (rule layout_branch)
    have kids: "list_all2 (represents (pre @ out @ post')) is cs" for post'
      using out branch_supported [OF Branch less.prems] less.IH branch_children_smaller [OF Branch]
    proof (induction cs arbitrary: pre out "is")
      case Nil
      then show ?case by simp
    next
      case (Cons c cs)
      let ?n1 = "layout (length pre) c"
      obtain n2 is2 where n2: "layouts (length pre + length ?n1) cs = (n2, is2)" by fastforce
      have split: "out = ?n1 @ n2" "is = (length pre + length ?n1 - 1) # is2"
        using Cons.prems(1) n2 by (simp_all add: Let_def)
      have "represents (pre @ ?n1 @ n2 @ post') (length pre + length ?n1 - 1) c"
        using Cons.prems(2-4) by simp
      moreover have "list_all2 (represents ((pre @ ?n1) @ n2 @ post')) is2 cs"
        using Cons.prems n2 by (intro Cons.IH) auto
      ultimately show ?case using split by simp
    qed
    have "build_node n is = Some (the (build_node n is))"
      using Branch by (auto simp: branch_def)
    then show ?thesis
      using Branch lay kids [of "the (build_node n is) # post"]
      by (intro rep_branch [of n cs _ _ "is"]) (auto simp: nth_append)
  qed (use less.prems in \<open>auto simp: enabled_unsupported.simps intro!: represents.intros\<close>)
qed

section \<open>Every error is truthful\<close>

fun truthful ::
  "controller_limits \<Rightarrow> bool \<Rightarrow> controller_node list \<Rightarrow> usize \<Rightarrow> account \<Rightarrow> controller_error \<Rightarrow> bool"
where
  "truthful limits inspect cs d acc (PlanTooDeep e m) \<longleftrightarrow>
     m = max_depth limits \<and> e = Suc m \<and> \<not> list_all (within_depth m d) cs"
| "truthful limits inspect cs d acc (PlanTooLarge k m) \<longleftrightarrow>
     m = max_nodes limits \<and> m < k \<and> k \<le> fst acc + sum_list (map node_count cs)"
| "truthful limits inspect cs d acc (DuplicateElementId i) \<longleftrightarrow>
     i \<in> set (concat (map preorder_ids cs)) \<inter> snd acc \<or>
     2 \<le> count_list (concat (map preorder_ids cs)) i"
| "truthful limits inspect cs d acc (UnsupportedController i k) \<longleftrightarrow>
     \<not> inspect \<and>
     (\<exists>kind. (i, kind) \<in> set (concat (map enabled_unsupported cs)) \<and> k = bounded_kind kind)"
| "truthful limits inspect cs d acc _ \<longleftrightarrow> False"

lemma count_list_ge1: "x \<in> set xs \<Longrightarrow> 1 \<le> count_list xs x"
  by (metis One_nat_def Suc_leI count_list_0_iff neq0_conv)

lemma truthful_head:
  assumes "truthful limits inspect [c] d acc e"
  shows "truthful limits inspect (c # cs) d acc e"
  using assms by (cases e) auto

lemma truthful_tail:
  assumes "truthful limits inspect cs d (walk_after [c] acc) e"
  shows "truthful limits inspect (c # cs) d acc e"
proof (cases e)
  case (DuplicateElementId i)
  let ?L = "concat (map preorder_ids cs)"
  have "i \<in> set ?L \<inter> (snd acc \<union> set (preorder_ids c)) \<or> 2 \<le> count_list ?L i"
    using assms DuplicateElementId by (simp add: walk_after_def)
  moreover have "2 \<le> count_list (preorder_ids c) i + count_list ?L i"
    if "i \<in> set ?L" and "i \<in> set (preorder_ids c)"
    using count_list_ge1 [OF that(1)] count_list_ge1 [OF that(2)] by linarith
  ultimately show ?thesis using DuplicateElementId by fastforce
qed (use assms in \<open>auto simp: walk_after_def add.assoc\<close>)

lemma truthful_node:
  assumes "truthful limits (inspect \<or> is_disabled n) (kids n) (Suc d)
      (Suc seen, insert (source_id n) S) e"
  shows "truthful limits inspect [n] d (seen, S) e"
proof (cases e)
  case (DuplicateElementId i)
  let ?L = "concat (map preorder_ids (kids n))"
  have "i \<in> set ?L \<inter> insert (source_id n) S \<or> 2 \<le> count_list ?L i"
    using assms DuplicateElementId by simp
  moreover have "2 \<le> Suc (count_list ?L i)" if "i \<in> set ?L"
    using count_list_ge1 [OF that] by linarith
  ultimately show ?thesis
    using DuplicateElementId by (fastforce simp: preorder_ids.simps [of n])
qed (use assms in \<open>auto simp: within_depth.simps [of _ d n] node_count_kids [of n]
      enabled_unsupported.simps [of n]\<close>)

lemma walk_truthful:
  assumes "limits_fit limits" and "d \<le> Suc (max_depth limits)"
  shows "walk limits inspect n d acc = Err e \<Longrightarrow> fst acc + node_count n \<le> usize_max \<Longrightarrow>
      truthful limits inspect [n] d acc e"
    and "walks limits inspect cs d acc = Err e \<Longrightarrow>
      fst acc + sum_list (map node_count cs) \<le> usize_max \<Longrightarrow>
      truthful limits inspect cs d acc e"
  using assms
proof (induction limits inspect n d acc and limits inspect cs d acc rule: walk_walks.induct)
  case (1 limits inspect n d acc)
  obtain seen S where acc: "acc = (seen, S)" by fastforce
  note walk = 1(2) [unfolded walk.simps [of limits inspect n d acc]]
  show ?case
  proof (cases "account_source_node n d limits acc")
    case (Inl e')
    then have "e = e'" using walk by simp
    then consider
        (deep) "e = PlanTooDeep d (max_depth limits)" "max_depth limits < d"
      | (large) "e = PlanTooLarge (Suc seen) (max_nodes limits)" "max_nodes limits < Suc seen"
      | (overflow) "usize_max < Suc seen"
      | (duplicate) "e = DuplicateElementId (source_id n)" "source_id n \<in> S"
      using account_cases [OF 1(4) Inl [unfolded acc]] by blast
    then show ?thesis
    proof cases
      case deep
      then have "d = Suc (max_depth limits)" using 1(5) by simp
      with deep show ?thesis by (simp add: within_depth.simps)
    next
      case large
      then show ?thesis using acc node_count_pos [of n] by simp
    next
      case overflow
      then show ?thesis using 1(3) acc node_count_pos [of n] by simp
    next
      case duplicate
      then show ?thesis using acc by (simp add: preorder_ids.simps [of n])
    qed
  next
    case (Inr a)
    then have a: "d \<le> max_depth limits" "Suc seen \<le> max_nodes limits"
        "a = (Suc seen, insert (source_id n) S)"
      using 1(4) acc by (auto simp: account_Ok)
    then have d: "Suc d \<le> usize_max" using 1(4) by (simp add: limits_fit_def)
    show ?thesis
    proof (cases "if inspect then None else unsupported_error n")
      case (Some e')
      then obtain i k where n: "n = Unsupported i k" "\<not> inspect"
          and "e' = UnsupportedController i (bounded_kind k)"
        by (cases n) (auto split: if_splits)
      with walk Inr Some have e: "e = UnsupportedController i (bounded_kind k)" by simp
      show ?thesis
        unfolding n(1) e using n(2)
        by (auto simp: enabled_unsupported.simps [of "Unsupported i k"])
    next
      case supported: None
      then obtain cs where cs: "source_children n = Some cs"
        using walk Inr by (cases "source_children n") (auto split: if_splits)
      then have k: "kids n = cs" by (simp add: kids_def)
      have sz: "Suc seen + length cs \<le> usize_max"
        using 1(3) acc length_le_node_counts [of cs] node_count_kids [of n] k by simp
      show ?thesis
      proof (cases "ensure_child_capacity (length cs) (fst a) limits")
        case (Inl e')
        then have "e = PlanTooLarge (Suc seen + length cs) (max_nodes limits)"
            "max_nodes limits < Suc seen + length cs"
          using walk Inr supported cs a sz
          by (auto simp: ensure_child_capacity_def split: if_splits)
        then show ?thesis
          using acc length_le_node_counts [of cs] node_count_kids [of n] k by simp
      next
        case cap: (Inr u)
        have "walks limits (inspect \<or> is_disabled n) cs (Suc d) a = Err e"
          using walk Inr supported cs cap d by (simp split: if_splits)
        moreover have "fst a + sum_list (map node_count cs) \<le> usize_max"
          using 1(3) a(3) acc node_count_kids [of n] k by simp
        ultimately have "truthful limits (inspect \<or> is_disabled n) cs (Suc d) a e"
          using 1(1) [OF Inr supported cs cap, of "Suc d"] d 1(4) a(1) by simp
        then show ?thesis
          using a(3) acc k truthful_node by simp
      qed
    qed
  qed
next
  case (2 limits inspect d acc)
  then show ?case by simp
next
  case (3 limits inspect c cs d acc)
  show ?case
  proof (cases "walk limits inspect c d acc")
    case (Inl e')
    then have "truthful limits inspect [c] d acc e"
      using 3 by simp
    then show ?thesis by (rule truthful_head)
  next
    case (Inr a)
    then have "a = walk_after [c] acc" using 3(5) by (simp add: walk_Ok_iff)
    with Inr 3 have "truthful limits inspect cs d (walk_after [c] acc) e"
      by (simp add: walk_after_def)
    then show ?thesis by (rule truthful_tail)
  qed
qed

section \<open>Properties of compilation\<close>

lemma compile_tree_walk:
  "compile_tree n limits =
     (case walk limits False n 0 (0, {}) of
        Err e \<Rightarrow> Err e
      | Ok _ \<Rightarrow> Ok (layout 0 n, length (layout 0 n) - 1))"
  using enter_walk(1) [of limits n 0 "[]" "[]" "[]" "(0, {})"]
  by (auto simp: compile_tree_def initial_compile_state_def Let_def compile_loop_Nil
      split: sum.split)

lemma admissible_walk_ok: "admissible limits n \<longleftrightarrow> walk_ok limits False [n] 0 (0, {})"
  by (auto simp: admissible_def walk_ok_def)

lemma compile_outcome:
  "compile_with_limits n limits =
    (case walk limits False n 0 (0, {}) of
       Err e \<Rightarrow> Err e
     | Ok _ \<Rightarrow> Ok \<lparr>nodes = layout 0 n, root = length (layout 0 n) - 1\<rparr>)"
  by (cases "walk limits False n 0 (0, {})") (simp_all add: compile_with_limits_def compile_tree_walk)

lemma admissible_iff_walk:
  assumes "limits_fit limits"
  shows "admissible limits n \<longleftrightarrow> is_ok (walk limits False n 0 (0, {}))"
proof (cases "walk limits False n 0 (0, {})")
  case (Inl e)
  then show ?thesis
    using walk_Ok_iff(1) [OF assms, of False n 0 "(0, {})" "walk_after [n] (0, {})"]
    by (simp add: admissible_walk_ok)
next
  case (Inr acc)
  then show ?thesis
    using walk_Ok_iff(1) [OF assms, of False n 0 "(0, {})" acc] by (simp add: admissible_walk_ok)
qed

lemma admissible_represents:
  "admissible limits n \<Longrightarrow> represents (layout 0 n) (length (layout 0 n) - 1) n"
  using layout_represents [of n "[]" "[]"] by (simp add: admissible_def)

lemma compile_OkD:
  assumes "limits_new mn md = Ok limits" and "compile_with_limits n limits = Ok p"
  shows "admissible limits n" and "represents (nodes p) (root p) n"
    and "p = \<lparr>nodes = layout 0 n, root = length (layout 0 n) - 1\<rparr>"
proof -
  obtain acc where acc: "walk limits False n 0 (0, {}) = Ok acc"
    using assms(2) by (auto simp: compile_outcome split: sum.splits)
  then show adm: "admissible limits n"
    using admissible_iff_walk [OF limits_new_fit [OF assms(1)]] by simp
  show p: "p = \<lparr>nodes = layout 0 n, root = length (layout 0 n) - 1\<rparr>"
    using acc assms(2) by (simp add: compile_outcome)
  show "represents (nodes p) (root p) n" unfolding p using admissible_represents [OF adm] by simp
qed

text \<open>C2: With limits accepted by \<open>ControllerLimits::new\<close>, the iterative compiler accepts exactly
  the trees that are within the depth and node bounds, repeat no element identity (disabled
  subtrees included) and hold no unsupported controller outside a disabled subtree; what it
  returns is the postorder layout of the tree, and that node table represents the source.\<close>

theorem compile_accepts_exactly:
  assumes "limits_new mn md = Ok limits"
  shows "(admissible limits n \<longrightarrow>
      compile_with_limits n limits = Ok \<lparr>nodes = layout 0 n, root = length (layout 0 n) - 1\<rparr> \<and>
      represents (layout 0 n) (length (layout 0 n) - 1) n) \<and>
    (\<not> admissible limits n \<longrightarrow> (\<exists>e. compile_with_limits n limits = Err e))"
  using admissible_iff_walk [OF limits_new_fit [OF assms], of n] admissible_represents [of limits n]
  by (cases "walk limits False n 0 (0, {})") (simp_all add: compile_outcome)

definition example_tree :: controller_node where
  "example_tree =
     Simple 1 [Sample 2, Loop 3 (Finite 2) [Sample 4, Interleave 5 [Sample 6, Sample 7]],
       Disabled 8 [Unsupported 9 ''x'']]"

lemma example_tree_admissible: "admissible \<lparr>max_nodes = 9, max_depth = 3\<rparr> example_tree"
  by (simp add: example_tree_def admissible_def within_depth.simps preorder_ids.simps kids_def
      enabled_unsupported.simps [of "Simple _ _"] enabled_unsupported.simps [of "Sample _"]
      enabled_unsupported.simps [of "Loop _ _ _"] enabled_unsupported.simps [of "Disabled _ _"]
      enabled_unsupported.simps [of "Interleave _ _"])

theorem compile_accepts_exactly_witness:
  "compile_with_limits example_tree \<lparr>max_nodes = 9, max_depth = 3\<rparr> =
     Ok \<lparr>nodes = [CSample 2, CSample 4, CSample 6, CSample 7, CInterleave 5 [2, 3],
          CLoop 3 (Finite 2) [1, 4], CDisabled 8, CSimple 1 [0, 5, 6]], root = 7\<rparr>"
proof -
  have lay: "layout 0 example_tree =
      [CSample 2, CSample 4, CSample 6, CSample 7, CInterleave 5 [2, 3],
       CLoop 3 (Finite 2) [1, 4], CDisabled 8, CSimple 1 [0, 5, 6]]"
    by (simp add: example_tree_def)
  have "limits_new 9 3 = Ok \<lparr>max_nodes = 9, max_depth = 3\<rparr>"
    by (simp add: limits_new_def MAX_ALLOWED_NODES_def MAX_ALLOWED_DEPTH_def)
  from compile_accepts_exactly [OF this, of example_tree] example_tree_admissible show ?thesis
    unfolding lay by simp
qed

text \<open>C3: Every compilation error says something true about the tree: the reported depth is the
  first one beyond the bound and the tree does reach it, the reported size exceeds the bound and
  does not exceed the tree's, a duplicate identity occurs at least twice, an unsupported
  controller is one outside every disabled subtree; no counter overflow and no invalid state is
  ever reported.\<close>

theorem compile_errors_truthful:
  assumes "limits_new mn md = Ok limits" and "node_count n \<le> usize_max"
    and "compile_with_limits n limits = Err e"
  shows "(\<exists>d. e = PlanTooDeep d (max_depth limits) \<and> d = Suc (max_depth limits) \<and>
        \<not> within_depth (max_depth limits) 0 n) \<or>
    (\<exists>k. e = PlanTooLarge k (max_nodes limits) \<and> max_nodes limits < k \<and> k \<le> node_count n) \<or>
    (\<exists>i. e = DuplicateElementId i \<and> 2 \<le> count_list (preorder_ids n) i) \<or>
    (\<exists>i kind. e = UnsupportedController i (bounded_kind kind) \<and>
        (i, kind) \<in> set (enabled_unsupported n))"
proof -
  have "walk limits False n 0 (0, {}) = Err e"
    using assms(3) by (auto simp: compile_with_limits_def compile_tree_walk split: sum.splits)
  then have "truthful limits False [n] 0 (0, {}) e"
    using walk_truthful(1) [OF limits_new_fit [OF assms(1)]] assms(2) by simp
  then show ?thesis by (cases e) auto
qed

theorem compile_errors_truthful_witness:
  "compile_with_limits (Simple 1 [Sample 1]) \<lparr>max_nodes = 9, max_depth = 3\<rparr> =
     Err (DuplicateElementId 1) \<and> 2 \<le> count_list (preorder_ids (Simple 1 [Sample 1])) 1"
proof -
  have err: "compile_with_limits (Simple 1 [Sample 1]) \<lparr>max_nodes = 9, max_depth = 3\<rparr> =
      Err (DuplicateElementId 1)"
    by (simp add: compile_with_limits_def compile_tree_walk walk.simps account_source_node_def
        ensure_child_capacity_def usize_max_def)
  have lim: "limits_new 9 3 = Ok \<lparr>max_nodes = 9, max_depth = 3\<rparr>"
    by (simp add: limits_new_def MAX_ALLOWED_NODES_def MAX_ALLOWED_DEPTH_def)
  have size: "node_count (Simple 1 [Sample 1]) \<le> usize_max" by (simp add: usize_max_def)
  show ?thesis using err compile_errors_truthful [OF lim size err] by simp
qed

end
