(* ===== verification/Control_Signal.thy ===== *)
theory Control_Signal
  imports Rust_Prelude
begin

text \<open>
  The control signals of the runtime and the cancellation state shared by the virtual users
  of one run (\<open>crates/runtime/src/controllers.rs\<close>, \<open>ControlSignal\<close> and \<open>Cancellation\<close>).

  A \<open>Cancellation\<close> value is a set of handles: the test-stop cell is shared by every view cloned
  from it, the thread-stop and next-loop cells belong to one view. The store below makes the
  sharing explicit: one test-stop cell and a list of views; a Rust value is an index into
  that list.
\<close>

section \<open>Control signals\<close>

datatype control_signal =
    Continue
  | NextLoop
  | StopThread
  | StopTestGraceful
  | StopTestImmediate

text \<open>The discriminants of the \<open>repr(u8)\<close> enumeration.\<close>

fun signal_as_u8 :: "control_signal \<Rightarrow> nat" where
  "signal_as_u8 Continue = 0"
| "signal_as_u8 NextLoop = 1"
| "signal_as_u8 StopThread = 2"
| "signal_as_u8 StopTestGraceful = 3"
| "signal_as_u8 StopTestImmediate = 4"

definition combine :: "control_signal \<Rightarrow> control_signal \<Rightarrow> control_signal" where
  "combine s t = (if signal_as_u8 t \<le> signal_as_u8 s then s else t)"

fun is_stop :: "control_signal \<Rightarrow> bool" where
  "is_stop StopThread = True"
| "is_stop StopTestGraceful = True"
| "is_stop StopTestImmediate = True"
| "is_stop _ = False"

definition signal_from_u8 :: "nat \<Rightarrow> control_signal" where
  "signal_from_u8 v =
     (if v = 1 then NextLoop
      else if v = 2 then StopThread
      else if v = 3 then StopTestGraceful
      else if 4 \<le> v then StopTestImmediate
      else Continue)"

lemma signal_as_u8_inj: "signal_as_u8 s = signal_as_u8 t \<longleftrightarrow> s = t"
  by (cases s; cases t) simp_all

text \<open>
  The derived \<open>Ord\<close> of the enumeration is its declaration order, which is the order of the
  discriminants: signals are linearly ordered by severity.
\<close>

instantiation control_signal :: linorder
begin

definition less_eq_control_signal :: "control_signal \<Rightarrow> control_signal \<Rightarrow> bool" where
  "less_eq_control_signal s t \<longleftrightarrow> signal_as_u8 s \<le> signal_as_u8 t"

definition less_control_signal :: "control_signal \<Rightarrow> control_signal \<Rightarrow> bool" where
  "less_control_signal s t \<longleftrightarrow> signal_as_u8 s < signal_as_u8 t"

instance
  by standard
    (auto simp: less_eq_control_signal_def less_control_signal_def signal_as_u8_inj
      dest!: order_antisym)

end

lemmas severity_defs = less_eq_control_signal_def less_control_signal_def

lemma combine_eq_max: "combine s t = max s t"
  by (cases s; cases t) (simp_all add: combine_def max_def severity_defs)

lemma signal_roundtrip: "signal_from_u8 (signal_as_u8 s) = s"
  by (cases s) (simp_all add: signal_from_u8_def)

lemma is_stop_iff: "is_stop s \<longleftrightarrow> StopThread \<le> s"
  by (cases s) (simp_all add: severity_defs)

lemma is_stop_mono: "is_stop s \<Longrightarrow> s \<le> t \<Longrightarrow> is_stop t"
  by (auto simp: is_stop_iff intro: order_trans)

section \<open>Cancellation views over one run\<close>

record cancel_view =
  thread_stop :: bool
  next_loop :: bool

record cancel_store =
  test_stop :: nat
  views :: "cancel_view list"

type_synonym view_id = nat

definition fresh_view :: cancel_view where
  "fresh_view = \<lparr>thread_stop = False, next_loop = False\<rparr>"

definition cancellation_new :: "cancel_store \<times> view_id" where
  "cancellation_new = (\<lparr>test_stop = signal_as_u8 Continue, views = [fresh_view]\<rparr>, 0)"

definition cancellation_clone_for_user :: "cancel_store \<Rightarrow> view_id \<Rightarrow> cancel_store \<times> view_id" where
  "cancellation_clone_for_user st v =
     (st\<lparr>views := views st @ [fresh_view]\<rparr>, length (views st))"

definition update_view :: "view_id \<Rightarrow> (cancel_view \<Rightarrow> cancel_view) \<Rightarrow> cancel_store \<Rightarrow> cancel_store" where
  "update_view v f st = st\<lparr>views := (views st)[v := f (views st ! v)]\<rparr>"

text \<open>
  \<open>request\<close>: the compare-and-exchange loop of the source ends with the cell at the larger of
  its content and the request; the interleaved loop is modelled below.
\<close>

definition cancellation_request :: "view_id \<Rightarrow> control_signal \<Rightarrow> cancel_store \<Rightarrow> cancel_store" where
  "cancellation_request v s st =
     (if s = NextLoop then update_view v (\<lambda>w. w\<lparr>next_loop := True\<rparr>) st
      else if s = StopThread then update_view v (\<lambda>w. w\<lparr>thread_stop := True\<rparr>) st
      else if s \<notin> {StopTestGraceful, StopTestImmediate} then st
      else if test_stop st < signal_as_u8 s then st\<lparr>test_stop := signal_as_u8 s\<rparr>
      else st)"

definition cancellation_signal :: "view_id \<Rightarrow> cancel_store \<Rightarrow> control_signal" where
  "cancellation_signal v st =
     (let stop = signal_from_u8 (test_stop st)
      in if is_stop stop then stop
         else if thread_stop (views st ! v) then StopThread
         else if next_loop (views st ! v) then NextLoop
         else Continue)"

definition cancellation_take_signal :: "view_id \<Rightarrow> cancel_store \<Rightarrow> control_signal \<times> cancel_store" where
  "cancellation_take_signal v st =
     (let stop = signal_from_u8 (test_stop st)
      in if is_stop stop then (stop, st)
         else if thread_stop (views st ! v) then (StopThread, st)
         else if next_loop (views st ! v)
           then (NextLoop, update_view v (\<lambda>w. w\<lparr>next_loop := False\<rparr>) st)
         else (Continue, st))"


section \<open>Laws of the cancellation store\<close>

lemma test_stop_update_view [simp]: "test_stop (update_view v f st) = test_stop st"
  by (simp add: update_view_def)

lemma views_update_view [simp]: "views (update_view v f st) = (views st)[v := f (views st ! v)]"
  by (simp add: update_view_def)

lemma test_stop_request_le: "test_stop st \<le> test_stop (cancellation_request v s st)"
  by (simp add: cancellation_request_def)

lemma signal_from_u8_mono:
  "a \<noteq> 1 \<Longrightarrow> a \<noteq> 2 \<Longrightarrow> a \<le> b \<Longrightarrow> is_stop (signal_from_u8 a) \<Longrightarrow>
   signal_from_u8 a \<le> signal_from_u8 b"
  by (auto simp: signal_from_u8_def severity_defs split: if_splits)

text \<open>
  The cell only ever holds \<open>Continue\<close> or one of the two test-stop discriminants.
\<close>

definition store_ok :: "cancel_store \<Rightarrow> bool" where
  "store_ok st \<longleftrightarrow> test_stop st \<in> {0, 3, 4}"

lemma store_ok_new: "store_ok (fst cancellation_new)"
  by (simp add: cancellation_new_def store_ok_def)

lemma store_ok_clone: "store_ok st \<Longrightarrow> store_ok (fst (cancellation_clone_for_user st v))"
  by (simp add: cancellation_clone_for_user_def store_ok_def)

lemma store_ok_request: "store_ok st \<Longrightarrow> store_ok (cancellation_request v s st)"
  by (cases s) (auto simp: cancellation_request_def store_ok_def)

lemma store_ok_take: "store_ok st \<Longrightarrow> store_ok (snd (cancellation_take_signal v st))"
  by (simp add: cancellation_take_signal_def store_ok_def Let_def)

lemma store_ok_cell:
  "store_ok st \<Longrightarrow>
   signal_from_u8 (test_stop st) \<in> {Continue, StopTestGraceful, StopTestImmediate}"
  by (auto simp: store_ok_def signal_from_u8_def)

lemma request_raises_signal:
  assumes "store_ok st" and "v < length (views st)"
  shows "cancellation_signal v (cancellation_request v s st) = max s (cancellation_signal v st)"
  using assms
  by (cases s)
    (auto simp: cancellation_request_def cancellation_signal_def store_ok_def signal_from_u8_def
      max_def severity_defs Let_def)

text \<open>
  What one request does to every view: a test stop reaches all of them, a next-loop or
  stop-thread request only the view it was made on, and no request lowers any view's signal.
\<close>

lemma request_other_view:
  assumes "store_ok st" and "w < length (views st)" and "w \<noteq> v"
  shows "cancellation_signal w (cancellation_request v s st) =
    (if s \<in> {StopTestGraceful, StopTestImmediate} then max s (cancellation_signal w st)
     else cancellation_signal w st)"
  using assms
  by (cases s)
    (auto simp: cancellation_request_def cancellation_signal_def store_ok_def signal_from_u8_def
      max_def severity_defs Let_def)

lemma clone_signal_old:
  "w < length (views st) \<Longrightarrow>
   cancellation_signal w (fst (cancellation_clone_for_user st v)) = cancellation_signal w st"
  by (simp add: cancellation_clone_for_user_def cancellation_signal_def nth_append)

lemma clone_signal_new:
  assumes "store_ok st" and "cancellation_clone_for_user st v = (st', w)"
  shows "cancellation_signal w st' =
    (if is_stop (signal_from_u8 (test_stop st)) then signal_from_u8 (test_stop st) else Continue)"
  using assms
  by (auto simp: cancellation_clone_for_user_def cancellation_signal_def fresh_view_def Let_def)

lemma take_signal_fst: "fst (cancellation_take_signal v st) = cancellation_signal v st"
  by (simp add: cancellation_take_signal_def cancellation_signal_def Let_def)

lemma take_signal_again:
  assumes "v < length (views st)"
  shows "cancellation_signal v (snd (cancellation_take_signal v st)) =
    (if cancellation_signal v st = NextLoop then Continue else cancellation_signal v st)"
  using assms
  by (auto simp: cancellation_take_signal_def cancellation_signal_def Let_def)

lemma take_signal_other_view:
  "w \<noteq> v \<Longrightarrow>
   cancellation_signal w (snd (cancellation_take_signal v st)) = cancellation_signal w st"
  by (simp add: cancellation_take_signal_def cancellation_signal_def Let_def)

section \<open>The compare-and-exchange loop under interleaving\<close>

text \<open>
  Concurrent \<open>request\<close> calls with a test-stop signal race on the shared cell. Each caller first
  loads the cell, then repeats \<open>compare_exchange_weak\<close> while what it last saw is below its
  request; a weak exchange may fail although the cell still holds the expected value.
\<close>

datatype request_pc =
    Loading nat
  | Looping nat nat
  | Returned nat

record cas_state =
  cell :: nat
  pcs :: "request_pc list"

inductive cas_step :: "cas_state \<Rightarrow> cas_state \<Rightarrow> bool" where
  cas_load: "i < length (pcs s) \<Longrightarrow> pcs s ! i = Loading r \<Longrightarrow>
     cas_step s (s\<lparr>pcs := (pcs s)[i := Looping r (cell s)]\<rparr>)"
| cas_exit: "i < length (pcs s) \<Longrightarrow> pcs s ! i = Looping r c \<Longrightarrow> \<not> c < r \<Longrightarrow>
     cas_step s (s\<lparr>pcs := (pcs s)[i := Returned r]\<rparr>)"
| cas_succeed: "i < length (pcs s) \<Longrightarrow> pcs s ! i = Looping r c \<Longrightarrow> c < r \<Longrightarrow> cell s = c \<Longrightarrow>
     cas_step s (s\<lparr>cell := r, pcs := (pcs s)[i := Returned r]\<rparr>)"
| cas_fail: "i < length (pcs s) \<Longrightarrow> pcs s ! i = Looping r c \<Longrightarrow> c < r \<Longrightarrow>
     cas_step s (s\<lparr>pcs := (pcs s)[i := Looping r (cell s)]\<rparr>)"

fun pc_request :: "request_pc \<Rightarrow> nat" where
  "pc_request (Loading r) = r"
| "pc_request (Looping r c) = r"
| "pc_request (Returned r) = r"

fun pc_ok :: "nat \<Rightarrow> request_pc \<Rightarrow> bool" where
  "pc_ok x (Loading r) = True"
| "pc_ok x (Looping r c) = (c \<le> x)"
| "pc_ok x (Returned r) = (r \<le> x)"

definition cas_init :: "nat \<Rightarrow> nat list \<Rightarrow> cas_state" where
  "cas_init x rs = \<lparr>cell = x, pcs = map Loading rs\<rparr>"

definition cas_inv :: "nat \<Rightarrow> nat list \<Rightarrow> cas_state \<Rightarrow> bool" where
  "cas_inv x rs s \<longleftrightarrow>
     map pc_request (pcs s) = rs \<and> x \<le> cell s \<and> cell s \<in> insert x (set rs) \<and>
     list_all (pc_ok (cell s)) (pcs s)"

lemma pc_ok_mono: "pc_ok x p \<Longrightarrow> x \<le> y \<Longrightarrow> pc_ok y p"
  by (cases p) auto

lemma list_all_update: "list_all P xs \<Longrightarrow> P x \<Longrightarrow> list_all P (xs[i := x])"
  by (auto simp: list_all_iff dest!: subsetD [OF set_update_subset_insert])

lemma map_pc_request_update:
  "i < length ps \<Longrightarrow> pc_request p = pc_request (ps ! i) \<Longrightarrow>
   map pc_request (ps[i := p]) = map pc_request ps"
  by (simp add: map_update) (metis length_map list_update_id nth_map)

lemma cas_step_inv:
  assumes "cas_step s t" and "cas_inv x rs s"
  shows "cas_inv x rs t \<and> cell s \<le> cell t"
  using assms
proof (induction rule: cas_step.induct)
  case (cas_succeed i s r c)
  have "list_all (pc_ok r) (pcs s)"
    using cas_succeed by (auto simp: cas_inv_def list_all_iff intro: pc_ok_mono)
  moreover have "r \<in> set rs"
    using cas_succeed by (auto simp: cas_inv_def in_set_conv_nth)
  ultimately show ?case
    using cas_succeed by (auto simp: cas_inv_def map_pc_request_update intro!: list_all_update)
next
  case (cas_exit i s r c)
  then have "\<forall>n < length (pcs s). pc_ok (cell s) (pcs s ! n)"
    by (simp add: cas_inv_def list_all_length)
  with cas_exit have "pc_ok (cell s) (Looping r c)" by fastforce
  then show ?case
    using cas_exit by (auto simp: cas_inv_def map_pc_request_update intro!: list_all_update)
qed (auto simp: cas_inv_def map_pc_request_update intro!: list_all_update)

lemma cas_reachable_inv:
  assumes "cas_step\<^sup>*\<^sup>* (cas_init x rs) s"
  shows "cas_inv x rs s"
  using assms
proof (induction rule: rtranclp_induct)
  case base
  show ?case by (simp add: cas_init_def cas_inv_def list_all_iff comp_def)
next
  case (step s t)
  then show ?case by (simp add: cas_step_inv)
qed

section \<open>Reachable stores and the properties of the component\<close>

inductive cancel_reachable :: "cancel_store \<Rightarrow> bool" where
  reach_new: "cancel_reachable (fst cancellation_new)"
| reach_clone: "cancel_reachable st \<Longrightarrow> v < length (views st) \<Longrightarrow>
     cancel_reachable (fst (cancellation_clone_for_user st v))"
| reach_request: "cancel_reachable st \<Longrightarrow> v < length (views st) \<Longrightarrow>
     cancel_reachable (cancellation_request v s st)"
| reach_take: "cancel_reachable st \<Longrightarrow> v < length (views st) \<Longrightarrow>
     cancel_reachable (snd (cancellation_take_signal v st))"

lemma reachable_store_ok: "cancel_reachable st \<Longrightarrow> store_ok st"
  by (induction rule: cancel_reachable.induct)
    (simp_all add: store_ok_new store_ok_clone store_ok_request store_ok_take)

text \<open>In every cancellation state the program can reach, a request made through one
  user's view raises that view's signal to the more severe of the two; another user's view is
  raised only by the two test-stop requests and never lowered.\<close>

theorem cancellation_request_signals:
  assumes "cancel_reachable st" and "v < length (views st)" and "w < length (views st)"
  shows "cancellation_signal w (cancellation_request v s st) =
    (if w = v \<or> s \<in> {StopTestGraceful, StopTestImmediate}
     then max s (cancellation_signal w st) else cancellation_signal w st)"
proof -
  have "store_ok st" using assms(1) by (rule reachable_store_ok)
  then show ?thesis
    using request_raises_signal request_other_view assms(2,3) by (cases "w = v") auto
qed

lemma two_view_store:
  "cancel_reachable \<lparr>test_stop = 0, views = [fresh_view, fresh_view]\<rparr>"
  using reach_clone [OF reach_new, of 0]
  by (simp add: cancellation_new_def cancellation_clone_for_user_def)

lemma cancellation_request_signals_example:
  "cancellation_signal 1
     (cancellation_request 0 StopTestGraceful \<lparr>test_stop = 0, views = [fresh_view, fresh_view]\<rparr>) =
   StopTestGraceful"
proof -
  have "cancellation_signal 1 \<lparr>test_stop = 0, views = [fresh_view, fresh_view]\<rparr> = Continue"
    by (simp add: cancellation_signal_def fresh_view_def signal_from_u8_def)
  with cancellation_request_signals [OF two_view_store, of 0 1 StopTestGraceful] show ?thesis
    by (simp add: max_def severity_defs)
qed

text \<open>Taking a signal at a controller boundary returns what peeking shows, consumes a
  next-loop request exactly once, keeps stop requests pending, and leaves every other user's
  view alone.\<close>

theorem take_signal_one_shot:
  assumes "v < length (views st)"
  shows "fst (cancellation_take_signal v st) = cancellation_signal v st \<and>
    cancellation_signal v (snd (cancellation_take_signal v st)) =
      (if cancellation_signal v st = NextLoop then Continue else cancellation_signal v st) \<and>
    (\<forall>w. w \<noteq> v \<longrightarrow>
      cancellation_signal w (snd (cancellation_take_signal v st)) = cancellation_signal w st)"
  using assms take_signal_fst take_signal_again take_signal_other_view by simp

lemma take_signal_one_shot_example:
  "fst (cancellation_take_signal 0 (cancellation_request 0 NextLoop (fst cancellation_new))) =
     NextLoop \<and>
   cancellation_signal 0
     (snd (cancellation_take_signal 0 (cancellation_request 0 NextLoop (fst cancellation_new)))) =
     Continue"
proof -
  let ?st = "cancellation_request 0 NextLoop (fst cancellation_new)"
  have "0 < length (views ?st)" and "cancellation_signal 0 ?st = NextLoop"
    by (simp_all add: cancellation_new_def cancellation_request_def cancellation_signal_def
        fresh_view_def signal_from_u8_def)
  with take_signal_one_shot [of 0 ?st] show ?thesis by simp
qed

text \<open>C35: However concurrent test-stop requests interleave, and however often the weak
  exchange fails, the shared cell never decreases, and once every caller has returned it holds
  the largest of its initial content and the requests.\<close>

theorem concurrent_requests_take_maximum:
  assumes "cas_step\<^sup>*\<^sup>* (cas_init x rs) s" and "cas_step\<^sup>*\<^sup>* s t"
  shows "cell s \<le> cell t \<and>
    (list_all (\<lambda>p. p = Returned (pc_request p)) (pcs t) \<longrightarrow> cell t = Max (insert x (set rs)))"
proof (intro conjI impI)
  have mono: "cell s \<le> cell t \<and> cas_inv x rs t"
    using assms(2)
  proof (induction rule: rtranclp_induct)
    case base
    show ?case using assms(1) by (simp add: cas_reachable_inv)
  next
    case (step y z)
    then show ?case using cas_step_inv [of y z x rs] by auto
  qed
  then show "cell s \<le> cell t" by simp
  assume "list_all (\<lambda>p. p = Returned (pc_request p)) (pcs t)"
  then have "\<forall>p \<in> set (pcs t). pc_request p \<le> cell t"
    using mono by (simp add: cas_inv_def list_all_iff) (metis pc_ok.simps(3))
  then have "\<forall>r \<in> insert x (set rs). r \<le> cell t"
    using mono by (auto simp: cas_inv_def)
  moreover have "cell t \<in> insert x (set rs)"
    using mono by (simp add: cas_inv_def)
  ultimately show "cell t = Max (insert x (set rs))"
    by (metis List.finite_set Max_eqI finite_insert)
qed

theorem concurrent_requests_take_maximum_witness:
  "cell \<lparr>cell = 4, pcs = [Returned 4]\<rparr> = Max (insert 0 (set [4]))"
proof -
  have 1: "cas_step (cas_init 0 [4]) \<lparr>cell = 0, pcs = [Looping 4 0]\<rparr>"
    using cas_load [of 0 "cas_init 0 [4]" 4] by (simp add: cas_init_def)
  have 2: "cas_step \<lparr>cell = 0, pcs = [Looping 4 0]\<rparr> \<lparr>cell = 4, pcs = [Returned 4]\<rparr>"
    using cas_succeed [of 0 "\<lparr>cell = 0, pcs = [Looping 4 0]\<rparr>" 4 0] by simp
  show ?thesis
    using concurrent_requests_take_maximum [of 0 "[4]" "\<lparr>cell = 0, pcs = [Looping 4 0]\<rparr>"
        "\<lparr>cell = 4, pcs = [Returned 4]\<rparr>"] 1 2 by (simp add: r_into_rtranclp)
qed

end
