(* ===== verification/Controller_Runner.thy ===== *)
theory Controller_Runner
  imports Control_Signal Controller_Program
begin

text \<open>
  The controller runner (\<open>crates/runtime/src/controllers.rs\<close>): budgets, the frame stack, the
  deterministic random streams, and the selection state machine that turns a compiled program
  into a sequence of sampler selections.

  A call of the source works on three mutable values: the runner (\<open>&mut self\<close>), the step budget
  and the run budget. They are the fields of \<open>exec_ctx\<close>, and every operation of the source is a
  routine on that record, so that what a failing call leaves behind is part of the model. The
  top frame of the stack is the last element of the list, as in the vector of the source. The
  ordered sets and maps of the source are only inserted into, removed from and looked up, so
  they are sets and maps here.
\<close>

section \<open>Budgets\<close>

record step_budget =
  limit :: usize
  used :: usize

definition step_budget_new :: "usize \<Rightarrow> step_budget" where
  "step_budget_new l = \<lparr>limit = l, used = 0\<rparr>"

definition remaining :: "step_budget \<Rightarrow> usize" where
  "remaining b = (case checked_sub (limit b) (used b) of Some r \<Rightarrow> r | None \<Rightarrow> 0)"

definition spend :: "(step_budget, controller_error, unit) routine" where
  "spend b =
     (if limit b \<le> used b then (Err (StepBudgetExhausted (used b) (limit b)), b)
      else (case checked_add usize_max (used b) 1 of
        None \<Rightarrow> (Err (CounterOverflow ''step-budget''), b)
      | Some u \<Rightarrow> (Ok (), b\<lparr>used := u\<rparr>)))"

record run_budget =
  max_samples :: usize
  max_transitions :: usize
  emitted :: usize
  transitions :: usize

definition run_budget_new :: "usize \<Rightarrow> usize \<Rightarrow> run_budget" where
  "run_budget_new ms mt =
     \<lparr>max_samples = ms, max_transitions = mt, emitted = 0, transitions = 0\<rparr>"

definition next_step_budget :: "run_budget \<Rightarrow> (controller_error, step_budget) result" where
  "next_step_budget b =
     (if max_transitions b \<le> transitions b
      then Err (RunBudgetExhausted (transitions b) (max_transitions b))
      else Ok (step_budget_new (max_transitions b - transitions b)))"

definition record_step :: "step_budget \<Rightarrow> (run_budget, controller_error, unit) routine" where
  "record_step sb b =
     (case checked_add usize_max (transitions b) (used sb) of
        None \<Rightarrow> (Err (CounterOverflow ''run-budget.transitions''), b)
      | Some t \<Rightarrow> (Ok (), b\<lparr>transitions := t\<rparr>))"

definition reserve_sample :: "(run_budget, controller_error, unit) routine" where
  "reserve_sample b =
     (if max_samples b \<le> emitted b
      then (Err (SampleBudgetExhausted (emitted b) (max_samples b)), b)
      else (case checked_add usize_max (emitted b) 1 of
        None \<Rightarrow> (Err (CounterOverflow ''run-budget.samples''), b)
      | Some e \<Rightarrow> (Ok (), b\<lparr>emitted := e\<rparr>)))"

section \<open>The deterministic random streams\<close>

unbundle bit_operations_syntax

definition SPLITMIX64_INCREMENT :: "64 word" where
  "SPLITMIX64_INCREMENT = 0x9E3779B97F4A7C15"

definition uniform_index :: "64 word \<Rightarrow> usize \<Rightarrow> usize option" where
  "uniform_index value bound =
     (if u64_max < bound then None
      else if bound = 0 then None
      else (let remainder = u64_max mod bound; threshold = (remainder + 1) mod bound in
        if unat value < threshold then None else Some (unat value mod bound)))"

definition splitmix :: "64 word \<Rightarrow> 64 word" where
  "splitmix s =
     (let v = s;
          v = (v XOR drop_bit 30 v) * 0xBF58476D1CE4E5B9;
          v = (v XOR drop_bit 27 v) * 0x94D049BB133111EB
      in v XOR drop_bit 31 v)"

definition next_seeded_value :: "64 word \<Rightarrow> 64 word \<times> 64 word" where
  "next_seeded_value state =
     (let state = state + SPLITMIX64_INCREMENT in (splitmix state, state))"

definition restore_random_state ::
  "element_id \<Rightarrow> 64 word option \<Rightarrow> (element_id \<rightharpoonup> 64 word) \<Rightarrow> (element_id \<rightharpoonup> 64 word)" where
  "restore_random_state i previous states =
     (case previous of Some v \<Rightarrow> states(i \<mapsto> v) | None \<Rightarrow> states(i := None))"

text \<open>The retry loop of \<open>random_index\<close>: every rejected draw spends one transition.\<close>

lemma spend_used:
  "spend b = (Ok u, b') \<Longrightarrow> b' = b\<lparr>used := Suc (used b)\<rparr> \<and> used b < limit b \<and> used b < usize_max"
  by (auto simp: spend_def split: if_splits option.splits)

function (sequential) random_loop ::
  "usize \<Rightarrow> 64 word \<Rightarrow> step_budget \<Rightarrow> (controller_error, usize) result \<times> 64 word \<times> step_budget" where
  "random_loop bound state b =
     (case next_seeded_value state of (value, state') \<Rightarrow>
        (case uniform_index value bound of
           Some index \<Rightarrow> (Ok index, state', b)
         | None \<Rightarrow>
             (case spend b of
                (Err e, b') \<Rightarrow> (Err e, state', b')
              | (Ok _, b') \<Rightarrow> random_loop bound state' b')))"
  by pat_completeness auto

termination random_loop
  by (relation "measure (\<lambda>(bound, state, b). limit b - used b)") (auto dest!: sym [THEN spend_used])

declare random_loop.simps [simp del]

section \<open>The runner's state\<close>

datatype controller_kind =
    KindSimple
  | KindLoop
  | KindOnceOnly
  | KindInterleave
  | KindRandom
  | KindRandomOrder

record controller_cursor =
  cursor_id :: element_id
  cursor_kind :: controller_kind
  cursor_iteration :: u64

record sample_selection =
  sampler_id :: element_id
  execution_iteration :: u64
  path :: "controller_cursor list"

datatype controller_step =
    StepSample sample_selection
  | Complete
  | Stopped control_signal

record execution_trace =
  samples :: "sample_selection list"
  trace_terminal :: controller_step

datatype frame_mode =
    ModeOrdered
  | ModeSkip
  | ModeOneShot "node_index option"
  | ModeRandomOrder "node_index list option"

datatype frame_state =
    StateOrdered
  | StateSkip
  | StateOneShot "node_index option"
  | StateRandomOrder "node_index option" bool

datatype compiled_node_kind =
    NodeSample
  | NodeDisabled
  | NodeSimple
  | NodeLoop loop_count
  | NodeOnceOnly
  | NodeInterleave element_id
  | NodeRandom element_id "64 word"
  | NodeRandomOrder element_id "64 word"

datatype frame_action =
    Select node_index
  | Finish
  | AdvanceLoop

record frame =
  frame_node :: node_index
  next_child :: usize
  iteration :: u64
  mode :: frame_mode

record controller_runner =
  program :: controller_program
  stack :: "frame list"
  root_started :: bool
  finished :: bool
  terminal :: "control_signal option"
  completed_iterations :: u64
  once_done :: "element_id set"
  interleave_next :: "element_id \<rightharpoonup> usize"
  random_states :: "element_id \<rightharpoonup> 64 word"

record exec_ctx =
  runner :: controller_runner
  budget :: step_budget
  run_bud :: run_budget

type_synonym 'a run = "(exec_ctx, controller_error, 'a) routine"

definition from_program :: "controller_program \<Rightarrow> controller_runner" where
  "from_program p =
     \<lparr>program = p, stack = [], root_started = False, finished = False, terminal = None,
      completed_iterations = 0, once_done = {}, interleave_next = Map.empty,
      random_states = Map.empty\<rparr>"

definition runner_clone_for_user :: "controller_runner \<Rightarrow> controller_runner" where
  "runner_clone_for_user r = from_program (program r)"

definition runner_reset :: "controller_runner \<Rightarrow> controller_runner" where
  "runner_reset r =
     r\<lparr>stack := [], root_started := False, finished := False, terminal := None,
       completed_iterations := 0, once_done := {}, interleave_next := Map.empty,
       random_states := Map.empty\<rparr>"

definition next_root_iteration :: "(controller_runner, controller_error, unit) routine" where
  "next_root_iteration r =
     (if \<not> finished r then (Err (InvalidState 0), r)
      else (Ok (), r\<lparr>stack := [], root_started := False, finished := False, terminal := None\<rparr>))"

fun compiled_id :: "compiled_node \<Rightarrow> element_id" where
  "compiled_id (CSample i) = i"
| "compiled_id (CSimple i _) = i"
| "compiled_id (CLoop i _ _) = i"
| "compiled_id (CDisabled i) = i"
| "compiled_id (COnceOnly i _) = i"
| "compiled_id (CInterleave i _) = i"
| "compiled_id (CRandom i _ _) = i"
| "compiled_id (CRandomOrder i _ _) = i"

fun frame_iteration_of :: "compiled_node \<Rightarrow> element_id \<Rightarrow> u64 \<Rightarrow> u64 option" where
  "frame_iteration_of (CLoop i _ _) c it = (if i = c then Some it else None)"
| "frame_iteration_of (CSample _) c it = None"
| "frame_iteration_of (CDisabled _) c it = None"
| "frame_iteration_of n c it = (if compiled_id n = c then Some 0 else None)"

fun find_map :: "('a \<Rightarrow> 'b option) \<Rightarrow> 'a list \<Rightarrow> 'b option" where
  "find_map f [] = None"
| "find_map f (x # xs) = (case f x of Some y \<Rightarrow> Some y | None \<Rightarrow> find_map f xs)"

definition node_at :: "controller_runner \<Rightarrow> node_index \<Rightarrow> compiled_node option" where
  "node_at r k = vec_get (nodes (program r)) k"

definition current_iteration :: "controller_runner \<Rightarrow> element_id \<Rightarrow> u64 option" where
  "current_iteration r c =
     find_map (\<lambda>f. case node_at r (frame_node f) of
         None \<Rightarrow> None
       | Some n \<Rightarrow> frame_iteration_of n c (iteration f)) (rev (stack r))"

section \<open>Helpers of the selection machine\<close>

definition node_identity :: "controller_runner \<Rightarrow> node_index \<Rightarrow> element_id option" where
  "node_identity r k =
     (case node_at r k of
        Some n \<Rightarrow> Some (compiled_id n)
      | None \<Rightarrow> if k \<le> u64_max then Some k else None)"

definition root_identity :: "controller_runner \<Rightarrow> (controller_error, element_id) result" where
  "root_identity r =
     ok_or (node_identity r (root (program r))) (CounterOverflow ''controller-identity'')"

definition iteration_overflow :: "controller_runner \<Rightarrow> node_index \<Rightarrow> controller_error" where
  "iteration_overflow r k =
     (case node_identity r k of
        Some controller \<Rightarrow> IterationOverflow controller
      | None \<Rightarrow> CounterOverflow ''controller-identity'')"

fun cursor_of :: "compiled_node \<Rightarrow> u64 \<Rightarrow> controller_cursor option" where
  "cursor_of (CSimple i _) it = Some \<lparr>cursor_id = i, cursor_kind = KindSimple, cursor_iteration = 0\<rparr>"
| "cursor_of (CLoop i _ _) it = Some \<lparr>cursor_id = i, cursor_kind = KindLoop, cursor_iteration = it\<rparr>"
| "cursor_of (COnceOnly i _) it = Some \<lparr>cursor_id = i, cursor_kind = KindOnceOnly, cursor_iteration = 0\<rparr>"
| "cursor_of (CInterleave i _) it = Some \<lparr>cursor_id = i, cursor_kind = KindInterleave, cursor_iteration = 0\<rparr>"
| "cursor_of (CRandom i _ _) it = Some \<lparr>cursor_id = i, cursor_kind = KindRandom, cursor_iteration = 0\<rparr>"
| "cursor_of (CRandomOrder i _ _) it = Some \<lparr>cursor_id = i, cursor_kind = KindRandomOrder, cursor_iteration = 0\<rparr>"
| "cursor_of (CDisabled _) it = None"
| "cursor_of (CSample _) it = None"

definition frame_cursor :: "compiled_node list \<Rightarrow> frame \<Rightarrow> controller_cursor option" where
  "frame_cursor ns f =
     (case vec_get ns (frame_node f) of None \<Rightarrow> None | Some n \<Rightarrow> cursor_of n (iteration f))"

definition selection :: "controller_runner \<Rightarrow> element_id \<Rightarrow> sample_selection" where
  "selection r i =
     \<lparr>sampler_id = i, execution_iteration = completed_iterations r,
      path = List.map_filter (frame_cursor (nodes (program r))) (stack r)\<rparr>"

text \<open>The parts of the context as receivers: the budgets, and the runner.\<close>

definition spend_step :: "unit run" where
  "spend_step c = (case spend (budget c) of (res, b) \<Rightarrow> (res, c\<lparr>budget := b\<rparr>))"

definition reserve_sample_run :: "unit run" where
  "reserve_sample_run c = (case reserve_sample (run_bud c) of (res, b) \<Rightarrow> (res, c\<lparr>run_bud := b\<rparr>))"

definition update_runner :: "(controller_runner \<Rightarrow> controller_runner) \<Rightarrow> exec_ctx \<Rightarrow> exec_ctx" where
  "update_runner f c = c\<lparr>runner := f (runner c)\<rparr>"

definition initial_mode :: "controller_runner \<Rightarrow> compiled_node \<Rightarrow> frame_mode" where
  "initial_mode r n =
     (case n of
        CDisabled _ \<Rightarrow> ModeSkip
      | COnceOnly i _ \<Rightarrow> if i \<in> once_done r then ModeSkip else ModeOrdered
      | CInterleave _ _ \<Rightarrow> ModeOneShot None
      | CRandom _ _ _ \<Rightarrow> ModeOneShot None
      | CRandomOrder _ _ _ \<Rightarrow> ModeRandomOrder None
      | _ \<Rightarrow> ModeOrdered)"

fun once_after :: "compiled_node \<Rightarrow> element_id set \<Rightarrow> element_id set" where
  "once_after (COnceOnly i _) s = insert i s"
| "once_after _ s = s"

definition push_frame :: "node_index \<Rightarrow> u64 \<Rightarrow> unit run" where
  "push_frame k it = reading (\<lambda>c.
     (case node_at (runner c) k of
        None \<Rightarrow> return_err (InvalidState k)
      | Some n \<Rightarrow> modify (update_runner (\<lambda>r.
          r\<lparr>stack := stack r @ [\<lparr>frame_node = k, next_child = 0, iteration = it,
                                  mode = initial_mode r n\<rparr>],
            once_done := once_after n (once_done r)\<rparr>))))"

definition advance_child :: "usize \<Rightarrow> unit run" where
  "advance_child fi = reading (\<lambda>c.
     (case vec_get (stack (runner c)) fi of
        None \<Rightarrow> return_err (InvalidState (root (program (runner c))))
      | Some f \<Rightarrow>
          (case checked_add usize_max (next_child f) 1 of
             None \<Rightarrow> return_err (CounterOverflow ''controller-child-index'')
           | Some j \<Rightarrow> modify (update_runner (\<lambda>r. r\<lparr>stack := (stack r)[fi := f\<lparr>next_child := j\<rparr>]\<rparr>)))))"

fun is_sample :: "compiled_node option \<Rightarrow> bool" where
  "is_sample (Some (CSample _)) = True"
| "is_sample _ = False"

definition reserve_child_sample :: "node_index \<Rightarrow> unit run" where
  "reserve_child_sample child = reading (\<lambda>c.
     (if is_sample (node_at (runner c) child) then reserve_sample_run else return_ok ()))"

definition random_index :: "element_id \<Rightarrow> 64 word \<Rightarrow> usize \<Rightarrow> usize run" where
  "random_index i seed bound =
     (if bound \<le> 1 then return_ok 0
      else if u64_max < bound then return_err (CounterOverflow ''random-bound'')
      else (\<lambda>c.
        let state = (case random_states (runner c) i of Some s \<Rightarrow> s | None \<Rightarrow> seed) in
        (case random_loop bound state (budget c) of (res, state', b) \<Rightarrow>
           (res, update_runner (\<lambda>r. r\<lparr>random_states := (random_states r)(i \<mapsto> state')\<rparr>)
                   (c\<lparr>budget := b\<rparr>)))))"

definition compiled_node_kind :: "controller_runner \<Rightarrow> node_index \<Rightarrow> (controller_error, compiled_node_kind) result" where
  "compiled_node_kind r k =
     (case node_at r k of
        Some (CSample _) \<Rightarrow> Ok NodeSample
      | Some (CDisabled _) \<Rightarrow> Ok NodeDisabled
      | Some (CSimple _ _) \<Rightarrow> Ok NodeSimple
      | Some (CLoop _ count _) \<Rightarrow> Ok (NodeLoop count)
      | Some (COnceOnly _ _) \<Rightarrow> Ok NodeOnceOnly
      | Some (CInterleave i _) \<Rightarrow> Ok (NodeInterleave i)
      | Some (CRandom i seed _) \<Rightarrow> Ok (NodeRandom i seed)
      | Some (CRandomOrder i seed _) \<Rightarrow> Ok (NodeRandomOrder i seed)
      | None \<Rightarrow> Err (InvalidState k))"

definition compiled_children :: "controller_runner \<Rightarrow> node_index \<Rightarrow> (controller_error, node_index list) result" where
  "compiled_children r k =
     (case node_at r k of
        Some (CSimple _ cs) \<Rightarrow> Ok cs
      | Some (CLoop _ _ cs) \<Rightarrow> Ok cs
      | Some (COnceOnly _ cs) \<Rightarrow> Ok cs
      | Some (CInterleave _ cs) \<Rightarrow> Ok cs
      | Some (CRandom _ _ cs) \<Rightarrow> Ok cs
      | Some (CRandomOrder _ _ cs) \<Rightarrow> Ok cs
      | _ \<Rightarrow> Err (InvalidState k))"

definition compiled_child_at ::
  "controller_runner \<Rightarrow> node_index \<Rightarrow> usize \<Rightarrow> (controller_error, node_index option) result" where
  "compiled_child_at r k position =
     (case compiled_children r k of Err e \<Rightarrow> Err e | Ok cs \<Rightarrow> Ok (vec_get cs position))"

section \<open>What the top frame does next\<close>

definition frame_state_of :: "frame \<Rightarrow> frame_state" where
  "frame_state_of f =
     (case mode f of
        ModeOrdered \<Rightarrow> StateOrdered
      | ModeSkip \<Rightarrow> StateSkip
      | ModeOneShot child \<Rightarrow> StateOneShot child
      | ModeRandomOrder order \<Rightarrow>
          StateRandomOrder (Option.bind order (\<lambda>xs. vec_get xs (next_child f))) (order = None))"

definition select_child :: "usize \<Rightarrow> node_index \<Rightarrow> frame_action run" where
  "select_child fi child =
     and_then (reserve_child_sample child) (\<lambda>_.
     and_then (advance_child fi) (\<lambda>_.
     return_ok (Select child)))"

definition ordered_action :: "usize \<Rightarrow> node_index \<Rightarrow> usize \<Rightarrow> frame_action run" where
  "ordered_action fi k j = reading (\<lambda>c.
     and_then (lift_result (compiled_child_at (runner c) k j)) (\<lambda>next.
     (case next of Some child \<Rightarrow> select_child fi child | None \<Rightarrow> return_ok Finish)))"

definition loop_action :: "usize \<Rightarrow> node_index \<Rightarrow> usize \<Rightarrow> u64 \<Rightarrow> loop_count \<Rightarrow> frame_action run" where
  "loop_action fi k j it count = reading (\<lambda>c.
     (case count of
        Finite tot \<Rightarrow>
          if tot = 0 then return_ok Finish
          else and_then (lift_result (compiled_child_at (runner c) k j)) (\<lambda>next.
            (case next of
               Some child \<Rightarrow> select_child fi child
             | None \<Rightarrow>
                 (case checked_add u64_max it 1 of
                    None \<Rightarrow> return_err (iteration_overflow (runner c) k)
                  | Some it' \<Rightarrow> return_ok (if tot \<le> it' then Finish else AdvanceLoop))))
      | Forever \<Rightarrow>
          and_then (lift_result (compiled_child_at (runner c) k j)) (\<lambda>next.
            (case next of
               Some child \<Rightarrow> select_child fi child
             | None \<Rightarrow> return_ok AdvanceLoop))))"

definition once_action :: "usize \<Rightarrow> node_index \<Rightarrow> usize \<Rightarrow> frame_state \<Rightarrow> frame_action run" where
  "once_action fi k j st = (if st = StateSkip then return_ok Finish else ordered_action fi k j)"

definition set_mode :: "usize \<Rightarrow> frame_mode \<Rightarrow> unit run" where
  "set_mode fi m = modify (update_runner (\<lambda>r.
     r\<lparr>stack := (stack r)[fi := (stack r ! fi)\<lparr>mode := m\<rparr>]\<rparr>))"

definition interleave_action :: "usize \<Rightarrow> node_index \<Rightarrow> frame_state \<Rightarrow> element_id \<Rightarrow> frame_action run" where
  "interleave_action fi k st i = reading (\<lambda>c.
     and_then (lift_result (compiled_children (runner c) k)) (\<lambda>cs.
     if length cs = 0 then return_ok Finish
     else (case st of
       StateOneShot (Some _) \<Rightarrow> return_ok Finish
     | StateOneShot None \<Rightarrow>
         (let cursor = (case interleave_next (runner c) i of Some n \<Rightarrow> n | None \<Rightarrow> 0);
              index = cursor mod length cs in
          and_then (lift_result (compiled_child_at (runner c) k index)) (\<lambda>ch.
          and_then (lift_result (ok_or ch (InvalidState k))) (\<lambda>child.
          and_then (lift_result (ok_or (checked_add usize_max cursor 1)
                     (CounterOverflow ''interleave-cursor''))) (\<lambda>next_cursor.
          and_then (reserve_child_sample child) (\<lambda>_.
          and_then (modify (update_runner (\<lambda>r.
                     r\<lparr>interleave_next := (interleave_next r)(i \<mapsto> next_cursor)\<rparr>))) (\<lambda>_.
          and_then (set_mode fi (ModeOneShot (Some child))) (\<lambda>_.
          return_ok (Select child))))))))
     | _ \<Rightarrow> return_err (InvalidState k))))"

text \<open>\<open>on_error m undo\<close>: the \<open>match\<close> that repairs the state before it returns the error of \<open>m\<close>.\<close>

definition on_error :: "'a run \<Rightarrow> (exec_ctx \<Rightarrow> exec_ctx) \<Rightarrow> 'a run" where
  "on_error m undo c = (case m c of (Err e, c') \<Rightarrow> (Err e, undo c') | (Ok x, c') \<Rightarrow> (Ok x, c'))"

definition restore_stream :: "element_id \<Rightarrow> 64 word option \<Rightarrow> exec_ctx \<Rightarrow> exec_ctx" where
  "restore_stream i previous =
     update_runner (\<lambda>r. r\<lparr>random_states := restore_random_state i previous (random_states r)\<rparr>)"

definition random_action ::
  "usize \<Rightarrow> node_index \<Rightarrow> frame_state \<Rightarrow> element_id \<Rightarrow> 64 word \<Rightarrow> frame_action run" where
  "random_action fi k st i seed = reading (\<lambda>c.
     and_then (lift_result (compiled_children (runner c) k)) (\<lambda>cs.
     if length cs = 0 then return_ok Finish
     else (case st of
       StateOneShot (Some _) \<Rightarrow> return_ok Finish
     | StateOneShot None \<Rightarrow>
         (let previous = random_states (runner c) i in
          and_then (on_error (random_index i seed (length cs)) (restore_stream i previous)) (\<lambda>index.
          and_then (lift_result (compiled_child_at (runner c) k index)) (\<lambda>ch.
          and_then (lift_result (ok_or ch (InvalidState k))) (\<lambda>child.
          and_then (on_error (reserve_child_sample child) (restore_stream i previous)) (\<lambda>_.
          and_then (set_mode fi (ModeOneShot (Some child))) (\<lambda>_.
          return_ok (Select child)))))))
     | _ \<Rightarrow> return_err (InvalidState k))))"

definition swap :: "'a list \<Rightarrow> usize \<Rightarrow> usize \<Rightarrow> 'a list" where
  "swap xs a b = xs[a := xs ! b, b := xs ! a]"

text \<open>
  \<open>for position in (1..order.len()).rev()\<close>: the argument is the number of positions left, so
  the position of a call with \<open>Suc p\<close> is \<open>Suc p\<close> itself.
\<close>

fun shuffle_loop :: "element_id \<Rightarrow> 64 word \<Rightarrow> 64 word option \<Rightarrow> nat \<Rightarrow> 'a list \<Rightarrow> ('a list) run" where
  "shuffle_loop i seed previous 0 order = return_ok order"
| "shuffle_loop i seed previous (Suc p) order =
     and_then (lift_result (ok_or (checked_add usize_max (Suc p) 1)
                (CounterOverflow ''random-order-bound''))) (\<lambda>bound.
     and_then (on_error (random_index i seed bound) (restore_stream i previous)) (\<lambda>index.
     shuffle_loop i seed previous p (swap order (Suc p) index)))"

text \<open>The order of the frame at index \<open>fi\<close>, read back after it was stored.\<close>

definition stored_order_child :: "controller_runner \<Rightarrow> usize \<Rightarrow> usize \<Rightarrow> node_index option" where
  "stored_order_child r fi j =
     (case vec_get (stack r) fi of
        None \<Rightarrow> None
      | Some f \<Rightarrow> (case mode f of ModeRandomOrder (Some order) \<Rightarrow> vec_get order j | _ \<Rightarrow> None))"

definition generate_order :: "usize \<Rightarrow> node_index list \<Rightarrow> element_id \<Rightarrow> 64 word \<Rightarrow> unit run" where
  "generate_order fi cs i seed = reading (\<lambda>c.
     (let previous = random_states (runner c) i in
      and_then (shuffle_loop i seed previous (length cs - 1) cs) (\<lambda>order.
      and_then (case vec_get order 0 of
                  Some child \<Rightarrow> on_error (reserve_child_sample child) (restore_stream i previous)
                | None \<Rightarrow> return_ok ()) (\<lambda>_.
      set_mode fi (ModeRandomOrder (Some order))))))"

definition random_order_action ::
  "usize \<Rightarrow> node_index \<Rightarrow> usize \<Rightarrow> frame_state \<Rightarrow> element_id \<Rightarrow> 64 word \<Rightarrow> frame_action run" where
  "random_order_action fi k j st i seed = reading (\<lambda>c.
     and_then (lift_result (compiled_children (runner c) k)) (\<lambda>cs.
     if length cs = 0 then return_ok Finish
     else (case st of
       StateRandomOrder current missing \<Rightarrow>
         and_then (if missing then generate_order fi cs i seed else return_ok ()) (\<lambda>_.
         reading (\<lambda>c'.
           (case (case current of Some x \<Rightarrow> Some x | None \<Rightarrow> stored_order_child (runner c') fi j) of
              None \<Rightarrow> return_ok Finish
            | Some child \<Rightarrow>
                and_then (if missing then return_ok () else reserve_child_sample child) (\<lambda>_.
                and_then (advance_child fi) (\<lambda>_.
                return_ok (Select child))))))
     | _ \<Rightarrow> return_err (InvalidState k))))"

definition frame_action :: "usize \<Rightarrow> frame_action run" where
  "frame_action fi = reading (\<lambda>c.
     (case vec_get (stack (runner c)) fi of
        None \<Rightarrow> return_err (InvalidState (root (program (runner c))))
      | Some f \<Rightarrow>
          (let k = frame_node f; j = next_child f; st = frame_state_of f in
           and_then (lift_result (compiled_node_kind (runner c) k)) (\<lambda>kind.
           (case kind of
              NodeSample \<Rightarrow> return_err (InvalidState k)
            | NodeDisabled \<Rightarrow> return_ok Finish
            | NodeSimple \<Rightarrow> ordered_action fi k j
            | NodeLoop count \<Rightarrow> loop_action fi k j (iteration f) count
            | NodeOnceOnly \<Rightarrow> once_action fi k j st
            | NodeInterleave i \<Rightarrow> interleave_action fi k st i
            | NodeRandom i seed \<Rightarrow> random_action fi k st i seed
            | NodeRandomOrder i seed \<Rightarrow> random_order_action fi k j st i seed)))))"

section \<open>The selection loop\<close>

definition start_root :: "controller_step option run" where
  "start_root = reading (\<lambda>c.
     (case node_at (runner c) (root (program (runner c))) of
        Some (CSample i) \<Rightarrow>
          and_then reserve_sample_run (\<lambda>_.
          and_then (modify (update_runner (\<lambda>r. r\<lparr>root_started := True\<rparr>))) (\<lambda>_.
          reading (\<lambda>c'. return_ok (Some (StepSample (selection (runner c') i))))))
      | Some _ \<Rightarrow>
          and_then (modify (update_runner (\<lambda>r. r\<lparr>root_started := True\<rparr>))) (\<lambda>_.
          and_then (push_frame (root (program (runner c))) 0) (\<lambda>_.
          return_ok None))
      | None \<Rightarrow> return_err (InvalidState (root (program (runner c))))))"

definition complete_root :: "controller_step option run" where
  "complete_root = reading (\<lambda>c.
     and_then (lift_result (root_identity (runner c))) (\<lambda>controller.
     and_then (lift_result (ok_or (checked_add u64_max (completed_iterations (runner c)) 1)
                (IterationOverflow controller))) (\<lambda>n.
     and_then (modify (update_runner (\<lambda>r. r\<lparr>finished := True, completed_iterations := n\<rparr>))) (\<lambda>_.
     return_ok (Some Complete)))))"

definition advance_loop :: "usize \<Rightarrow> controller_step option run" where
  "advance_loop fi = reading (\<lambda>c.
     (case vec_get (stack (runner c)) fi of
        None \<Rightarrow> return_err (InvalidState (root (program (runner c))))
      | Some f \<Rightarrow>
          (case checked_add u64_max (iteration f) 1 of
             None \<Rightarrow> return_err (iteration_overflow (runner c) (frame_node f))
           | Some it \<Rightarrow>
               and_then (modify (update_runner (\<lambda>r. r\<lparr>stack :=
                   (stack r)[fi := f\<lparr>next_child := 0, iteration := it, mode := ModeOrdered\<rparr>]\<rparr>))) (\<lambda>_.
               return_ok None))))"

definition perform_action :: "usize \<Rightarrow> frame_action \<Rightarrow> controller_step option run" where
  "perform_action fi action = reading (\<lambda>c.
     (case action of
        Select child \<Rightarrow>
          (case node_at (runner c) child of
             Some (CSample i) \<Rightarrow> return_ok (Some (StepSample (selection (runner c) i)))
           | Some _ \<Rightarrow> and_then (push_frame child 0) (\<lambda>_. return_ok None)
           | None \<Rightarrow> return_err (InvalidState child))
      | Finish \<Rightarrow>
          and_then (modify (update_runner (\<lambda>r. r\<lparr>stack := butlast (stack r)\<rparr>))) (\<lambda>_.
          return_ok None)
      | AdvanceLoop \<Rightarrow> advance_loop fi))"

text \<open>One pass of the loop of \<open>select_next_with_sample_budget\<close>; \<open>None\<close> is \<open>continue\<close>.\<close>

definition select_iter :: "controller_step option run" where
  "select_iter = reading (\<lambda>c.
     (case terminal (runner c) of
        Some signal \<Rightarrow> return_ok (Some (Stopped signal))
      | None \<Rightarrow>
          and_then spend_step (\<lambda>_. reading (\<lambda>c'.
            if \<not> root_started (runner c') then start_root
            else if stack (runner c') = [] then complete_root
            else (let fi = length (stack (runner c')) - 1 in
              and_then (frame_action fi) (perform_action fi))))))"

subsection \<open>What every operation keeps\<close>

text \<open>
  No operation of the selection machine changes the program, the pending stop signal or the
  limits; budgets only grow, and never past their limits; a once-only controller that was
  entered stays entered.
\<close>

definition advances :: "exec_ctx \<Rightarrow> exec_ctx \<Rightarrow> bool" where
  "advances c c' \<longleftrightarrow>
     program (runner c') = program (runner c) \<and>
     terminal (runner c') = terminal (runner c) \<and>
     once_done (runner c) \<subseteq> once_done (runner c') \<and>
     completed_iterations (runner c) \<le> completed_iterations (runner c') \<and>
     limit (budget c') = limit (budget c) \<and>
     used (budget c) \<le> used (budget c') \<and>
     (used (budget c) \<le> limit (budget c) \<longrightarrow> used (budget c') \<le> limit (budget c)) \<and>
     max_samples (run_bud c') = max_samples (run_bud c) \<and>
     max_transitions (run_bud c') = max_transitions (run_bud c) \<and>
     transitions (run_bud c') = transitions (run_bud c) \<and>
     emitted (run_bud c) \<le> emitted (run_bud c') \<and>
     (emitted (run_bud c) \<le> max_samples (run_bud c) \<longrightarrow>
        emitted (run_bud c') \<le> max_samples (run_bud c))"

interpretation adv: method_relation advances
  by unfold_locales (auto simp: advances_def)

named_theorems keeps_intros \<open>methods that respect the advance relation\<close>

lemma keeps_update_runner [keeps_intros]:
  assumes "\<And>r. program (f r) = program r" and "\<And>r. terminal (f r) = terminal r"
    and "\<And>r. once_done r \<subseteq> once_done (f r)"
    and "\<And>r. completed_iterations r \<le> completed_iterations (f r)"
  shows "keeps advances (modify (update_runner f))"
  using assms by (intro adv.keeps_modify) (simp add: advances_def update_runner_def)

lemma keeps_spend_step [keeps_intros]: "keeps advances spend_step"
  by (auto simp: keeps_def advances_def spend_step_def spend_def split: option.splits)

lemma keeps_reserve_sample_run [keeps_intros]: "keeps advances reserve_sample_run"
  by (auto simp: keeps_def advances_def reserve_sample_run_def reserve_sample_def
      split: option.splits)

lemma once_after_subset: "s \<subseteq> once_after n s"
  by (cases n) auto

lemma keeps_push_frame [keeps_intros]: "keeps advances (push_frame k it)"
  unfolding push_frame_def
  by (intro adv.keeps_reading)
    (auto intro!: adv.keeps_rules keeps_update_runner dest: once_after_subset [THEN subsetD]
      split: option.split)

lemma keeps_advance_child [keeps_intros]: "keeps advances (advance_child fi)"
  unfolding advance_child_def
  by (intro adv.keeps_reading)
    (auto intro!: adv.keeps_rules keeps_update_runner split: option.split)

lemma keeps_reserve_child_sample [keeps_intros]: "keeps advances (reserve_child_sample k)"
  unfolding reserve_child_sample_def
  by (auto intro!: adv.keeps_rules keeps_intros)

lemma random_loop_budget:
  "random_loop bound state b = (res, state', b') \<Longrightarrow>
     limit b' = limit b \<and> used b \<le> used b' \<and> (used b \<le> limit b \<longrightarrow> used b' \<le> limit b)"
proof (induction bound state b rule: random_loop.induct)
  case (1 bound state b)
  obtain v s1 where v: "next_seeded_value state = (v, s1)" by fastforce
  show ?case
  proof (cases "uniform_index v bound")
    case None
    obtain sres b1 where sp: "spend b = (sres, b1)" by fastforce
    show ?thesis
    proof (cases sres)
      case (Inl e)
      then show ?thesis using "1.prems" v None sp
        by (auto simp: random_loop.simps [of bound state b] spend_def split: if_splits option.splits)
    next
      case (Inr u)
      then have "random_loop bound s1 b1 = (res, state', b')"
        using "1.prems" v None sp by (simp add: random_loop.simps [of bound state b])
      then show ?thesis
        using "1.IH" [OF v [symmetric] None sp [symmetric] Inr] spend_used sp Inr by fastforce
    qed
  qed (use 1 v in \<open>simp add: random_loop.simps [of bound state b]\<close>)
qed

lemma keeps_random_index [keeps_intros]: "keeps advances (random_index i seed bound)"
  unfolding keeps_def
proof
  fix c :: exec_ctx
  let ?s = "case random_states (runner c) i of Some s \<Rightarrow> s | None \<Rightarrow> seed"
  obtain res state' b' where loop: "random_loop bound ?s (budget c) = (res, state', b')"
    by (metis prod_cases3)
  show "advances c (snd (random_index i seed bound c))"
    using random_loop_budget [OF loop] loop
    by (simp add: random_index_def advances_def update_runner_def Let_def)
qed

lemma keeps_on_error [keeps_intros]:
  assumes "keeps advances m" and "\<And>c c'. advances c c' \<Longrightarrow> advances c (undo c')"
  shows "keeps advances (on_error m undo)"
  using assms unfolding keeps_def on_error_def
  by (auto simp: split_def split: sum.split)

lemma advances_restore_stream [keeps_intros]: "advances c c' \<Longrightarrow> advances c (restore_stream i p c')"
  by (simp add: advances_def restore_stream_def update_runner_def)

lemma keeps_set_mode [keeps_intros]: "keeps advances (set_mode fi m)"
  unfolding set_mode_def by (auto intro!: keeps_update_runner)

lemma keeps_select_child [keeps_intros]: "keeps advances (select_child fi child)"
  unfolding select_child_def by (intro adv.keeps_rules keeps_intros)

lemma keeps_ordered_action [keeps_intros]: "keeps advances (ordered_action fi k j)"
  unfolding ordered_action_def
  by (auto intro!: adv.keeps_rules keeps_select_child split: option.split)

lemma keeps_loop_action [keeps_intros]: "keeps advances (loop_action fi k j it count)"
  unfolding loop_action_def
  by (auto intro!: adv.keeps_rules keeps_select_child split: option.split loop_count.split)

lemma keeps_once_action [keeps_intros]: "keeps advances (once_action fi k j st)"
  by (simp add: once_action_def adv.keeps_return_ok keeps_ordered_action)

lemma keeps_interleave_action [keeps_intros]: "keeps advances (interleave_action fi k st i)"
  unfolding interleave_action_def Let_def
  by (auto intro!: adv.keeps_rules keeps_intros split: option.split frame_state.split)

lemma keeps_random_action [keeps_intros]: "keeps advances (random_action fi k st i seed)"
  unfolding random_action_def Let_def
  by (auto intro!: adv.keeps_rules keeps_intros split: option.split frame_state.split)

lemma keeps_shuffle_loop [keeps_intros]: "keeps advances (shuffle_loop i seed prev n order)"
  by (induction n arbitrary: order) (auto intro!: adv.keeps_rules keeps_intros)

lemma keeps_generate_order [keeps_intros]: "keeps advances (generate_order fi cs i seed)"
  unfolding generate_order_def Let_def
  by (auto intro!: adv.keeps_rules keeps_intros split: option.split)

lemma keeps_random_order_action [keeps_intros]: "keeps advances (random_order_action fi k j st i seed)"
  unfolding random_order_action_def
  by (auto intro!: adv.keeps_rules keeps_intros split: option.split frame_state.split)

lemma keeps_frame_action [keeps_intros]: "keeps advances (frame_action fi)"
  unfolding frame_action_def Let_def
  by (auto intro!: adv.keeps_rules keeps_intros split: option.split compiled_node_kind.split)

lemma keeps_start_root [keeps_intros]: "keeps advances start_root"
  unfolding start_root_def
  by (auto intro!: adv.keeps_rules keeps_intros split: option.split compiled_node.split)

lemma keeps_complete_root [keeps_intros]: "keeps advances complete_root"
  unfolding complete_root_def keeps_def
  by (auto simp: and_then_def advances_def update_runner_def split: sum.split)

lemma keeps_perform_action [keeps_intros]: "keeps advances (perform_action fi action)"
  unfolding perform_action_def advance_loop_def
  by (auto intro!: adv.keeps_rules keeps_intros
      split: option.split compiled_node.split frame_action.split)

lemma keeps_select_iter [keeps_intros]: "keeps advances select_iter"
  unfolding select_iter_def Let_def
  by (auto intro!: adv.keeps_rules keeps_intros split: option.split)

lemma select_iter_spends:
  assumes "select_iter c = (res, c')" and "terminal (runner c) = None"
    and "used (budget c) < limit (budget c)" and "used (budget c) < usize_max"
  shows "used (budget c) < used (budget c')"
proof -
  let ?c1 = "c\<lparr>budget := (budget c)\<lparr>used := Suc (used (budget c))\<rparr>\<rparr>"
  let ?rest = "reading (\<lambda>c'. if \<not> root_started (runner c') then start_root
            else if stack (runner c') = [] then complete_root
            else (let fi = length (stack (runner c')) - 1 in
              and_then (frame_action fi) (perform_action fi)))"
  have "spend_step c = (Ok (), ?c1)" using assms(3,4) by (simp add: spend_step_def spend_def)
  then have "?rest ?c1 = (res, c')" using assms(1,2) by (simp add: select_iter_def)
  moreover have "keeps advances ?rest"
    unfolding Let_def by (auto intro!: adv.keeps_rules keeps_intros)
  ultimately have "advances ?c1 c'" by (blast dest: keepsD)
  then show ?thesis by (simp add: advances_def)
qed

lemma select_iter_no_budget:
  assumes "terminal (runner c) = None"
    and "limit (budget c) \<le> used (budget c) \<or> usize_max \<le> used (budget c)"
  shows "\<exists>e. select_iter c = (Err e, c)"
  using assms by (auto simp: select_iter_def spend_step_def spend_def and_then_def)

lemma select_iter_decreases:
  assumes "select_iter c = (Ok None, c')"
  shows "limit (budget c') - used (budget c') < limit (budget c) - used (budget c)"
proof -
  have t: "terminal (runner c) = None"
    using assms by (auto simp: select_iter_def split: option.splits)
  have u: "used (budget c) < limit (budget c)" "used (budget c) < usize_max"
    using select_iter_no_budget [OF t] assms by (auto simp: not_le [symmetric])
  then have "used (budget c) < used (budget c')" using select_iter_spends [OF assms t] by simp
  moreover have "limit (budget c') = limit (budget c)"
    using keepsD [OF keeps_select_iter assms] by (simp add: advances_def)
  ultimately show ?thesis using u by linarith
qed

function select_loop :: "controller_step run" where
  "select_loop c =
     (case select_iter c of
        (Err e, c') \<Rightarrow> (Err e, c')
      | (Ok (Some st), c') \<Rightarrow> (Ok st, c')
      | (Ok None, c') \<Rightarrow> select_loop c')"
  by pat_completeness auto

termination select_loop
  by (relation "measure (\<lambda>c. limit (budget c) - used (budget c))")
    (auto dest!: sym [THEN select_iter_decreases])

declare select_loop.simps [simp del]

lemma keeps_select_loop [keeps_intros]: "keeps advances select_loop"
  unfolding keeps_def
proof
  fix c show "advances c (snd (select_loop c))"
  proof (induction c rule: select_loop.induct)
    case (1 c)
    obtain res c1 where it: "select_iter c = (res, c1)" by fastforce
    then have adv: "advances c c1" using keepsD [OF keeps_select_iter] by blast
    show ?case
    proof (cases "res = Ok None")
      case True
      then have "advances c1 (snd (select_loop c1))" using 1 it by simp
      with adv have "advances c (snd (select_loop c1))" by (rule adv.trans)
      then show ?thesis using it True by (simp add: select_loop.simps [of c])
    next
      case False
      then show ?thesis using adv it
        by (auto simp: select_loop.simps [of c] split: sum.split option.split)
    qed
  qed
qed

lemma select_loop_sample_spends:
  assumes "select_loop c = (Ok (StepSample s), c')"
  shows "used (budget c) < used (budget c')"
  using assms
proof (induction c rule: select_loop.induct)
  case (1 c)
  obtain res c1 where it: "select_iter c = (res, c1)" by fastforce
  have t: "terminal (runner c) = None"
    using "1.prems" it by (auto simp: select_loop.simps [of c] select_iter_def split: option.splits)
  have "res \<noteq> Err e" for e using "1.prems" it by (auto simp: select_loop.simps [of c])
  then have u: "used (budget c) < limit (budget c)" "used (budget c) < usize_max"
    using select_iter_no_budget [OF t] it by (auto simp: not_le [symmetric])
  have lt: "used (budget c) < used (budget c1)" using select_iter_spends [OF it t u] .
  show ?case
  proof (cases "res = Ok None")
    case True
    then have "used (budget c1) < used (budget c')"
      using 1 it by (simp add: select_loop.simps [of c])
    then show ?thesis using lt by simp
  next
    case False
    then show ?thesis using "1.prems" it lt
      by (auto simp: select_loop.simps [of c] split: sum.splits option.splits)
  qed
qed

definition select_next_with_sample_budget :: "controller_step run" where
  "select_next_with_sample_budget = reading (\<lambda>c.
     if finished (runner c) then return_ok Complete else select_loop)"

definition select_next :: "controller_step run" where
  "select_next c =
     (case select_next_with_sample_budget (c\<lparr>run_bud := run_budget_new usize_max usize_max\<rparr>) of
        (res, c') \<Rightarrow> (res, c'\<lparr>run_bud := run_bud c\<rparr>))"

section \<open>Control signals\<close>

fun is_loop :: "compiled_node option \<Rightarrow> bool" where
  "is_loop (Some (CLoop _ _ _)) = True"
| "is_loop _ = False"

text \<open>\<open>Iterator::rposition\<close>: the last index that satisfies the predicate.\<close>

fun rposition :: "('a \<Rightarrow> bool) \<Rightarrow> 'a list \<Rightarrow> usize option" where
  "rposition p [] = None"
| "rposition p (x # xs) =
     (case rposition p xs of Some n \<Rightarrow> Some (Suc n) | None \<Rightarrow> if p x then Some 0 else None)"

definition finish_root_early :: "unit run" where
  "finish_root_early = reading (\<lambda>c.
     and_then (lift_result (root_identity (runner c))) (\<lambda>controller.
     and_then (lift_result (ok_or (checked_add u64_max (completed_iterations (runner c)) 1)
                (IterationOverflow controller))) (\<lambda>n.
     modify (update_runner (\<lambda>r.
       r\<lparr>stack := [], root_started := True, completed_iterations := n, finished := True\<rparr>)))))"

definition next_loop_iteration :: "loop_count \<Rightarrow> element_id \<Rightarrow> u64 \<Rightarrow> (controller_error, u64 option) result" where
  "next_loop_iteration count controller it =
     (case count of
        Finite tot \<Rightarrow>
          (case checked_add u64_max it 1 of
             None \<Rightarrow> Err (IterationOverflow controller)
           | Some n \<Rightarrow> Ok (if tot \<le> n then None else Some n))
      | Forever \<Rightarrow>
          (case checked_add u64_max it 1 of
             None \<Rightarrow> Err (IterationOverflow controller)
           | Some n \<Rightarrow> Ok (Some n)))"

definition rewind_loop :: "usize \<Rightarrow> u64 option \<Rightarrow> node_index list \<Rightarrow> controller_runner \<Rightarrow> controller_runner" where
  "rewind_loop li next cs r =
     (let st = take (Suc li) (stack r); f = st ! li in
      r\<lparr>stack := st[li := (case next of
          Some it \<Rightarrow> f\<lparr>iteration := it, next_child := 0, mode := ModeOrdered\<rparr>
        | None \<Rightarrow> f\<lparr>next_child := length cs, mode := ModeOrdered\<rparr>)]\<rparr>)"

definition apply_next_loop :: "unit run" where
  "apply_next_loop = reading (\<lambda>c.
     if finished (runner c) then return_ok ()
     else (case rposition (\<lambda>f. is_loop (node_at (runner c) (frame_node f))) (stack (runner c)) of
       None \<Rightarrow> finish_root_early
     | Some li \<Rightarrow>
         (case vec_get (stack (runner c)) li of
            None \<Rightarrow> return_err (InvalidState (root (program (runner c))))
          | Some f \<Rightarrow>
              (case node_at (runner c) (frame_node f) of
                 Some (CLoop controller count cs) \<Rightarrow>
                   and_then (lift_result (next_loop_iteration count controller (iteration f))) (\<lambda>next.
                   and_then (lift_result (ok_or (checked_add usize_max li 1)
                              (CounterOverflow ''controller-stack-index''))) (\<lambda>_.
                   modify (update_runner (rewind_loop li next cs))))
               | _ \<Rightarrow> return_err (InvalidState (frame_node f))))))"

definition set_terminal :: "control_signal \<Rightarrow> unit run" where
  "set_terminal signal = modify (update_runner (\<lambda>r. r\<lparr>terminal := Some signal\<rparr>))"

text \<open>
  The common body of \<open>step_with_signal\<close> and \<open>step_with_run_budget\<close>, which differ in the
  selection they end with.
\<close>

definition signalled :: "control_signal \<Rightarrow> controller_step run \<Rightarrow> controller_step run" where
  "signalled signal select = reading (\<lambda>c.
     (case terminal (runner c) of
        Some existing \<Rightarrow>
          if is_stop signal
          then and_then (set_terminal (combine existing signal)) (\<lambda>_.
                 return_ok (Stopped (combine existing signal)))
          else return_ok (Stopped existing)
      | None \<Rightarrow>
          if is_stop signal
          then and_then spend_step (\<lambda>_.
               and_then (set_terminal signal) (\<lambda>_.
               return_ok (Stopped signal)))
          else if signal = NextLoop
          then and_then (if finished (runner c) then return_ok ()
                         else and_then spend_step (\<lambda>_. apply_next_loop)) (\<lambda>_.
               reading (\<lambda>c'. if finished (runner c') then return_ok Complete else select))
          else select))"

definition step_with_signal :: "control_signal \<Rightarrow> controller_step run" where
  "step_with_signal signal = signalled signal select_next"

definition step :: "controller_step run" where
  "step = step_with_signal Continue"

definition step_with_run_budget :: "control_signal \<Rightarrow> controller_step run" where
  "step_with_run_budget signal = signalled signal select_next_with_sample_budget"

definition step_with_cancellation ::
  "view_id \<Rightarrow> (exec_ctx \<times> cancel_store, controller_error, controller_step) routine" where
  "step_with_cancellation v s =
     (case s of (c, store) \<Rightarrow>
        (let signal = cancellation_signal v store in
         (case step_with_signal signal c of (res, c') \<Rightarrow>
            (res, c', if is_ok res \<and> signal = NextLoop
                      then snd (cancellation_take_signal v store) else store))))"

section \<open>Bounded runs\<close>

lemma keeps_select_next_with_sample_budget [keeps_intros]:
  "keeps advances select_next_with_sample_budget"
  unfolding select_next_with_sample_budget_def by (auto intro!: adv.keeps_rules keeps_intros)

lemma keeps_apply_next_loop [keeps_intros]: "keeps advances apply_next_loop"
  unfolding apply_next_loop_def finish_root_early_def keeps_def
  by (auto simp: and_then_def advances_def update_runner_def rewind_loop_def Let_def
      split: option.split compiled_node.split sum.split)

text \<open>A step keeps everything but the stop signal, which only ever gets more severe.\<close>

definition steps_from :: "exec_ctx \<Rightarrow> exec_ctx \<Rightarrow> bool" where
  "steps_from c c' \<longleftrightarrow>
     advances (update_runner (\<lambda>r. r\<lparr>terminal := None\<rparr>) c) (update_runner (\<lambda>r. r\<lparr>terminal := None\<rparr>) c') \<and>
     (\<forall>s. terminal (runner c) = Some s \<longrightarrow> (\<exists>t. terminal (runner c') = Some t \<and> s \<le> t))"

interpretation stp: method_relation steps_from
proof
  fix s t u assume "steps_from s t" "steps_from t u"
  then show "steps_from s u"
    unfolding steps_from_def by (meson adv.trans order_trans)
qed (auto simp: steps_from_def adv.refl)

lemma advances_steps_from: "advances c c' \<Longrightarrow> steps_from c c'"
  by (auto simp: steps_from_def advances_def update_runner_def)

lemma keeps_advances_steps: "keeps advances m \<Longrightarrow> keeps steps_from m"
  by (simp add: keeps_def advances_steps_from)

lemma steps_set_terminal:
  "(\<And>s. terminal (runner c) = Some s \<Longrightarrow> s \<le> t) \<Longrightarrow> steps_from c (snd (set_terminal t c))"
  by (simp add: steps_from_def set_terminal_def update_runner_def adv.refl)

lemma keeps_signalled:
  assumes "keeps steps_from select"
  shows "keeps steps_from (signalled signal select)"
  unfolding keeps_def
proof
  fix c :: exec_ctx
  note sp = keeps_advances_steps [OF keeps_spend_step]
  have rest: "keeps steps_from (reading (\<lambda>c'. if finished (runner c') then return_ok Complete else select))"
    using assms by (auto intro!: stp.keeps_rules)
  have pre: "keeps steps_from (if finished (runner c) then return_ok ()
      else and_then spend_step (\<lambda>_. apply_next_loop))"
    using sp keeps_advances_steps [OF keeps_apply_next_loop] by (auto intro!: stp.keeps_rules)
  have nxt: "steps_from c (snd (and_then (if finished (runner c) then return_ok ()
      else and_then spend_step (\<lambda>_. apply_next_loop)) (\<lambda>_.
        reading (\<lambda>c'. if finished (runner c') then return_ok Complete else select)) c))"
    using stp.keeps_and_then [OF pre rest] by (simp add: keeps_def)
  show "steps_from c (snd (signalled signal select c))"
  proof (cases "terminal (runner c)")
    case (Some t)
    have "steps_from c (snd (set_terminal (combine t signal) c))"
      using Some by (intro steps_set_terminal) (simp add: combine_eq_max)
    then show ?thesis using Some
      by (auto simp: signalled_def stp.refl set_terminal_def and_then_def)
  next
    case None
    obtain res c1 where s1: "spend_step c = (res, c1)" by fastforce
    then have 1: "steps_from c c1" using sp by (blast dest: keepsD)
    moreover have "terminal (runner c1) = None"
      using s1 None by (auto simp: spend_step_def split: prod.splits)
    then have "steps_from c1 (snd (set_terminal signal c1))" by (intro steps_set_terminal) simp
    ultimately have "steps_from c (snd (set_terminal signal c1))" by (rule stp.trans)
    then have stop: "steps_from c (snd (and_then spend_step (\<lambda>_. and_then (set_terminal signal)
        (\<lambda>_. return_ok (Stopped signal))) c))"
      using s1 1 by (cases res) (auto simp: set_terminal_def and_then_def)
    have "steps_from c (snd (select c))" using assms by (simp add: keeps_def)
    then show ?thesis using None stop nxt by (simp add: signalled_def)
  qed
qed

lemma steps_step_with_run_budget: "keeps steps_from (step_with_run_budget signal)"
  unfolding step_with_run_budget_def
  by (intro keeps_signalled keeps_advances_steps keeps_intros)

lemma signalled_sample_spends:
  assumes "signalled signal select c = (Ok (StepSample s), c')"
    and "\<And>c c'. select c = (Ok (StepSample s), c') \<Longrightarrow> used (budget c) < used (budget c')"
  shows "used (budget c) < used (budget c')"
proof -
  have mono: "used (budget c) \<le> used (budget c1)"
    if "and_then spend_step (\<lambda>_. apply_next_loop) c = (x, c1)" for x c1
    using keepsD [OF adv.keeps_and_then [OF keeps_spend_step keeps_apply_next_loop] that]
    by (simp add: advances_def)
  show ?thesis
    using assms(1)
    by (auto simp: signalled_def set_terminal_def and_then_eq_Ok [of _ "\<lambda>_. reading _"]
        and_then_eq_Ok [of spend_step "\<lambda>_. and_then _ _"] and_then_eq_Ok [of "modify _"]
        split: option.splits if_splits dest: assms(2) dest!: mono)
qed

lemma step_sample_spends:
  assumes "step_with_run_budget signal c = (Ok (StepSample s), c')"
  shows "used (budget c) < used (budget c')"
  using assms unfolding step_with_run_budget_def
  by (rule signalled_sample_spends)
    (auto simp: select_next_with_sample_budget_def split: if_splits dest: select_loop_sample_spends)

function run_loop ::
  "control_signal \<Rightarrow> sample_selection list \<Rightarrow> controller_runner \<Rightarrow> run_budget \<Rightarrow>
   (controller_error, execution_trace) result \<times> controller_runner \<times> run_budget" where
  "run_loop signal acc r rb =
     (case next_step_budget rb of
        Err e \<Rightarrow> (Err e, r, rb)
      | Ok sb \<Rightarrow>
          (case step_with_run_budget signal \<lparr>runner = r, budget = sb, run_bud = rb\<rparr> of (outcome, c) \<Rightarrow>
             (case record_step (budget c) (run_bud c) of
                (Err e, rb') \<Rightarrow> (Err e, runner c, rb')
              | (Ok _, rb') \<Rightarrow>
                  (case outcome of
                     Err e \<Rightarrow> (Err e, runner c, rb')
                   | Ok (StepSample s) \<Rightarrow> run_loop Continue (acc @ [s]) (runner c) rb'
                   | Ok out \<Rightarrow> (Ok \<lparr>samples = acc, trace_terminal = out\<rparr>, runner c, rb')))))"
  by pat_completeness auto

lemma run_loop_decreases:
  assumes "next_step_budget rb = Ok sb"
    and "step_with_run_budget signal \<lparr>runner = r, budget = sb, run_bud = rb\<rparr> = (Ok (StepSample s), c)"
    and "record_step (budget c) (run_bud c) = (Ok u, rb')"
  shows "max_transitions rb' - transitions rb' < max_transitions rb - transitions rb"
proof -
  have "0 < used (budget c)"
    using step_sample_spends [OF assms(2)] assms(1)
    by simp
  moreover have "transitions (run_bud c) = transitions rb" "max_transitions (run_bud c) = max_transitions rb"
    using keepsD [OF steps_step_with_run_budget assms(2)]
    by (simp_all add: steps_from_def advances_def update_runner_def)
  moreover have "transitions rb < max_transitions rb"
    using assms(1) by (auto simp: next_step_budget_def split: if_splits)
  ultimately show ?thesis using assms(3) by (auto simp: record_step_def split: option.splits)
qed

termination run_loop
  by (relation "measure (\<lambda>(signal, acc, r, rb). max_transitions rb - transitions rb)")
    (auto, metis run_loop_decreases)

declare run_loop.simps [simp del]

definition run_to_completion_with_signal ::
  "control_signal \<Rightarrow> controller_runner \<Rightarrow> run_budget \<Rightarrow>
   (controller_error, execution_trace) result \<times> controller_runner \<times> run_budget" where
  "run_to_completion_with_signal signal r rb = run_loop signal [] r rb"

definition run_to_completion ::
  "controller_runner \<Rightarrow> run_budget \<Rightarrow>
   (controller_error, execution_trace) result \<times> controller_runner \<times> run_budget" where
  "run_to_completion r rb = run_to_completion_with_signal Continue r rb"

end
