(* ===== verification/Random_Stream.thy ===== *)
theory Random_Stream
  imports Controller_Runner "HOL-Library.Multiset"
begin

text \<open>
  The random draws of the controllers: the SplitMix64 output function is injective and the
  stream has full period, so a bounded draw accepts after fewer rejections than its bound, and
  the accepted values are spread evenly over the indices. \<open>draw\<close> and \<open>shuffled\<close> are the
  reference for \<open>random_index\<close> and for the shuffle loop of \<open>frame_action\<close>, and the runner's loops
  agree with them under every budget.
\<close>

section \<open>The stream\<close>

lemma xorshift_bit:
  fixes x :: "64 word"
  shows "bit (x XOR drop_bit k x) n \<longleftrightarrow> (bit x n \<noteq> bit x (k + n))"
  by (simp add: bit_simps)

lemma xorshift_inj:
  fixes x y :: "64 word"
  assumes "0 < k" and "x XOR drop_bit k x = y XOR drop_bit k y"
  shows "x = y"
proof (rule bit_word_eqI)
  fix n
  show "bit x n \<longleftrightarrow> bit y n"
  proof (induction "64 - n" arbitrary: n rule: less_induct)
    case less
    show ?case
    proof (cases "64 \<le> n")
      case True
      then show ?thesis by (auto dest!: bit_imp_le_length)
    next
      case False
      then have "bit x (k + n) \<longleftrightarrow> bit y (k + n)" using less assms(1) by simp
      then show ?thesis using assms(2) xorshift_bit [of x k n] xorshift_bit [of y k n] by auto
    qed
  qed
qed

lemma mult_inj_word:
  fixes x y m m' :: "64 word"
  assumes "m * m' = 1" and "x * m = y * m"
  shows "x = y"
proof -
  have "x * (m * m') = y * (m * m')" using assms(2) by (simp only: mult.assoc [symmetric])
  then show ?thesis using assms(1) by simp
qed

lemma odd_multipliers_invertible:
  "(0xBF58476D1CE4E5B9 :: 64 word) * 0x96DE1B173F119089 = 1"
  "(0x94D049BB133111EB :: 64 word) * 0x319642B2D24D8EC3 = 1"
  "(0x9E3779B97F4A7C15 :: 64 word) * 0xF1DE83E19937733D = 1"
  by simp_all

lemma splitmix_inj:
  assumes "splitmix x = splitmix y"
  shows "x = y"
proof -
  have "((x XOR drop_bit 30 x) * 0xBF58476D1CE4E5B9 XOR
        drop_bit 27 ((x XOR drop_bit 30 x) * 0xBF58476D1CE4E5B9)) * 0x94D049BB133111EB =
      ((y XOR drop_bit 30 y) * 0xBF58476D1CE4E5B9 XOR
        drop_bit 27 ((y XOR drop_bit 30 y) * 0xBF58476D1CE4E5B9)) * 0x94D049BB133111EB"
    using assms unfolding splitmix_def Let_def
    by (rule xorshift_inj [rotated]) (rule zero_less_numeral)
  then have "(x XOR drop_bit 30 x) * 0xBF58476D1CE4E5B9 XOR
        drop_bit 27 ((x XOR drop_bit 30 x) * 0xBF58476D1CE4E5B9) =
      (y XOR drop_bit 30 y) * 0xBF58476D1CE4E5B9 XOR
        drop_bit 27 ((y XOR drop_bit 30 y) * 0xBF58476D1CE4E5B9)"
    by (rule mult_inj_word [OF odd_multipliers_invertible(2)])
  then have "(x XOR drop_bit 30 x) * 0xBF58476D1CE4E5B9 = (y XOR drop_bit 30 y) * 0xBF58476D1CE4E5B9"
    by (rule xorshift_inj [rotated]) (rule zero_less_numeral)
  then have "x XOR drop_bit 30 x = y XOR drop_bit 30 y"
    by (rule mult_inj_word [OF odd_multipliers_invertible(1)])
  then show ?thesis by (rule xorshift_inj [rotated]) (rule zero_less_numeral)
qed

definition stream_at :: "64 word \<Rightarrow> nat \<Rightarrow> 64 word" where
  "stream_at s n = splitmix (s + of_nat (Suc n) * SPLITMIX64_INCREMENT)"

lemma next_seeded_value_stream:
  "next_seeded_value s = (stream_at s 0, s + SPLITMIX64_INCREMENT)"
  "stream_at (s + SPLITMIX64_INCREMENT) n = stream_at s (Suc n)"
  by (simp_all add: next_seeded_value_def stream_at_def Let_def algebra_simps)

lemma stream_at_inj:
  assumes "stream_at s a = stream_at s b" and "a < 2 ^ 64" and "b < 2 ^ 64"
  shows "a = b"
proof -
  have "of_nat (Suc a) * SPLITMIX64_INCREMENT = of_nat (Suc b) * SPLITMIX64_INCREMENT"
    using splitmix_inj assms(1) by (metis add_left_cancel stream_at_def)
  then have "of_nat (Suc a) = (of_nat (Suc b) :: 64 word)"
    using mult_inj_word [OF odd_multipliers_invertible(3)] by (simp only: SPLITMIX64_INCREMENT_def)
  then have "(of_nat a :: 64 word) = of_nat b" by simp
  then show ?thesis using assms(2,3)
    by (simp add: word_of_nat_eq_iff take_bit_nat_eq_self)
qed

section \<open>Bounded draws\<close>

definition rejection_threshold :: "usize \<Rightarrow> nat" where
  "rejection_threshold bound = 2 ^ 64 mod bound"

lemma uniform_index_eq:
  assumes "0 < bound" and "bound \<le> u64_max"
  shows "uniform_index v bound =
    (if unat v < rejection_threshold bound then None else Some (unat v mod bound))"
proof -
  have "(u64_max mod bound + 1) mod bound = 2 ^ 64 mod bound"
    using mod_Suc_eq [of u64_max bound] by (simp add: u64_max_def)
  then show ?thesis using assms by (simp add: uniform_index_def rejection_threshold_def Let_def)
qed

lemma rejection_threshold_less: "0 < bound \<Longrightarrow> rejection_threshold bound < bound"
  by (simp add: rejection_threshold_def)

fun draw_within :: "nat \<Rightarrow> usize \<Rightarrow> 64 word \<Rightarrow> (usize \<times> 64 word \<times> nat) option" where
  "draw_within 0 bound s = None"
| "draw_within (Suc n) bound s =
     (case next_seeded_value s of (v, s') \<Rightarrow>
        (case uniform_index v bound of
           Some i \<Rightarrow> Some (i, s', 0)
         | None \<Rightarrow> map_option (\<lambda>(i, s'', k). (i, s'', Suc k)) (draw_within n bound s')))"

text \<open>One accepted draw below \<open>bound\<close>: the index, the stream afterwards and the rejections.\<close>

definition draw :: "usize \<Rightarrow> 64 word \<Rightarrow> usize \<times> 64 word \<times> nat" where
  "draw bound s = the (draw_within bound bound s)"

lemma draw_within_None:
  "draw_within n bound s = None \<Longrightarrow> j < n \<Longrightarrow> uniform_index (stream_at s j) bound = None"
proof (induction n arbitrary: s j)
  case (Suc n)
  have "uniform_index (stream_at s 0) bound = None"
    and "draw_within n bound (s + SPLITMIX64_INCREMENT) = None"
    using Suc.prems(1) by (auto simp: next_seeded_value_stream split: option.splits)
  then show ?case
    using Suc.IH [of "s + SPLITMIX64_INCREMENT" "j - 1"] Suc.prems(2)
    by (cases j) (simp_all add: next_seeded_value_stream)
qed simp

lemma draw_within_exists:
  assumes "0 < bound" and "bound \<le> u64_max"
  shows "draw_within bound bound s \<noteq> None"
proof
  assume none: "draw_within bound bound s = None"
  let ?f = "\<lambda>j. unat (stream_at s j)"
  have "?f j < rejection_threshold bound" if "j < bound" for j
    using draw_within_None [OF none that] uniform_index_eq [OF assms, of "stream_at s j"]
    by (simp split: if_splits)
  then have "?f ` {..<bound} \<subseteq> {..<rejection_threshold bound}" by auto
  moreover have "inj_on ?f {..<bound}"
    using assms(2) by (intro inj_onI stream_at_inj [of s]) (auto simp: u64_max_def word_unat_eq_iff)
  ultimately have "bound \<le> rejection_threshold bound"
    by (metis card_image card_lessThan card_mono finite_lessThan)
  then show False using rejection_threshold_less [OF assms(1)] by simp
qed

lemma draw_within_sound:
  "draw_within n bound s = Some (i, s', k) \<Longrightarrow> 0 < bound \<Longrightarrow> i < bound \<and> k < n"
  by (induction n arbitrary: s i s' k)
    (auto simp: uniform_index_def Let_def split: prod.splits option.splits if_splits)

lemma draw_within_draw:
  assumes "0 < bound" and "bound \<le> u64_max"
  shows "draw_within bound bound s = Some (draw bound s)"
  using draw_within_exists [OF assms, of s] by (auto simp: draw_def)

lemma draw_bounds:
  assumes "0 < bound" and "bound \<le> u64_max" and "draw bound s = (i, s', k)"
  shows "i < bound \<and> k < bound"
  using draw_within_sound draw_within_draw [OF assms(1,2), of s] assms by auto

text \<open>The runner's loop is the reference draw while the budget lasts.\<close>

lemma random_loop_draw_within:
  assumes "draw_within n bound s = Some (i, s', k)"
    and "used b + k \<le> limit b" and "limit b \<le> usize_max"
  shows "random_loop bound s b = (Ok i, s', b\<lparr>used := used b + k\<rparr>)"
  using assms
proof (induction n arbitrary: s i s' k b)
  case (Suc n)
  obtain v s1 where v: "next_seeded_value s = (v, s1)" by fastforce
  show ?case
  proof (cases "uniform_index v bound")
    case None
    then obtain k1 where k1: "draw_within n bound s1 = Some (i, s', k1)" "k = Suc k1"
      using Suc.prems(1) v by auto
    then have "random_loop bound s1 (b\<lparr>used := Suc (used b)\<rparr>) = (Ok i, s', b\<lparr>used := used b + k\<rparr>)"
      using Suc.IH [where b = "b\<lparr>used := Suc (used b)\<rparr>"] Suc.prems(2,3) by simp
    then show ?thesis using v None Suc.prems(2,3) k1(2)
      by (simp add: random_loop.simps [of bound s b] spend_def)
  qed (use Suc.prems v in \<open>simp add: random_loop.simps [of bound s b]\<close>)
qed simp

lemma random_loop_exhausted:
  assumes "draw_within n bound s = Some (i, s', k)"
    and "used b \<le> limit b" and "limit b < used b + k" and "limit b \<le> usize_max"
  shows "\<exists>s''. random_loop bound s b =
    (Err (StepBudgetExhausted (limit b) (limit b)), s'', b\<lparr>used := limit b\<rparr>)"
  using assms
proof (induction n arbitrary: s i s' k b)
  case (Suc n)
  obtain v s1 where v: "next_seeded_value s = (v, s1)" by fastforce
  show ?case
  proof (cases "uniform_index v bound")
    case None
    then obtain k1 where k1: "draw_within n bound s1 = Some (i, s', k1)" "k = Suc k1"
      using Suc.prems(1) v by auto
    show ?thesis
    proof (cases "used b = limit b")
      case True
      then show ?thesis using v None by (simp add: random_loop.simps [of bound s b] spend_def)
    next
      case False
      then have "\<exists>s''. random_loop bound s1 (b\<lparr>used := Suc (used b)\<rparr>) =
          (Err (StepBudgetExhausted (limit b) (limit b)), s'', b\<lparr>used := limit b\<rparr>)"
        using Suc.IH [where b = "b\<lparr>used := Suc (used b)\<rparr>"] k1 Suc.prems(2-4) by simp
      then show ?thesis using v None Suc.prems(2-4) False
        by (simp add: random_loop.simps [of bound s b] spend_def)
    qed
  qed (use Suc.prems v in \<open>simp add: random_loop.simps [of bound s b]\<close>)
qed simp

lemma random_loop_draw:
  assumes "0 < bound" and "bound \<le> u64_max" and "draw bound s = (i, s', k)"
    and "used b + k \<le> limit b" and "limit b \<le> usize_max"
  shows "random_loop bound s b = (Ok i, s', b\<lparr>used := used b + k\<rparr>)"
  using random_loop_draw_within [of bound bound s] draw_within_draw [OF assms(1,2), of s] assms(3-5)
  by simp

section \<open>Accepted values are spread evenly\<close>

lemma residue_window:
  fixes lo b i :: nat
  assumes "i < b"
  shows "\<exists>w. {v \<in> {lo..<lo + b}. v mod b = i} = {w}"
proof -
  define m where "m = lo mod b"
  have m: "m < b" using assms by (simp add: m_def)
  have shift: "(lo + d) mod b = (if m + d < b then m + d else m + d - b)" if "d < b" for d
  proof -
    have "(lo + d) mod b = (m + d) mod b" unfolding m_def by (rule mod_add_left_eq [symmetric])
    then show ?thesis using that m by (simp add: mod_if [of "m + d"])
  qed
  define e where "e = (if m \<le> i then i - m else i + b - m)"
  have e: "e < b" "(lo + e) mod b = i" using shift [of e] m assms by (auto simp: e_def)
  have "v = lo + e" if "lo \<le> v" "v < lo + b" "v mod b = i" for v
    using shift [of "v - lo"] that m by (auto simp: e_def split: if_splits)
  then have "{v \<in> {lo..<lo + b}. v mod b = i} = {lo + e}" using e by auto
  then show ?thesis ..
qed

lemma card_residue_block:
  fixes a b i :: nat
  assumes "i < b"
  shows "card {v \<in> {a..<a + q * b}. v mod b = i} = q"
proof (induction q)
  case (Suc q)
  obtain w where w: "{v \<in> {a + q * b..<a + q * b + b}. v mod b = i} = {w}"
    using residue_window [OF assms] by blast
  moreover have "{v \<in> {a..<a + Suc q * b}. v mod b = i} =
      {v \<in> {a..<a + q * b}. v mod b = i} \<union> {v \<in> {a + q * b..<a + q * b + b}. v mod b = i}"
    by (auto simp: algebra_simps)
  moreover have "w \<notin> {v \<in> {a..<a + q * b}. v mod b = i}" using w by fastforce
  ultimately show ?case using Suc by simp
qed simp

lemma card_uniform_index:
  assumes "0 < bound" and "bound \<le> u64_max" and "i < bound"
  shows "card {v. uniform_index v bound = Some i} = 2 ^ 64 div bound"
proof -
  let ?t = "rejection_threshold bound"
  have top: "?t + (2 ^ 64 div bound) * bound = 2 ^ 64"
    unfolding rejection_threshold_def by (rule mod_div_mult_eq)
  have "unat ` {v :: 64 word. uniform_index v bound = Some i} =
      {n \<in> {?t..<?t + (2 ^ 64 div bound) * bound}. n mod bound = i}"
  proof (intro equalityI subsetI)
    fix n assume "n \<in> unat ` {v :: 64 word. uniform_index v bound = Some i}"
    then obtain v :: "64 word" where "n = unat v" "uniform_index v bound = Some i" by auto
    then show "n \<in> {n \<in> {?t..<?t + (2 ^ 64 div bound) * bound}. n mod bound = i}"
      using uniform_index_eq [OF assms(1,2), of v] unsigned_less [of v]
      unfolding top by (auto split: if_splits)
  next
    fix n assume n: "n \<in> {n \<in> {?t..<?t + (2 ^ 64 div bound) * bound}. n mod bound = i}"
    then have "unat (of_nat n :: 64 word) = n"
      unfolding top by (simp add: unsigned_of_nat take_bit_nat_eq_self)
    moreover from this have "uniform_index (of_nat n) bound = Some i"
      using n uniform_index_eq [OF assms(1,2), of "of_nat n"] by simp
    ultimately show "n \<in> unat ` {v :: 64 word. uniform_index v bound = Some i}"
      by (metis (mono_tags, lifting) imageI mem_Collect_eq)
  qed
  then have "card (unat ` {v :: 64 word. uniform_index v bound = Some i}) = 2 ^ 64 div bound"
    using card_residue_block [OF assms(3)] by simp
  then show ?thesis by (simp add: card_image inj_on_def word_unat_eq_iff)
qed

section \<open>Shuffles\<close>

fun shuffled :: "nat \<Rightarrow> 'a list \<Rightarrow> 64 word \<Rightarrow> 'a list \<times> 64 word \<times> nat" where
  "shuffled 0 xs s = (xs, s, 0)"
| "shuffled (Suc p) xs s =
     (case draw (Suc (Suc p)) s of (i, s', k) \<Rightarrow>
        (case shuffled p (swap xs (Suc p) i) s' of (ys, s'', k') \<Rightarrow> (ys, s'', k + k')))"

lemma length_swap [simp]: "length (swap xs a b) = length xs"
  by (simp add: swap_def)

lemma mset_swap_eq: "a < length xs \<Longrightarrow> b < length xs \<Longrightarrow> mset (swap xs a b) = mset xs"
  by (simp add: swap_def mset_swap)

lemma draw_index: "Suc (Suc p) \<le> u64_max \<Longrightarrow> draw (Suc (Suc p)) s = (i, s', k) \<Longrightarrow> i \<le> Suc p"
  using draw_bounds [of "Suc (Suc p)" s i s' k] by simp

lemma shuffled_mset:
  assumes "p < length xs" and "Suc p \<le> u64_max"
  shows "mset (fst (shuffled p xs s)) = mset xs"
  using assms
proof (induction p arbitrary: xs s)
  case (Suc p)
  obtain i s' k where d: "draw (Suc (Suc p)) s = (i, s', k)" by (metis prod_cases3)
  then have "i \<le> Suc p" using draw_index Suc.prems(2) by blast
  then show ?case using Suc.IH [of "swap xs (Suc p) i" s'] Suc.prems d
    by (auto simp: mset_swap_eq split: prod.splits)
qed simp

lemma list_all2_swap:
  "list_all2 R xs ys \<Longrightarrow> a < length xs \<Longrightarrow> b < length xs \<Longrightarrow> list_all2 R (swap xs a b) (swap ys a b)"
  by (auto simp: swap_def list_all2_conv_all_nth nth_list_update)

lemma shuffled_related:
  assumes "list_all2 R xs ys" and "p < length xs" and "Suc p \<le> u64_max"
  shows "list_all2 R (fst (shuffled p xs s)) (fst (shuffled p ys s)) \<and>
    snd (shuffled p xs s) = snd (shuffled p ys s)"
  using assms
proof (induction p arbitrary: xs ys s)
  case (Suc p)
  obtain i s' k where d: "draw (Suc (Suc p)) s = (i, s', k)" by (metis prod_cases3)
  then have "i \<le> Suc p" using draw_index Suc.prems(3) by blast
  then show ?case
    using Suc.IH [of "swap xs (Suc p) i" "swap ys (Suc p) i" s'] Suc.prems d
    by (auto simp: list_all2_swap split: prod.splits)
qed simp

text \<open>The stream a draw on behalf of element \<open>i\<close> starts from, and the context after it.\<close>

definition stream_of :: "controller_runner \<Rightarrow> element_id \<Rightarrow> 64 word \<Rightarrow> 64 word" where
  "stream_of r i seed = (case random_states r i of Some s \<Rightarrow> s | None \<Rightarrow> seed)"

definition after_draw :: "element_id \<Rightarrow> 64 word \<Rightarrow> nat \<Rightarrow> exec_ctx \<Rightarrow> exec_ctx" where
  "after_draw i s k c =
     c\<lparr>runner := (runner c)\<lparr>random_states := (random_states (runner c))(i \<mapsto> s)\<rparr>,
       budget := (budget c)\<lparr>used := used (budget c) + k\<rparr>\<rparr>"

lemma random_index_draw:
  assumes "1 < bound" and "bound \<le> u64_max"
    and "draw bound (stream_of (runner c) i seed) = (x, s', k)"
    and "used (budget c) + k \<le> limit (budget c)" and "limit (budget c) \<le> usize_max"
  shows "random_index i seed bound c = (Ok x, after_draw i s' k c)"
  using random_loop_draw [of bound _ x s' k "budget c"] assms
  by (simp add: random_index_def stream_of_def after_draw_def update_runner_def)

lemma shuffle_loop_shuffled:
  assumes "p < length order" and "Suc p \<le> u64_max"
    and "shuffled p order (stream_of (runner c) i seed) = (ys, s', k)"
    and "used (budget c) + k \<le> limit (budget c)" and "limit (budget c) \<le> usize_max"
  shows "shuffle_loop i seed prev p order c =
    (Ok ys, if p = 0 then c else after_draw i s' k c)"
  using assms
proof (induction p arbitrary: order c ys s' k)
  case (Suc p)
  obtain x s1 k1 where d: "draw (Suc (Suc p)) (stream_of (runner c) i seed) = (x, s1, k1)"
    by (metis prod_cases3)
  obtain ys' s2 k2 where r: "shuffled p (swap order (Suc p) x) s1 = (ys', s2, k2)"
    by (metis prod_cases3)
  have eq: "ys = ys'" "s' = s2" "k = k1 + k2" using Suc.prems(3) d r by simp_all
  have "random_index i seed (Suc (Suc p)) c = (Ok x, after_draw i s1 k1 c)"
    using random_index_draw [OF _ _ d] Suc.prems eq by simp
  moreover have "shuffle_loop i seed prev p (swap order (Suc p) x) (after_draw i s1 k1 c) =
      (Ok ys', if p = 0 then after_draw i s1 k1 c else after_draw i s2 k2 (after_draw i s1 k1 c))"
    using r Suc.prems eq
    by (intro Suc.IH) (simp_all add: stream_of_def after_draw_def)
  ultimately show ?case
    using Suc.prems(2) eq r
    by (auto simp: on_error_def and_then_def after_draw_def u64_max_def usize_max_def)
qed simp

end
