(* ===== verification/Controller_Refinement.thy ===== *)
theory Controller_Refinement
  imports Controller_Semantics
begin

text \<open>
  The frame-stack machine of \<open>Controller_Runner\<close> refines the recursive semantics of
  \<open>Controller_Semantics\<close>. A runner in the middle of a traversal is \<open>conf base stk u\<close>: the fields
  that do not change while it traverses, the stack, and the per-user state. \<open>micro\<close> is one pass
  of the selection loop under every budget that has room for it, \<open>exec\<close> a sequence of passes
  with the selections it emits.
\<close>

section \<open>Configurations and passes\<close>

definition conf :: "controller_runner \<Rightarrow> frame list \<Rightarrow> user_state \<Rightarrow> controller_runner" where
  "conf base stk u =
     base\<lparr>stack := stk, once_done := u_once u, interleave_next := u_inter u,
          random_states := u_rand u\<rparr>"

lemma conf_simps [simp]:
  "program (conf base stk u) = program base"
  "stack (conf base stk u) = stk"
  "root_started (conf base stk u) = root_started base"
  "finished (conf base stk u) = finished base"
  "terminal (conf base stk u) = terminal base"
  "completed_iterations (conf base stk u) = completed_iterations base"
  "once_done (conf base stk u) = u_once u"
  "interleave_next (conf base stk u) = u_inter u"
  "random_states (conf base stk u) = u_rand u"
  "(conf base stk u)\<lparr>stack := stk'\<rparr> = conf base stk' u"
  "(conf base stk u)\<lparr>once_done := s\<rparr> = conf base stk (u\<lparr>u_once := s\<rparr>)"
  "(conf base stk u)\<lparr>interleave_next := m\<rparr> = conf base stk (u\<lparr>u_inter := m\<rparr>)"
  "(conf base stk u)\<lparr>random_states := g\<rparr> = conf base stk (u\<lparr>u_rand := g\<rparr>)"
  "node_at (conf base stk u) k = node_at base k"
  by (simp_all add: conf_def node_at_def)

abbreviation ctx :: "controller_runner \<Rightarrow> step_budget \<Rightarrow> run_budget \<Rightarrow> exec_ctx" where
  "ctx r b rb \<equiv> \<lparr>runner = r, budget = b, run_bud = rb\<rparr>"

definition room :: "nat \<Rightarrow> step_budget \<Rightarrow> bool" where
  "room k b \<longleftrightarrow> used b + k \<le> limit b \<and> limit b \<le> usize_max"

definition sample_room :: "bool \<Rightarrow> run_budget \<Rightarrow> bool" where
  "sample_room s rb \<longleftrightarrow> (s \<longrightarrow> emitted rb < max_samples rb \<and> max_samples rb \<le> usize_max)"

definition spent :: "nat \<Rightarrow> step_budget \<Rightarrow> step_budget" where
  "spent k b = b\<lparr>used := used b + k\<rparr>"

definition reserved :: "bool \<Rightarrow> run_budget \<Rightarrow> run_budget" where
  "reserved s rb = (if s then rb\<lparr>emitted := Suc (emitted rb)\<rparr> else rb)"

lemma spent_simps [simp]:
  "spent 0 b = b"
  "spent j (spent k b) = spent (k + j) b"
  "used (spent k b) = used b + k"
  "limit (spent k b) = limit b"
  by (simp_all add: spent_def)

lemma room_spent [simp]: "room j (spent k b) \<longleftrightarrow> room (k + j) b"
  by (auto simp: room_def)

lemma room_less: "room k b \<Longrightarrow> j \<le> k \<Longrightarrow> room j b"
  by (auto simp: room_def)

text \<open>The top frame selects \<open>child\<close>; \<open>k\<close> counts the rejected random draws.\<close>

definition selects :: "controller_runner \<Rightarrow> node_index \<Rightarrow> controller_runner \<Rightarrow> nat \<Rightarrow> bool" where
  "selects r child r' k \<longleftrightarrow> stack r \<noteq> [] \<and>
     (\<forall>b rb. room k b \<longrightarrow> sample_room (is_sample (node_at r child)) rb \<longrightarrow>
        frame_action (length (stack r) - 1) (ctx r b rb) =
          (Ok (Select child), ctx r' (spent k b) (reserved (is_sample (node_at r child)) rb)))"

fun emits :: "controller_step option \<Rightarrow> bool" where
  "emits (Some (StepSample _)) = True"
| "emits _ = False"

definition micro :: "controller_runner \<Rightarrow> controller_step option \<Rightarrow> controller_runner \<Rightarrow> nat \<Rightarrow> bool" where
  "micro r out r' k \<longleftrightarrow>
     (\<forall>b rb. room k b \<longrightarrow> sample_room (emits out) rb \<longrightarrow>
        select_iter (ctx r b rb) = (Ok out, ctx r' (spent k b) (reserved (emits out) rb)))"

lemma spend_step_ctx: "room (Suc k) b \<Longrightarrow> spend_step (ctx r b rb) = (Ok (), ctx r (spent 1 b) rb)"
  by (simp add: spend_step_def spend_def room_def spent_def)

lemma reserve_child_sample_ctx:
  "sample_room (is_sample (node_at r child)) rb \<Longrightarrow>
     reserve_child_sample child (ctx r b rb) =
       (Ok (), ctx r b (reserved (is_sample (node_at r child)) rb))"
  by (cases "is_sample (node_at r child)")
    (simp_all add: reserve_child_sample_def reserve_sample_run_def reserve_sample_def sample_room_def
      reserved_def)

lemma advance_child_ctx:
  "next_child f < usize_max \<Longrightarrow>
     advance_child (length stk) (ctx (conf base (stk @ [f]) u) b rb) =
       (Ok (), ctx (conf base (stk @ [f\<lparr>next_child := Suc (next_child f)\<rparr>]) u) b rb)"
  by (simp add: advance_child_def update_runner_def)

lemma set_mode_ctx:
  "set_mode (length stk) m (ctx (conf base (stk @ [f]) u) b rb) =
     (Ok (), ctx (conf base (stk @ [f\<lparr>mode := m\<rparr>]) u) b rb)"
  by (simp add: set_mode_def update_runner_def)

lemma micro_top:
  assumes "terminal r = None" and "root_started r" and "stack r \<noteq> []"
    and "\<And>b rb. room k b \<Longrightarrow> sample_room (emits out) rb \<Longrightarrow>
      and_then (frame_action (length (stack r) - 1)) (perform_action (length (stack r) - 1)) (ctx r b rb) =
        (Ok out, ctx r' (spent k b) (reserved (emits out) rb))"
  shows "micro r out r' (Suc k)"
  unfolding micro_def
proof (intro allI impI)
  fix b rb assume r: "room (Suc k) b" and s: "sample_room (emits out) rb"
  have "room k (spent 1 b)" using r by simp
  from assms(4) [OF this s] show "select_iter (ctx r b rb) =
      (Ok out, ctx r' (spent (Suc k) b) (reserved (emits out) rb))"
    using spend_step_ctx [OF r, of r rb] assms(1-3) by (simp add: select_iter_def Let_def)
qed

lemma micro_finish:
  assumes "terminal base = None" and "root_started base"
    and "\<And>b rb. room k b \<Longrightarrow> frame_action (length stk) (ctx (conf base (stk @ [f]) u) b rb) =
      (Ok Finish, ctx (conf base (stk @ [f]) u) (spent k b) rb)"
  shows "micro (conf base (stk @ [f]) u) None (conf base stk u) (Suc k)"
  using assms by (intro micro_top) (simp_all add: perform_action_def update_runner_def reserved_def)

text \<open>The frame that \<open>push_frame\<close> pushes, and the user state it leaves.\<close>

definition entry_mode :: "compiled_node \<Rightarrow> user_state \<Rightarrow> frame_mode" where
  "entry_mode n u = initial_mode (conf undefined [] u) n"

definition entry_frame :: "node_index \<Rightarrow> compiled_node \<Rightarrow> user_state \<Rightarrow> frame" where
  "entry_frame k n u = \<lparr>frame_node = k, next_child = 0, iteration = 0, mode = entry_mode n u\<rparr>"

definition entry_user :: "compiled_node \<Rightarrow> user_state \<Rightarrow> user_state" where
  "entry_user n u = u\<lparr>u_once := once_after n (u_once u)\<rparr>"

lemma initial_mode_conf: "initial_mode (conf base stk u) n = entry_mode n u"
  by (simp add: entry_mode_def initial_mode_def split: compiled_node.split)

lemma push_frame_ctx:
  "node_at base k = Some n \<Longrightarrow>
     push_frame k 0 (ctx (conf base stk u) b rb) =
       (Ok (), ctx (conf base (stk @ [entry_frame k n u]) (entry_user n u)) b rb)"
  by (simp add: push_frame_def update_runner_def entry_frame_def entry_user_def initial_mode_conf)

lemma selects_micro_sample:
  assumes "selects r child r' k" and "node_at r child = Some (CSample i)"
    and "node_at r' child = node_at r child" and "terminal r = None" and "root_started r"
  shows "micro r (Some (StepSample (selection r' i))) r' (Suc k)"
  using assms by (intro micro_top) (auto simp: selects_def perform_action_def)

lemma selects_micro_enter:
  assumes "selects r child (conf base stk u) k" and "node_at base child = Some n"
    and "\<not> is_sample (Some n)" and "node_at r child = Some n" and "terminal r = None" and "root_started r"
  shows "micro r None (conf base (stk @ [entry_frame child n u]) (entry_user n u)) (Suc k)"
  using assms(1,4-6)
proof (intro micro_top)
  fix b rb assume "room k b"
  with assms show "and_then (frame_action (length (stack r) - 1)) (perform_action (length (stack r) - 1))
      (ctx r b rb) = (Ok None, ctx (conf base (stk @ [entry_frame child n u]) (entry_user n u))
        (spent k b) (reserved (emits None) rb))"
    by (cases n) (auto simp: selects_def perform_action_def sample_room_def reserved_def push_frame_ctx)
qed (simp_all add: selects_def)

section \<open>Sequences of passes\<close>

inductive exec :: "controller_runner \<Rightarrow> sample_selection list \<Rightarrow> controller_runner \<Rightarrow> nat \<Rightarrow> bool" where
  exec_refl: "exec r [] r 0"
| exec_continue: "micro r None r1 k \<Longrightarrow> exec r1 ss r2 c \<Longrightarrow> exec r ss r2 (k + c)"
| exec_sample: "micro r (Some (StepSample s)) r1 k \<Longrightarrow> terminal r1 = None \<Longrightarrow> \<not> finished r1 \<Longrightarrow>
    exec r1 ss r2 c \<Longrightarrow> exec r (s # ss) r2 (k + c)"

lemma exec_trans: "exec r ss r1 c \<Longrightarrow> exec r1 ss' r2 c' \<Longrightarrow> exec r (ss @ ss') r2 (c + c')"
  by (induction rule: exec.induct) (auto intro: exec.intros simp: add.assoc)

lemma exec_one: "micro r None r1 k \<Longrightarrow> exec r [] r1 k"
  using exec_continue [OF _ exec_refl] by fastforce

lemma exec_snoc: "exec r ss r1 c \<Longrightarrow> micro r1 None r2 k \<Longrightarrow> exec r ss r2 (c + k)"
  using exec_trans [OF _ exec_one] by fastforce

section \<open>The actions of each kind of frame\<close>

lemma frame_action_at:
  "node_at base (frame_node f) = Some (CDisabled i) \<Longrightarrow>
    frame_action (length stk) (ctx (conf base (stk @ [f]) u) b rb) =
      (Ok Finish, ctx (conf base (stk @ [f]) u) b rb)"
  "node_at base (frame_node f) = Some (CSimple i is) \<Longrightarrow>
    frame_action (length stk) (ctx (conf base (stk @ [f]) u) b rb) =
      ordered_action (length stk) (frame_node f) (next_child f) (ctx (conf base (stk @ [f]) u) b rb)"
  "node_at base (frame_node f) = Some (CLoop i cnt is) \<Longrightarrow>
    frame_action (length stk) (ctx (conf base (stk @ [f]) u) b rb) =
      loop_action (length stk) (frame_node f) (next_child f) (iteration f) cnt
        (ctx (conf base (stk @ [f]) u) b rb)"
  "node_at base (frame_node f) = Some (COnceOnly i is) \<Longrightarrow>
    frame_action (length stk) (ctx (conf base (stk @ [f]) u) b rb) =
      once_action (length stk) (frame_node f) (next_child f) (frame_state_of f)
        (ctx (conf base (stk @ [f]) u) b rb)"
  "node_at base (frame_node f) = Some (CInterleave i is) \<Longrightarrow>
    frame_action (length stk) (ctx (conf base (stk @ [f]) u) b rb) =
      interleave_action (length stk) (frame_node f) (frame_state_of f) i
        (ctx (conf base (stk @ [f]) u) b rb)"
  "node_at base (frame_node f) = Some (CRandom i seed is) \<Longrightarrow>
    frame_action (length stk) (ctx (conf base (stk @ [f]) u) b rb) =
      random_action (length stk) (frame_node f) (frame_state_of f) i seed
        (ctx (conf base (stk @ [f]) u) b rb)"
  "node_at base (frame_node f) = Some (CRandomOrder i seed is) \<Longrightarrow>
    frame_action (length stk) (ctx (conf base (stk @ [f]) u) b rb) =
      random_order_action (length stk) (frame_node f) (next_child f) (frame_state_of f) i seed
        (ctx (conf base (stk @ [f]) u) b rb)"
  by (simp_all add: frame_action_def compiled_node_kind_def Let_def)

fun children_of :: "compiled_node \<Rightarrow> node_index list option" where
  "children_of (CSample _) = None"
| "children_of (CDisabled _) = None"
| "children_of (CSimple _ is) = Some is"
| "children_of (CLoop _ _ is) = Some is"
| "children_of (COnceOnly _ is) = Some is"
| "children_of (CInterleave _ is) = Some is"
| "children_of (CRandom _ _ is) = Some is"
| "children_of (CRandomOrder _ _ is) = Some is"

lemma compiled_children_at:
  "node_at r k = Some n \<Longrightarrow> children_of n = Some is \<Longrightarrow> compiled_children r k = Ok is"
  by (cases n) (simp_all add: compiled_children_def)

lemma compiled_child_at_at:
  "node_at r k = Some n \<Longrightarrow> children_of n = Some is \<Longrightarrow> compiled_child_at r k j = Ok (vec_get is j)"
  by (simp add: compiled_child_at_def compiled_children_at)

lemmas action_simps = frame_action_at compiled_children_at compiled_child_at_at
  ordered_action_def loop_action_def once_action_def frame_state_of_def

text \<open>Frames that offer the children of their node in order.\<close>

definition ordered_frame :: "compiled_node \<Rightarrow> frame \<Rightarrow> node_index list \<Rightarrow> bool" where
  "ordered_frame n f is \<longleftrightarrow>
     (\<exists>i. n = CSimple i is) \<or> (\<exists>i cnt. n = CLoop i cnt is \<and> cnt \<noteq> Finite 0) \<or>
     (\<exists>i. n = COnceOnly i is \<and> mode f = ModeOrdered)"

lemma selects_ordered:
  assumes "ordered_frame n f is" and "node_at base (frame_node f) = Some n"
    and "next_child f < length is" and "length is \<le> usize_max"
  shows "selects (conf base (stk @ [f]) u) (is ! next_child f)
    (conf base (stk @ [f\<lparr>next_child := Suc (next_child f)\<rparr>]) u) 0"
proof -
  have sel: "select_child (length stk) (is ! next_child f) (ctx (conf base (stk @ [f]) u) b rb) =
      (Ok (Select (is ! next_child f)), ctx (conf base (stk @ [f\<lparr>next_child := Suc (next_child f)\<rparr>]) u) b
        (reserved (is_sample (node_at base (is ! next_child f))) rb))"
    if "sample_room (is_sample (node_at base (is ! next_child f))) rb" for b rb
    using that reserve_child_sample_ctx [of "conf base (stk @ [f]) u" "is ! next_child f" rb b] assms(3,4)
    by (simp add: select_child_def advance_child_ctx)
  show ?thesis
    using assms(1-3) sel
    by (auto simp: selects_def ordered_frame_def action_simps split: loop_count.split)
qed

lemma finish_ordered:
  assumes "\<exists>i. n = CSimple i is \<or> n = COnceOnly i is"
    and "node_at base (frame_node f) = Some n"
    and "length is \<le> next_child f"
  shows "frame_action (length stk) (ctx (conf base (stk @ [f]) u) b rb) =
    (Ok Finish, ctx (conf base (stk @ [f]) u) b rb)"
  using assms
  by (auto simp: action_simps)

lemma finish_skipped:
  assumes "node_at base (frame_node f) = Some (COnceOnly i is)" and "mode f = ModeSkip"
  shows "frame_action (length stk) (ctx (conf base (stk @ [f]) u) b rb) =
    (Ok Finish, ctx (conf base (stk @ [f]) u) b rb)"
  using assms
  by (simp add: action_simps)

lemma finish_loop:
  assumes "node_at base (frame_node f) = Some (CLoop i (Finite tot) is)"
    and "tot = 0 \<or> length is \<le> next_child f \<and> iteration f < u64_max \<and> tot \<le> Suc (iteration f)"
  shows "frame_action (length stk) (ctx (conf base (stk @ [f]) u) b rb) =
    (Ok Finish, ctx (conf base (stk @ [f]) u) b rb)"
  using assms
  by (auto simp: action_simps)

lemma micro_advance_loop:
  assumes "terminal base = None" and "root_started base"
    and "node_at base (frame_node f) = Some (CLoop i (Finite tot) is)"
    and "length is \<le> next_child f" and "Suc (iteration f) < tot" and "tot \<le> u64_max"
  shows "micro (conf base (stk @ [f]) u) None
    (conf base (stk @ [f\<lparr>next_child := 0, iteration := Suc (iteration f), mode := ModeOrdered\<rparr>]) u) (Suc 0)"
  using assms
  by (intro micro_top)
    (simp_all add: action_simps perform_action_def advance_loop_def update_runner_def reserved_def)

text \<open>One-shot frames: nothing to choose, already chosen, or a choice to make.\<close>

definition one_shot_node :: "compiled_node \<Rightarrow> node_index list \<Rightarrow> bool" where
  "one_shot_node n is \<longleftrightarrow> (\<exists>i. n = CInterleave i is) \<or> (\<exists>i seed. n = CRandom i seed is)"

lemma finish_one_shot:
  assumes "one_shot_node n is" and "node_at base (frame_node f) = Some n"
    and "is = [] \<or> (\<exists>x. mode f = ModeOneShot (Some x))"
  shows "frame_action (length stk) (ctx (conf base (stk @ [f]) u) b rb) =
    (Ok Finish, ctx (conf base (stk @ [f]) u) b rb)"
  using assms
  by (auto simp: one_shot_node_def action_simps interleave_action_def random_action_def)

lemma selects_interleave:
  assumes "node_at base (frame_node f) = Some (CInterleave i is)" and "is \<noteq> []"
    and "mode f = ModeOneShot None" and "user_cursor u i < usize_max"
  shows "selects (conf base (stk @ [f]) u) (fst (rotate_pick i is u))
    (conf base (stk @ [f\<lparr>mode := ModeOneShot (Some (fst (rotate_pick i is u)))\<rparr>])
      (snd (rotate_pick i is u))) 0"
  using assms
  by (auto simp: selects_def rotate_pick_def user_cursor_def action_simps interleave_action_def
      Let_def reserve_child_sample_ctx set_mode_ctx update_runner_def)

lemma selects_random:
  assumes "node_at base (frame_node f) = Some (CRandom i seed is)" and "is \<noteq> []"
    and "mode f = ModeOneShot None" and "length is \<le> u64_max"
    and "pick i seed is u = (x, u', k)"
  shows "selects (conf base (stk @ [f]) u) x
    (conf base (stk @ [f\<lparr>mode := ModeOneShot (Some x)\<rparr>]) u') k"
proof -
  have "\<exists>index. index < length is \<and> is ! index = x \<and>
      (\<forall>b rb. room k b \<longrightarrow> random_index i seed (length is) (ctx (conf base (stk @ [f]) u) b rb) =
        (Ok index, ctx (conf base (stk @ [f]) u') (spent k b) rb))"
  proof (cases "length is \<le> 1")
    case True
    then show ?thesis using assms(2,5) by (intro exI [of _ 0]) (auto simp: pick_def random_index_def)
  next
    case False
    obtain y s k' where d: "draw (length is) (user_stream u i seed) = (y, s, k')" by (metis prod_cases3)
    then have y: "y < length is" using draw_bounds [OF _ assms(4) d] assms(2) by simp
    moreover have "is ! y = x" "u' = u\<lparr>u_rand := (u_rand u)(i \<mapsto> s)\<rparr>" "k = k'"
      using assms(5) d False by (simp_all add: pick_def)
    moreover have "random_index i seed (length is) (ctx (conf base (stk @ [f]) u) b rb) =
        (Ok y, after_draw i s k' (ctx (conf base (stk @ [f]) u) b rb))" if "room k' b" for b rb
      using that d False assms(4)
      by (intro random_index_draw) (simp_all add: room_def stream_of_def user_stream_def)
    ultimately show ?thesis by (intro exI [of _ y]) (simp add: after_draw_def spent_def)
  qed
  then obtain index where index: "index < length is" "is ! index = x"
    and ri: "\<And>b rb. room k b \<Longrightarrow> random_index i seed (length is) (ctx (conf base (stk @ [f]) u) b rb) =
        (Ok index, ctx (conf base (stk @ [f]) u') (spent k b) rb)" by blast
  have "frame_action (length stk) (ctx (conf base (stk @ [f]) u) b rb) =
      (Ok (Select x), ctx (conf base (stk @ [f\<lparr>mode := ModeOneShot (Some x)\<rparr>]) u') (spent k b)
        (reserved (is_sample (node_at base x)) rb))"
    if "room k b" and "sample_room (is_sample (node_at base x)) rb" for b rb
    using that assms(1-3) index ri [OF that(1), of rb]
      reserve_child_sample_ctx [of "conf base (stk @ [f]) u'" x rb "spent k b"]
    by (simp add: action_simps random_action_def Let_def on_error_def set_mode_ctx)
  then show ?thesis by (simp add: selects_def)
qed

text \<open>Random-order frames: the order is drawn with the first selection.\<close>

lemma shuffle_loop_arrange:
  assumes "is \<noteq> []" and "length is \<le> u64_max" and "arrange i seed is u = (ys, u', k)" and "room k b"
  shows "shuffle_loop i seed prev (length is - 1) is (ctx (conf base stk u) b rb) =
    (Ok ys, ctx (conf base stk u') (spent k b) rb)"
proof (cases "length is \<le> 1")
  case True
  then show ?thesis using assms(3) by (simp add: arrange_def)
next
  case False
  obtain zs s k' where sh: "shuffled (length is - 1) is (user_stream u i seed) = (zs, s, k')"
    by (metis prod_cases3)
  then have eq: "ys = zs" "u' = u\<lparr>u_rand := (u_rand u)(i \<mapsto> s)\<rparr>" "k = k'"
    using assms(3) False by (simp_all add: arrange_def)
  have "shuffle_loop i seed prev (length is - 1) is (ctx (conf base stk u) b rb) =
      (Ok zs, if length is - 1 = 0 then ctx (conf base stk u) b rb
        else after_draw i s k' (ctx (conf base stk u) b rb))"
    using assms sh eq False
    by (intro shuffle_loop_shuffled) (simp_all add: room_def stream_of_def user_stream_def)
  then show ?thesis using eq False by (simp add: after_draw_def spent_def)
qed

lemma arrange_length: "length is \<le> u64_max \<Longrightarrow> arrange i seed is u = (ys, u', k) \<Longrightarrow> length ys = length is"
  using arrange_mset [of "is" i seed u] by (metis fst_conv size_mset)

lemma selects_random_order_first:
  assumes "node_at base (frame_node f) = Some (CRandomOrder i seed is)" and "is \<noteq> []"
    and "mode f = ModeRandomOrder None" and "next_child f = 0" and "length is \<le> u64_max"
    and "arrange i seed is u = (ys, u', k)"
  shows "selects (conf base (stk @ [f]) u) (ys ! 0)
    (conf base (stk @ [f\<lparr>mode := ModeRandomOrder (Some ys), next_child := 1\<rparr>]) u') k"
proof -
  have ys: "0 < length ys" using arrange_length [OF assms(5,6)] assms(2) by simp
  have "generate_order (length stk) is i seed (ctx (conf base (stk @ [f]) u) b rb) =
      (Ok (), ctx (conf base (stk @ [f\<lparr>mode := ModeRandomOrder (Some ys)\<rparr>]) u') (spent k b)
        (reserved (is_sample (node_at base (ys ! 0))) rb))"
    if "room k b" and "sample_room (is_sample (node_at base (ys ! 0))) rb" for b rb
    using that ys
      shuffle_loop_arrange [OF assms(2,5,6) that(1), of "u_rand u i" base "stk @ [f]" rb]
      reserve_child_sample_ctx [of "conf base (stk @ [f]) u'" "ys ! 0" rb "spent k b"]
    by (simp add: generate_order_def Let_def on_error_def set_mode_ctx)
  then have "frame_action (length stk) (ctx (conf base (stk @ [f]) u) b rb) =
      (Ok (Select (ys ! 0)), ctx (conf base (stk @ [f\<lparr>mode := ModeRandomOrder (Some ys), next_child := 1\<rparr>]) u')
        (spent k b) (reserved (is_sample (node_at base (ys ! 0))) rb))"
    if "room k b" and "sample_room (is_sample (node_at base (ys ! 0))) rb" for b rb
    using that assms(1-4) ys
      advance_child_ctx [of "f\<lparr>mode := ModeRandomOrder (Some ys)\<rparr>" stk base u' "spent k b"
        "reserved (is_sample (node_at base (ys ! 0))) rb"]
    by (simp add: action_simps random_order_action_def stored_order_child_def usize_max_def)
  then show ?thesis by (simp add: selects_def)
qed

lemma selects_random_order_next:
  assumes "node_at base (frame_node f) = Some (CRandomOrder i seed is)" and "is \<noteq> []"
    and "mode f = ModeRandomOrder (Some ys)" and "next_child f < length ys" and "length ys \<le> usize_max"
  shows "selects (conf base (stk @ [f]) u) (ys ! next_child f)
    (conf base (stk @ [f\<lparr>next_child := Suc (next_child f)\<rparr>]) u) 0"
  using assms
  by (auto simp: selects_def action_simps random_order_action_def reserve_child_sample_ctx
      advance_child_ctx)

lemma finish_random_order:
  assumes "node_at base (frame_node f) = Some (CRandomOrder i seed is)"
    and "is = [] \<or> (\<exists>ys. mode f = ModeRandomOrder (Some ys) \<and> length ys \<le> next_child f)"
  shows "frame_action (length stk) (ctx (conf base (stk @ [f]) u) b rb) =
    (Ok Finish, ctx (conf base (stk @ [f]) u) b rb)"
  using assms by (auto simp: action_simps random_order_action_def stored_order_child_def)

end
