(* ===== verification/Controller_Traversal.thy ===== *)
theory Controller_Traversal
  imports Controller_Refinement
begin

text \<open>
  The passes of the selection loop compose: a node of the compiled table that represents a
  source node performs exactly the reference visit of that node, from the frame that is pushed
  for it to the pop of that frame, whatever the stack below it. One lemma per kind of controller
  (\<open>realizes_simple\<close>, \<open>realizes_once\<close>, \<dots>) over the sequencing lemma \<open>seq_exec\<close>; the induction over
  the source tree is \<open>visit_realizes\<close>.
\<close>

section \<open>A traversal of a node\<close>

definition running :: "controller_runner \<Rightarrow> bool" where
  "running base \<longleftrightarrow> terminal base = None \<and> root_started base \<and> \<not> finished base"

definition path_of :: "controller_runner \<Rightarrow> frame list \<Rightarrow> controller_cursor list" where
  "path_of base stk = List.map_filter (frame_cursor (nodes (program base))) stk"

definition cursors_fit :: "user_state \<Rightarrow> nat \<Rightarrow> bool" where
  "cursors_fit u c \<longleftrightarrow> (\<forall>i. user_cursor u i + c \<le> usize_max)"

text \<open>Values of the source types: loop counts are \<open>u64\<close>, vectors have a \<open>usize\<close> length.\<close>

fun sized :: "controller_node \<Rightarrow> bool" where
  "sized (Sample i) = True"
| "sized (Simple i cs) = (length cs \<le> usize_max \<and> list_all sized cs)"
| "sized (Loop i cnt cs) =
     ((case cnt of Finite n \<Rightarrow> n \<le> u64_max | Forever \<Rightarrow> True) \<and> length cs \<le> usize_max \<and> list_all sized cs)"
| "sized (Disabled i cs) = True"
| "sized (OnceOnly i cs) = (length cs \<le> usize_max \<and> list_all sized cs)"
| "sized (Interleave i cs) = (length cs \<le> usize_max \<and> list_all sized cs)"
| "sized (Random i seed cs) = (length cs \<le> usize_max \<and> list_all sized cs)"
| "sized (RandomOrder i seed cs) = (length cs \<le> usize_max \<and> list_all sized cs)"
| "sized (Unsupported i kind) = True"

lemma chain_eq_Some:
  "chain r f = Some (ss, u', c) \<longleftrightarrow>
     (\<exists>ss1 u1 c1 ss2 c2. r = Some (ss1, u1, c1) \<and> f u1 = Some (ss2, u', c2) \<and>
        ss = ss1 @ ss2 \<and> c = c1 + c2)"
  by (auto simp: chain_def split: option.splits)

lemma after_eq_Some:
  "after k r = Some (ss, u', c) \<longleftrightarrow> (\<exists>c1. r = Some (ss, u', c1) \<and> c = k + c1)"
  by (auto simp: after_def)

text \<open>Every interleave entry costs a transition, so the cost bounds the growth of the cursors.\<close>

lemma seq_visit_cursor:
  assumes "\<And>x u ss u' c. x \<in> set xs \<Longrightarrow> f x u = Some (ss, u', c) \<Longrightarrow> user_cursor u' i \<le> user_cursor u i + c"
  shows "seq_visit f xs u = Some (ss, u', c) \<Longrightarrow> user_cursor u' i \<le> user_cursor u i + c"
  using assms
proof (induction xs arbitrary: u ss u' c)
  case (Cons x xs)
  then obtain ss1 u1 c1 ss2 c2 where 1: "f x u = Some (ss1, u1, c1)"
      and 2: "seq_visit f xs u1 = Some (ss2, u', c2)" and c: "c = 1 + c1 + c2"
    by (auto simp: chain_eq_Some after_eq_Some)
  have "user_cursor u' i \<le> user_cursor u1 i + c2" by (rule Cons.IH [OF 2]) (rule Cons.prems(2), simp_all)
  moreover have "user_cursor u1 i \<le> user_cursor u i + c1" by (rule Cons.prems(2) [OF _ 1]) simp
  ultimately show ?case using c by simp
qed simp

lemma loop_visit_cursor:
  assumes "\<And>k u ss u' c. f k u = Some (ss, u', c) \<Longrightarrow> user_cursor u' i \<le> user_cursor u i + c"
  shows "loop_visit f it n u = Some (ss, u', c) \<Longrightarrow> user_cursor u' i \<le> user_cursor u i + c"
proof (induction n arbitrary: it u ss u' c)
  case (Suc n)
  then obtain ss1 u1 c1 ss2 c2 where 1: "f it u = Some (ss1, u1, c1)"
      and 2: "loop_visit f (Suc it) n u1 = Some (ss2, u', c2)" and c: "c = 1 + c1 + c2"
    by (auto simp: chain_eq_Some after_eq_Some)
  show ?case using Suc.IH [OF 2] assms [OF 1] c by simp
qed simp

lemma user_cursor_updates [simp]:
  "user_cursor (u\<lparr>u_once := s\<rparr>) i = user_cursor u i"
  "user_cursor (u\<lparr>u_rand := g\<rparr>) i = user_cursor u i"
  by (simp_all add: user_cursor_def)

lemma user_cursor_pick: "user_cursor (fst (snd (pick j seed cs u))) i = user_cursor u i"
  by (simp add: pick_def split: prod.split)

lemma user_cursor_arrange: "user_cursor (fst (snd (arrange j seed cs u))) i = user_cursor u i"
  by (simp add: arrange_def split: prod.split)

lemma user_cursor_rotate: "user_cursor (snd (rotate_pick j cs u)) i \<le> user_cursor u i + 1"
  by (simp add: rotate_pick_def user_cursor_def)

lemma visit_cursor: "visit it pth n u = Some (ss, u', c) \<Longrightarrow> user_cursor u' i \<le> user_cursor u i + c"
proof (induction n arbitrary: it pth u ss u' c rule: measure_induct_rule [of node_count])
  case (less n)
  have seq: "user_cursor w' i \<le> user_cursor w i + d"
    if "seq_visit (visit it q) xs w = Some (rs, w', d)" and "set xs \<subseteq> set (kids n)" for q xs w rs w' d
    using that less.IH kid_smaller
    by (intro seq_visit_cursor [of xs "visit it q" i w rs w' d]) blast+
  show ?case
  proof (cases n)
    case (Loop j cnt cs)
    have "user_cursor w' i \<le> user_cursor w i + d"
      if "loop_visit (\<lambda>k. seq_visit (visit it (pth @ [cursor KindLoop j k])) cs) a m w = Some (rs, w', d)"
      for a m w rs w' d
      using that by (rule loop_visit_cursor [rotated]) (erule seq, simp add: Loop kids_def)
    then show ?thesis
      using less.prems Loop by (cases cnt) (auto split: if_splits)
  next
    case (Interleave j cs)
    then show ?thesis using less.prems user_cursor_rotate [of j cs u i] rotate_pick_in_set [of cs j u]
      by (fastforce simp: after_eq_Some kids_def simp del: seq_visit.simps split: if_splits dest!: seq)
  next
    case (Random j seed cs)
    then show ?thesis using less.prems user_cursor_pick [of j seed cs u i] pick_in_set [of cs j seed u]
      by (fastforce simp: after_eq_Some kids_def simp del: seq_visit.simps split: if_splits dest!: seq)
  next
    case (RandomOrder j seed cs)
    then show ?thesis using less.prems user_cursor_arrange [of j seed cs u i] arrange_set [of cs j seed u]
      by (fastforce simp: after_eq_Some kids_def simp del: seq_visit.simps split: if_splits dest!: seq)
  qed (use less.prems in \<open>auto simp: after_eq_Some kids_def split: if_splits dest!: seq\<close>)
qed

definition exec_child ::
  "controller_runner \<Rightarrow> frame list \<Rightarrow> node_index \<Rightarrow> user_state \<Rightarrow> sample_selection list \<Rightarrow>
   user_state \<Rightarrow> nat \<Rightarrow> bool" where
  "exec_child base stk k u ss u' c \<longleftrightarrow>
     (case node_at base k of
        None \<Rightarrow> False
      | Some n \<Rightarrow>
          if is_sample (Some n) then ss = [selection (conf base stk u) (compiled_id n)] \<and> u' = u \<and> c = 0
          else exec (conf base (stk @ [entry_frame k n u]) (entry_user n u)) ss (conf base stk u') c)"

definition realizes :: "controller_runner \<Rightarrow> frame list \<Rightarrow> node_index \<Rightarrow> controller_node \<Rightarrow> bool" where
  "realizes base stk k n \<longleftrightarrow>
     (\<forall>u ss u' c. visit (completed_iterations base) (path_of base stk) n u = Some (ss, u', c) \<longrightarrow>
        cursors_fit u c \<longrightarrow> exec_child base stk k u ss u' c)"

lemma is_sample_cases: "is_sample (Some n) \<Longrightarrow> n = CSample (compiled_id n)"
  by (cases n) auto

lemma selects_exec:
  assumes "selects (conf base stk0 u0) child (conf base stk u) k" and "running base"
    and "exec_child base stk child u ss u' c"
  shows "exec (conf base stk0 u0) ss (conf base stk u') (Suc k + c)"
proof (cases "node_at base child")
  case (Some n)
  show ?thesis
  proof (cases "is_sample (Some n)")
    case True
    then have n: "node_at base child = Some (CSample (compiled_id n))"
      using Some is_sample_cases by force
    have "micro (conf base stk0 u0) (Some (StepSample (selection (conf base stk u) (compiled_id n))))
        (conf base stk u) (Suc k)"
      using assms(1,2) n by (intro selects_micro_sample) (auto simp: running_def)
    then have "exec (conf base stk0 u0) [selection (conf base stk u) (compiled_id n)] (conf base stk u) (Suc k + 0)"
      using assms(2) by (intro exec_sample) (auto simp: running_def intro: exec_refl)
    then show ?thesis using assms(3) Some True by (simp add: exec_child_def)
  next
    case False
    have m: "micro (conf base stk0 u0) None (conf base (stk @ [entry_frame child n u]) (entry_user n u)) (Suc k)"
      using assms(1,2) Some False by (intro selects_micro_enter) (auto simp: running_def)
    from exec_continue [OF m, of ss "conf base stk u'" c] show ?thesis
      using assms(3) Some False by (simp add: exec_child_def)
  qed
qed (use assms(3) in \<open>simp add: exec_child_def\<close>)

lemma cursors_fit_less: "cursors_fit u c \<Longrightarrow> d \<le> c \<Longrightarrow> cursors_fit u d"
  unfolding cursors_fit_def using add_le_mono le_trans by blast

lemma cursors_fit_visit:
  assumes "visit it pth n u = Some (ss, u1, c1)" and "cursors_fit u (c1 + c2)"
  shows "cursors_fit u1 c2"
  unfolding cursors_fit_def
proof
  fix i
  have "user_cursor u1 i \<le> user_cursor u i + c1" using assms(1) by (rule visit_cursor)
  then show "user_cursor u1 i + c2 \<le> usize_max" using assms(2) by (auto simp: cursors_fit_def dest: spec [of _ i])
qed

lemma seq_exec:
  fixes F :: "nat \<Rightarrow> frame"
  assumes run: "running base" and len: "length cs = length is"
    and path: "\<And>j. path_of base (stk @ [F j]) = pth"
    and sel: "\<And>j u. a \<le> j \<Longrightarrow> j < length is \<Longrightarrow>
      selects (conf base (stk @ [F j]) u) (is ! j) (conf base (stk @ [F (Suc j)]) u) 0"
    and child: "\<And>j. j < length is \<Longrightarrow> realizes base (stk @ [F (Suc j)]) (is ! j) (cs ! j)"
    and "a \<le> j" and "j \<le> length is"
    and "seq_visit (visit (completed_iterations base) pth) (drop j cs) u = Some (ss, u', c)"
    and "cursors_fit u c"
  shows "exec (conf base (stk @ [F j]) u) ss (conf base (stk @ [F (length is)]) u') c"
  using assms(6-)
proof (induction "length is - j" arbitrary: j u ss c)
  case 0
  then show ?case using len by (auto intro: exec_refl)
next
  case (Suc m)
  then have j: "j < length is" by simp
  then have "drop j cs = cs ! j # drop (Suc j) cs" using len by (simp add: Cons_nth_drop_Suc)
  then obtain ss1 u1 c1 ss2 c2
    where 1: "visit (completed_iterations base) pth (cs ! j) u = Some (ss1, u1, c1)"
      and 2: "seq_visit (visit (completed_iterations base) pth) (drop (Suc j) cs) u1 = Some (ss2, u', c2)"
      and eq: "ss = ss1 @ ss2" "c = Suc (c1 + c2)"
    using Suc.prems(3) by (auto simp: chain_eq_Some after_eq_Some)
  have fit: "cursors_fit u c1" "cursors_fit u (c1 + c2)"
    using Suc.prems(4) eq(2) by (auto elim!: cursors_fit_less)
  have "exec_child base (stk @ [F (Suc j)]) (is ! j) u ss1 u1 c1"
    using child [OF j] 1 fit(1) unfolding realizes_def path by blast
  then have "exec (conf base (stk @ [F j]) u) ss1 (conf base (stk @ [F (Suc j)]) u1) (Suc 0 + c1)"
    by (rule selects_exec [OF sel [OF Suc.prems(1) j] run])
  moreover have "exec (conf base (stk @ [F (Suc j)]) u1) ss2 (conf base (stk @ [F (length is)]) u') c2"
    using Suc.hyps(2) Suc.prems(1) j 2 cursors_fit_visit [OF 1 fit(2)] by (intro Suc.hyps(1)) auto
  ultimately show ?case using exec_trans eq by fastforce
qed

lemma path_of_snoc:
  "node_at base (frame_node f) = Some n \<Longrightarrow>
     path_of base (stk @ [f]) =
       path_of base stk @ (case cursor_of n (iteration f) of None \<Rightarrow> [] | Some x \<Rightarrow> [x])"
  by (simp add: path_of_def frame_cursor_def node_at_def map_filter_def split: option.split)

lemma path_of_entry:
  assumes "node_at base k = Some n" and "cursor_of n it = Some x"
  shows "path_of base (stk @ [\<lparr>frame_node = k, next_child = j, iteration = it, mode = m\<rparr>]) = path_of base stk @ [x]"
  using assms by (simp add: path_of_snoc [of _ _ n])

lemma exec_finish:
  assumes "running base" and "exec r ss (conf base (stk @ [f]) u) c"
    and "\<And>b rb. frame_action (length stk) (ctx (conf base (stk @ [f]) u) b rb) =
      (Ok Finish, ctx (conf base (stk @ [f]) u) b rb)"
  shows "exec r ss (conf base stk u) (1 + c)"
proof -
  have "micro (conf base (stk @ [f]) u) None (conf base stk u) (Suc 0)"
    using assms(1,3) by (intro micro_finish) (simp_all add: running_def)
  from exec_snoc [OF assms(2) this] show ?thesis by simp
qed

lemma realizes_ordered:
  assumes run: "running base" and n: "node_at base k = Some n"
    and ord: "\<And>j. ordered_frame n \<lparr>frame_node = k, next_child = j, iteration = it, mode = ModeOrdered\<rparr> is"
    and cur: "cursor_of n it = Some x" and len: "length cs = length is" "length is \<le> usize_max"
    and child: "\<And>stk j. j < length is \<Longrightarrow> realizes base stk (is ! j) (cs ! j)"
    and vis: "seq_visit (visit (completed_iterations base) (path_of base stk @ [x])) cs u = Some (ss, u', c)"
    and fit: "cursors_fit u c"
  shows "exec (conf base (stk @ [\<lparr>frame_node = k, next_child = 0, iteration = it, mode = ModeOrdered\<rparr>]) u) ss
    (conf base (stk @ [\<lparr>frame_node = k, next_child = length is, iteration = it, mode = ModeOrdered\<rparr>]) u') c"
proof -
  let ?F = "\<lambda>j. \<lparr>frame_node = k, next_child = j, iteration = it, mode = ModeOrdered\<rparr>"
  have sel: "selects (conf base (stk @ [?F j]) u) (is ! j) (conf base (stk @ [?F (Suc j)]) u) 0"
    if "j < length is" for j u
    using selects_ordered [OF ord, of base j stk u] n len(2) that by simp
  show ?thesis
    using seq_exec [OF run len(1), of stk ?F "path_of base stk @ [x]" 0 0 u ss u' c]
      sel child path_of_entry [OF n cur] vis fit by simp
qed

lemma realizes_loop:
  assumes run: "running base" and n: "node_at base k = Some (CLoop i (Finite tot) is)"
    and len: "length cs = length is" "length is \<le> usize_max" and tot: "tot \<le> u64_max"
    and child: "\<And>stk j. j < length is \<Longrightarrow> realizes base stk (is ! j) (cs ! j)"
  shows "loop_visit (\<lambda>it. seq_visit (visit (completed_iterations base) (path_of base stk @ [cursor KindLoop i it])) cs)
      it m u = Some (ss, u', c) \<Longrightarrow> 0 < m \<Longrightarrow> it + m = tot \<Longrightarrow> cursors_fit u c \<Longrightarrow>
    exec (conf base (stk @ [\<lparr>frame_node = k, next_child = 0, iteration = it, mode = ModeOrdered\<rparr>]) u) ss
      (conf base stk u') c"
proof (induction m arbitrary: it u ss c)
  case (Suc m)
  let ?F = "\<lambda>it j. \<lparr>frame_node = k, next_child = j, iteration = it, mode = ModeOrdered\<rparr>"
  let ?pass = "\<lambda>it. seq_visit (visit (completed_iterations base) (path_of base stk @ [cursor KindLoop i it])) cs"
  obtain ss1 u1 c1 ss2 c2 where 1: "?pass it u = Some (ss1, u1, c1)"
      and 2: "loop_visit ?pass (Suc it) m u1 = Some (ss2, u', c2)"
      and eq: "ss = ss1 @ ss2" "c = Suc (c1 + c2)"
    using Suc.prems(1) by (auto simp: chain_eq_Some after_eq_Some)
  have fit: "cursors_fit u c1" using Suc.prems(4) eq(2) by (auto elim!: cursors_fit_less)
  have pass: "exec (conf base (stk @ [?F it 0]) u) ss1 (conf base (stk @ [?F it (length is)]) u1) c1"
    using run n _ _ len child 1 fit
    by (rule realizes_ordered) (use Suc.prems(3) in \<open>auto simp: ordered_frame_def\<close>)
  show ?case
  proof (cases "m = 0")
    case True
    have "exec (conf base (stk @ [?F it 0]) u) ss1 (conf base stk u1) (1 + c1)"
      using pass Suc.prems(3) n tot True by (intro exec_finish [OF run pass] finish_loop) auto
    then show ?thesis using 2 eq True by simp
  next
    case False
    have fit2: "cursors_fit u1 c2"
      unfolding cursors_fit_def
    proof
      fix x
      have "user_cursor u1 x \<le> user_cursor u x + c1"
        using visit_cursor by (rule seq_visit_cursor [OF _ 1])
      then show "user_cursor u1 x + c2 \<le> usize_max"
        using Suc.prems(4) eq(2) by (auto simp: cursors_fit_def dest: spec [of _ x])
    qed
    have "micro (conf base (stk @ [?F it (length is)]) u1) None (conf base (stk @ [?F (Suc it) 0]) u1) (Suc 0)"
      using micro_advance_loop [of base "?F it (length is)" i tot "is" stk u1] run n tot Suc.prems(3) False
      by (simp add: running_def)
    from exec_snoc [OF pass this]
    have "exec (conf base (stk @ [?F it 0]) u) ss1 (conf base (stk @ [?F (Suc it) 0]) u1) (c1 + 1)" by simp
    moreover have "exec (conf base (stk @ [?F (Suc it) 0]) u1) ss2 (conf base stk u') c2"
      using 2 False Suc.prems(3) fit2 by (intro Suc.IH) auto
    ultimately show ?thesis using exec_trans eq by fastforce
  qed
qed simp

lemma entry_frame_simps [simp]:
  "entry_frame k (CSimple i is) u = \<lparr>frame_node = k, next_child = 0, iteration = 0, mode = ModeOrdered\<rparr>"
  "entry_frame k (CLoop i cnt is) u = \<lparr>frame_node = k, next_child = 0, iteration = 0, mode = ModeOrdered\<rparr>"
  "entry_frame k (CDisabled i) u = \<lparr>frame_node = k, next_child = 0, iteration = 0, mode = ModeSkip\<rparr>"
  "entry_frame k (COnceOnly i is) u = \<lparr>frame_node = k, next_child = 0, iteration = 0,
     mode = if i \<in> u_once u then ModeSkip else ModeOrdered\<rparr>"
  "entry_frame k (CInterleave i is) u = \<lparr>frame_node = k, next_child = 0, iteration = 0, mode = ModeOneShot None\<rparr>"
  "entry_frame k (CRandom i seed is) u = \<lparr>frame_node = k, next_child = 0, iteration = 0, mode = ModeOneShot None\<rparr>"
  "entry_frame k (CRandomOrder i seed is) u = \<lparr>frame_node = k, next_child = 0, iteration = 0, mode = ModeRandomOrder None\<rparr>"
  by (simp_all add: entry_frame_def entry_mode_def initial_mode_def)

lemma entry_user_simps [simp]:
  "entry_user (COnceOnly i is) u = u\<lparr>u_once := insert i (u_once u)\<rparr>"
  "entry_user (CSimple i is) u = u"
  "entry_user (CLoop i cnt is) u = u"
  "entry_user (CDisabled i) u = u"
  "entry_user (CInterleave i is) u = u"
  "entry_user (CRandom i seed is) u = u"
  "entry_user (CRandomOrder i seed is) u = u"
  by (simp_all add: entry_user_def)

lemma cursors_fit_updates [simp]:
  "cursors_fit (u\<lparr>u_once := s\<rparr>) c = cursors_fit u c"
  "cursors_fit (u\<lparr>u_rand := g\<rparr>) c = cursors_fit u c"
  "cursors_fit (fst (snd (pick j seed cs u))) c = cursors_fit u c"
  "cursors_fit (fst (snd (arrange j seed cs u))) c = cursors_fit u c"
  by (simp_all add: cursors_fit_def user_cursor_pick user_cursor_arrange)

lemma cursors_fit_rotate: "cursors_fit u (Suc c) \<Longrightarrow> cursors_fit (snd (rotate_pick j cs u)) c"
  unfolding cursors_fit_def using user_cursor_rotate [of j cs u] by (metis Suc_eq_plus1 add_Suc_right add_Suc_shift add_le_mono1 le_trans)

text \<open>A controller that visits one chosen child.\<close>

lemma realizes_one_shot:
  assumes run: "running base" and n: "node_at base k = Some n" and one: "one_shot_node n is"
    and cur: "cursor_of n 0 = Some x"
    and sel: "selects (conf base (stk @ [\<lparr>frame_node = k, next_child = 0, iteration = 0, mode = ModeOneShot None\<rparr>]) u) y
      (conf base (stk @ [\<lparr>frame_node = k, next_child = 0, iteration = 0, mode = ModeOneShot (Some y)\<rparr>]) u1) d"
    and child: "\<And>stk. realizes base stk y ch"
    and vis: "after (1 + d) (seq_visit (visit (completed_iterations base) (path_of base stk @ [x])) [ch] u1) = Some (ss, u', c)"
    and fit: "\<And>c'. c = Suc (Suc (d + c')) \<Longrightarrow> cursors_fit u1 c'"
  shows "exec (conf base (stk @ [\<lparr>frame_node = k, next_child = 0, iteration = 0, mode = ModeOneShot None\<rparr>]) u) ss
    (conf base stk u') c"
proof -
  let ?f = "\<lparr>frame_node = k, next_child = 0, iteration = 0, mode = ModeOneShot (Some y)\<rparr>"
  obtain c' where v: "visit (completed_iterations base) (path_of base stk @ [x]) ch u1 = Some (ss, u', c')"
      and c: "c = Suc (Suc (d + c'))"
    using vis by (auto simp: chain_eq_Some after_eq_Some)
  have "exec_child base (stk @ [?f]) y u1 ss u' c'"
    using child [of "stk @ [?f]"] v fit [OF c] path_of_entry [OF n cur] unfolding realizes_def by simp
  then have "exec (conf base (stk @ [\<lparr>frame_node = k, next_child = 0, iteration = 0, mode = ModeOneShot None\<rparr>]) u) ss
      (conf base (stk @ [?f]) u') (Suc d + c')"
    by (rule selects_exec [OF sel run])
  then have "exec (conf base (stk @ [\<lparr>frame_node = k, next_child = 0, iteration = 0, mode = ModeOneShot None\<rparr>]) u) ss
      (conf base stk u') (1 + (Suc d + c'))"
    by (rule exec_finish [OF run]) (rule finish_one_shot [OF one], simp_all add: n)
  then show ?thesis using c by simp
qed

lemma list_all2_rotate_pick:
  assumes "list_all2 R xs ys" and "xs \<noteq> []"
  shows "R (fst (rotate_pick i xs u)) (fst (rotate_pick i ys u)) \<and>
    snd (rotate_pick i xs u) = snd (rotate_pick i ys u)"
proof -
  have "ys \<noteq> []" using assms by auto
  then show ?thesis
    using list_all2_lengthD [OF assms(1)] list_all2_nthD [OF assms(1), of "user_cursor u i mod length xs"]
    by (simp add: rotate_pick_def)
qed

lemma list_all2_pick:
  assumes "list_all2 R xs ys" and "xs \<noteq> []" and "length xs \<le> u64_max"
  shows "R (fst (pick i seed xs u)) (fst (pick i seed ys u)) \<and>
    snd (pick i seed xs u) = snd (pick i seed ys u)"
proof (cases "length xs \<le> 1")
  case True
  have "ys \<noteq> []" using assms by auto
  then show ?thesis
    using True list_all2_lengthD [OF assms(1)] list_all2_nthD [OF assms(1), of 0] by (simp add: pick_def)
next
  case False
  obtain y s k where d: "draw (length xs) (user_stream u i seed) = (y, s, k)" by (metis prod_cases3)
  then have "y < length xs" using draw_bounds [OF _ assms(3) d] assms(2) by simp
  then show ?thesis using False d list_all2_lengthD [OF assms(1)] list_all2_nthD [OF assms(1), of y]
    by (simp add: pick_def)
qed

lemma list_all2_arrange:
  assumes "list_all2 R xs ys" and "xs \<noteq> []" and "length xs \<le> u64_max"
  shows "list_all2 R (fst (arrange i seed xs u)) (fst (arrange i seed ys u)) \<and>
    snd (arrange i seed xs u) = snd (arrange i seed ys u)"
  using assms list_all2_lengthD [OF assms(1)]
    shuffled_related [of R xs ys "length xs - 1" "user_stream u i seed"]
  by (auto simp: arrange_def split: prod.splits)

lemma realizes_random_order:
  assumes run: "running base" and n: "node_at base k = Some (CRandomOrder i seed is)" and ne: "is \<noteq> []"
    and len: "length is \<le> u64_max" and arr: "arrange i seed is u = (ys, u1, d)"
    and kids: "length zs = length ys" "\<And>stk j. j < length ys \<Longrightarrow> realizes base stk (ys ! j) (zs ! j)"
    and vis: "after (1 + d) (seq_visit (visit (completed_iterations base)
        (path_of base stk @ [cursor KindRandomOrder i 0])) zs u1) = Some (ss, u', c)"
    and fit: "cursors_fit u1 c"
  shows "exec (conf base (stk @ [\<lparr>frame_node = k, next_child = 0, iteration = 0, mode = ModeRandomOrder None\<rparr>]) u) ss
    (conf base stk u') c"
proof -
  let ?F = "\<lambda>j. \<lparr>frame_node = k, next_child = j, iteration = 0, mode = ModeRandomOrder (Some ys)\<rparr>"
  let ?pth = "path_of base stk @ [cursor KindRandomOrder i 0]"
  let ?r = "conf base (stk @ [\<lparr>frame_node = k, next_child = 0, iteration = 0, mode = ModeRandomOrder None\<rparr>]) u"
  have pth: "path_of base (stk @ [?F j]) = ?pth" for j
    by (rule path_of_entry [OF n]) simp
  have lys: "length ys = length is" using arrange_length [OF len arr] .
  obtain z zs' where z: "zs = z # zs'" using kids(1) lys ne by (cases zs) auto
  obtain ss1 u2 c1 ss2 c2 where 1: "visit (completed_iterations base) ?pth z u1 = Some (ss1, u2, c1)"
      and 2: "seq_visit (visit (completed_iterations base) ?pth) zs' u2 = Some (ss2, u', c2)"
      and eq: "ss = ss1 @ ss2" "c = Suc (Suc (d + c1 + c2))"
    using vis z by (auto simp: chain_eq_Some after_eq_Some)
  have fit1: "cursors_fit u1 c1" "cursors_fit u1 (c1 + c2)"
    using fit eq(2) by (auto elim!: cursors_fit_less)
  have "selects ?r (ys ! 0) (conf base (stk @ [?F 1]) u1) d"
    using selects_random_order_first [OF _ ne _ _ len arr, where f = "\<lparr>frame_node = k, next_child = 0,
      iteration = 0, mode = ModeRandomOrder None\<rparr>" and base = base and stk = stk] n by simp
  moreover have "exec_child base (stk @ [?F 1]) (ys ! 0) u1 ss1 u2 c1"
    using kids(2) [of 0 "stk @ [?F 1]"] z lys ne 1 fit1(1) unfolding realizes_def pth by simp
  ultimately have first: "exec ?r ss1 (conf base (stk @ [?F 1]) u2) (Suc d + c1)"
    by (rule selects_exec [OF _ run])
  have "exec (conf base (stk @ [?F 1]) u2) ss2 (conf base (stk @ [?F (length ys)]) u') c2"
  proof (rule seq_exec [OF run kids(1) pth, of 1])
    show "selects (conf base (stk @ [?F j]) w) (ys ! j) (conf base (stk @ [?F (Suc j)]) w) 0"
      if "1 \<le> j" "j < length ys" for j w
      using selects_random_order_next [of base "?F j" i seed "is" ys stk w] n ne that lys len
      by (simp add: u64_max_def usize_max_def)
    show "cursors_fit u2 c2" using cursors_fit_visit [OF 1 fit1(2)] .
  qed (use kids(2) 2 z lys ne in \<open>auto simp: Suc_le_eq\<close>)
  from exec_trans [OF first this]
  have "exec ?r (ss1 @ ss2) (conf base (stk @ [?F (length ys)]) u') (Suc d + c1 + c2)" .
  then have "exec ?r (ss1 @ ss2) (conf base stk u') (1 + (Suc d + c1 + c2))"
    by (rule exec_finish [OF run]) (rule finish_random_order, simp_all add: n)
  then show ?thesis using eq by simp
qed

subsection \<open>Every kind of node\<close>

definition kids_realize :: "controller_runner \<Rightarrow> node_index list \<Rightarrow> controller_node list \<Rightarrow> bool" where
  "kids_realize base is cs \<longleftrightarrow>
     list_all2 (\<lambda>k n. \<forall>stk. realizes base stk k n) is cs \<and> length is \<le> usize_max"

lemma kids_realizeD:
  assumes "kids_realize base is cs"
  shows "length cs = length is" and "length is \<le> usize_max" and "length is \<le> u64_max"
    and "list_all2 (\<lambda>k n. \<forall>stk. realizes base stk k n) is cs"
    and "\<And>stk j. j < length is \<Longrightarrow> realizes base stk (is ! j) (cs ! j)"
proof -
  have *: "list_all2 (\<lambda>k n. \<forall>stk. realizes base stk k n) is cs" "length is \<le> usize_max"
    using assms by (simp_all add: kids_realize_def)
  then show "length cs = length is" "length is \<le> usize_max" "length is \<le> u64_max"
      "list_all2 (\<lambda>k n. \<forall>stk. realizes base stk k n) is cs"
    by (simp_all add: list_all2_lengthD u64_max_def usize_max_def)
  show "realizes base stk (is ! j) (cs ! j)" if "j < length is" for stk j
    using list_all2_nthD [OF *(1) that] by simp
qed

lemma realizesI:
  assumes "node_at base k = Some m" and "\<not> is_sample (Some m)"
    and "\<And>u ss u' c. visit (completed_iterations base) (path_of base stk) n u = Some (ss, u', c) \<Longrightarrow>
      cursors_fit u c \<Longrightarrow>
      exec (conf base (stk @ [entry_frame k m u]) (entry_user m u)) ss (conf base stk u') c"
  shows "realizes base stk k n"
  using assms by (simp add: realizes_def exec_child_def)

text \<open>An entered frame that finishes at once.\<close>

lemma exec_skip:
  assumes "running base"
    and "\<And>b rb. frame_action (length stk) (ctx (conf base (stk @ [f]) u) b rb) =
      (Ok Finish, ctx (conf base (stk @ [f]) u) b rb)"
  shows "exec (conf base (stk @ [f]) u) [] (conf base stk u) 1"
  using exec_finish [OF assms(1) exec_refl assms(2)] by simp

lemma realizes_disabled:
  assumes "running base" and n: "node_at base k = Some (CDisabled i)"
  shows "realizes base stk k (Disabled i cs)"
proof (rule realizesI [OF n])
  fix u ss u' c
  assume "visit (completed_iterations base) (path_of base stk) (Disabled i cs) u = Some (ss, u', c)"
  then show "exec (conf base (stk @ [entry_frame k (CDisabled i) u]) (entry_user (CDisabled i) u)) ss
      (conf base stk u') c"
    using exec_skip [OF assms(1) frame_action_at(1)] n by simp
qed simp

lemma realizes_simple:
  assumes run: "running base" and n: "node_at base k = Some (CSimple i is)" and kids: "kids_realize base is cs"
  shows "realizes base stk k (Simple i cs)"
proof (rule realizesI [OF n])
  fix u ss u' c
  assume "visit (completed_iterations base) (path_of base stk) (Simple i cs) u = Some (ss, u', c)"
    and fit: "cursors_fit u c"
  then obtain c1 where v: "seq_visit (visit (completed_iterations base)
      (path_of base stk @ [cursor KindSimple i 0])) cs u = Some (ss, u', c1)" and c: "c = 1 + c1"
    by (auto simp: after_eq_Some)
  have "cursors_fit u c1" using fit by (rule cursors_fit_less) (simp add: c)
  then have "exec (conf base (stk @ [entry_frame k (CSimple i is) u]) u) ss
      (conf base (stk @ [\<lparr>frame_node = k, next_child = length is, iteration = 0, mode = ModeOrdered\<rparr>]) u') c1"
    using realizes_ordered [OF run n _ _ kids_realizeD(1,2,5) [OF kids] v] by (simp add: ordered_frame_def)
  then have "exec (conf base (stk @ [entry_frame k (CSimple i is) u]) u) ss (conf base stk u') (1 + c1)"
    by (rule exec_finish [OF run]) (rule finish_ordered [of "CSimple i is" "is"], simp_all add: n)
  then show "exec (conf base (stk @ [entry_frame k (CSimple i is) u])
      (entry_user (CSimple i is) u)) ss (conf base stk u') c"
    using c by simp
qed simp

lemma realizes_once:
  assumes run: "running base" and n: "node_at base k = Some (COnceOnly i is)" and kids: "kids_realize base is cs"
  shows "realizes base stk k (OnceOnly i cs)"
proof (rule realizesI [OF n])
  fix u ss u' c
  assume v: "visit (completed_iterations base) (path_of base stk) (OnceOnly i cs) u = Some (ss, u', c)"
    and fit: "cursors_fit u c"
  show "exec (conf base (stk @ [entry_frame k (COnceOnly i is) u]) (entry_user (COnceOnly i is) u)) ss
      (conf base stk u') c"
  proof (cases "i \<in> u_once u")
    case True
    then have "entry_user (COnceOnly i is) u = u" by (simp add: insert_absorb)
    then show ?thesis
      using exec_skip [OF run finish_skipped, of "entry_frame k (COnceOnly i is) u"] n True v by simp
  next
    case False
    then obtain c1 where v1: "seq_visit (visit (completed_iterations base)
        (path_of base stk @ [cursor KindOnceOnly i 0])) cs (entry_user (COnceOnly i is) u) = Some (ss, u', c1)"
      and c: "c = 1 + c1"
      using v by (auto simp: after_eq_Some)
    have "cursors_fit u c1" using fit by (rule cursors_fit_less) (simp add: c)
    then have "exec (conf base (stk @ [entry_frame k (COnceOnly i is) u]) (entry_user (COnceOnly i is) u)) ss
        (conf base (stk @ [\<lparr>frame_node = k, next_child = length is, iteration = 0, mode = ModeOrdered\<rparr>]) u') c1"
      using realizes_ordered [OF run n _ _ kids_realizeD(1,2,5) [OF kids] v1] False
      by (simp add: ordered_frame_def)
    then show ?thesis unfolding c
      by (rule exec_finish [OF run]) (rule finish_ordered [of "COnceOnly i is" "is"], simp_all add: n)
  qed
qed simp

lemma realizes_loop_node:
  assumes run: "running base" and n: "node_at base k = Some (CLoop i cnt is)" and kids: "kids_realize base is cs"
    and sized: "\<And>tot. cnt = Finite tot \<Longrightarrow> tot \<le> u64_max"
  shows "realizes base stk k (Loop i cnt cs)"
proof (rule realizesI [OF n])
  fix u ss u' c
  assume v: "visit (completed_iterations base) (path_of base stk) (Loop i cnt cs) u = Some (ss, u', c)"
    and fit: "cursors_fit u c"
  obtain tot where cnt: "cnt = Finite tot" using v by (cases cnt) auto
  show "exec (conf base (stk @ [entry_frame k (CLoop i cnt is) u]) (entry_user (CLoop i cnt is) u)) ss
      (conf base stk u') c"
  proof (cases "tot = 0")
    case True
    then show ?thesis
      using exec_skip [OF run finish_loop, of "entry_frame k (CLoop i cnt is) u"] n v cnt by simp
  next
    case False
    then show ?thesis
      using realizes_loop [OF run, of k i tot "is" cs stk 0 tot u ss u' c] n v fit cnt kids_realizeD [OF kids]
        sized by simp
  qed
qed simp

lemma realizes_interleave:
  assumes run: "running base" and n: "node_at base k = Some (CInterleave i is)" and kids: "kids_realize base is cs"
  shows "realizes base stk k (Interleave i cs)"
proof (rule realizesI [OF n])
  fix u ss u' c
  assume v: "visit (completed_iterations base) (path_of base stk) (Interleave i cs) u = Some (ss, u', c)"
    and fit: "cursors_fit u c"
  have one: "one_shot_node (CInterleave i is) is" by (simp add: one_shot_node_def)
  show "exec (conf base (stk @ [entry_frame k (CInterleave i is) u]) (entry_user (CInterleave i is) u)) ss
      (conf base stk u') c"
  proof (cases "is = []")
    case True
    then show ?thesis
      using exec_skip [OF run finish_one_shot [OF one], of "entry_frame k (CInterleave i is) u"] n v
        kids_realizeD(1) [OF kids] by simp
  next
    case False
    have rel: "(\<forall>stk. realizes base stk (fst (rotate_pick i is u)) (fst (rotate_pick i cs u)))"
        "snd (rotate_pick i is u) = snd (rotate_pick i cs u)"
      using list_all2_rotate_pick [OF kids_realizeD(4) [OF kids] False, of i u] by simp_all
    have vis: "after (1 + 0) (seq_visit (visit (completed_iterations base)
        (path_of base stk @ [cursor KindInterleave i 0])) [fst (rotate_pick i cs u)]
        (snd (rotate_pick i is u))) = Some (ss, u', c)"
      using v False kids_realizeD(1) [OF kids] rel(2) by (simp del: seq_visit.simps split: if_splits)
    have "0 < c" using vis by (auto simp: after_eq_Some)
    then have uc: "user_cursor u i < usize_max" using fit by (auto simp: cursors_fit_def dest: spec [of _ i])
    have fits: "cursors_fit (snd (rotate_pick i is u)) c'" if "c = Suc (Suc (0 + c'))" for c'
      by (rule cursors_fit_rotate, rule cursors_fit_less [OF fit]) (simp add: that)
    show ?thesis
      using realizes_one_shot [OF run n one _ _ _ vis fits] rel(1) uc False
        selects_interleave [of base "entry_frame k (CInterleave i is) u" i "is" u stk] n by simp
  qed
qed simp

lemma realizes_random:
  assumes run: "running base" and n: "node_at base k = Some (CRandom i seed is)" and kids: "kids_realize base is cs"
  shows "realizes base stk k (Random i seed cs)"
proof (rule realizesI [OF n])
  fix u ss u' c
  assume v: "visit (completed_iterations base) (path_of base stk) (Random i seed cs) u = Some (ss, u', c)"
    and fit: "cursors_fit u c"
  have one: "one_shot_node (CRandom i seed is) is" by (simp add: one_shot_node_def)
  note l = kids_realizeD(3) [OF kids]
  show "exec (conf base (stk @ [entry_frame k (CRandom i seed is) u]) (entry_user (CRandom i seed is) u)) ss
      (conf base stk u') c"
  proof (cases "is = []")
    case True
    then show ?thesis
      using exec_skip [OF run finish_one_shot [OF one], of "entry_frame k (CRandom i seed is) u"] n v
        kids_realizeD(1) [OF kids] by simp
  next
    case False
    obtain x w d where p: "pick i seed is u = (x, w, d)" by (metis prod_cases3)
    have rel: "(\<forall>stk. realizes base stk x (fst (pick i seed cs u)))" "snd (pick i seed cs u) = (w, d)"
      using list_all2_pick [OF kids_realizeD(4) [OF kids] False l, of i seed u] p by simp_all
    have vis: "after (1 + d) (seq_visit (visit (completed_iterations base)
        (path_of base stk @ [cursor KindRandom i 0])) [fst (pick i seed cs u)] w) = Some (ss, u', c)"
      using v False kids_realizeD(1) [OF kids] rel(2) l by (simp del: seq_visit.simps split: if_splits)
    have fits: "cursors_fit w c'" if "c = Suc (Suc (d + c'))" for c'
      using cursors_fit_updates(3) [of i seed "is" u c'] p cursors_fit_less [OF fit, of c'] that by simp
    show ?thesis
      using realizes_one_shot [OF run n one _ _ _ vis fits] rel(1) False
        selects_random [of base "entry_frame k (CRandom i seed is) u" i seed "is" u x w d stk] n l p by simp
  qed
qed simp

lemma realizes_random_order_node:
  assumes run: "running base" and n: "node_at base k = Some (CRandomOrder i seed is)" and kids: "kids_realize base is cs"
  shows "realizes base stk k (RandomOrder i seed cs)"
proof (rule realizesI [OF n])
  fix u ss u' c
  assume v: "visit (completed_iterations base) (path_of base stk) (RandomOrder i seed cs) u = Some (ss, u', c)"
    and fit: "cursors_fit u c"
  note l = kids_realizeD(3) [OF kids]
  show "exec (conf base (stk @ [entry_frame k (CRandomOrder i seed is) u]) (entry_user (CRandomOrder i seed is) u)) ss
      (conf base stk u') c"
  proof (cases "is = []")
    case True
    then show ?thesis
      using exec_skip [OF run finish_random_order, of "entry_frame k (CRandomOrder i seed is) u"] n v
        kids_realizeD(1) [OF kids] by simp
  next
    case False
    obtain ys w d where p: "arrange i seed is u = (ys, w, d)" by (metis prod_cases3)
    obtain zs where zs: "arrange i seed cs u = (zs, w, d)"
      and rel: "list_all2 (\<lambda>k n. \<forall>stk. realizes base stk k n) ys zs"
      using list_all2_arrange [OF kids_realizeD(4) [OF kids] False l, of i seed u] p
      by (cases "arrange i seed cs u") auto
    have vis: "after (1 + d) (seq_visit (visit (completed_iterations base)
        (path_of base stk @ [cursor KindRandomOrder i 0])) zs w) = Some (ss, u', c)"
      using v False kids_realizeD(1) [OF kids] l zs by (simp split: if_splits)
    have "cursors_fit w c" using cursors_fit_updates(4) [of i seed "is" u c] p fit by simp
    then show ?thesis
      using realizes_random_order [OF run n False l p _ _ vis] list_all2_lengthD [OF rel]
        list_all2_nthD [OF rel] by simp
  qed
qed simp

text \<open>A node of the table that represents a source node performs its visit, whatever the stack.\<close>

lemma visit_realizes:
  assumes "represents (nodes (program base)) k n" and run: "running base" and "sized n"
  shows "realizes base stk k n"
  using assms(1,3)
proof (induction arbitrary: stk rule: represents.induct)
  case (rep_sample k i)
  then show ?case by (auto simp: realizes_def exec_child_def node_at_def selection_def path_of_def)
next
  case (rep_disabled k i cs)
  then show ?case by (intro realizes_disabled run) (simp add: node_at_def)
next
  case (rep_branch n cs k "is")
  have n: "node_at base k = build_node n is" using rep_branch.hyps(2,3) by (simp add: node_at_def)
  have "list_all sized cs \<and> length cs \<le> usize_max"
    using rep_branch.hyps(1) rep_branch.prems by (cases n) (auto simp: branch_def)
  then have "kids_realize base is cs"
    using rep_branch.IH by (auto simp: kids_realize_def list_all2_conv_all_nth list_all_length)
  then show ?case
    using rep_branch.hyps(1) rep_branch.prems n run
    by (cases n) (auto simp: branch_def intro!: realizes_simple realizes_once realizes_loop_node
        realizes_interleave realizes_random realizes_random_order_node)
qed

end
