(* ===== verification/Controller_Runs.thy ===== *)
theory Controller_Runs
  imports Controller_Traversal
begin

text \<open>
  Whole runs: \<open>run_to_completion\<close> on the compiled program yields the reference trace of the
  source tree at the reference cost whenever the budgets have room for it, one root iteration
  after the other with the per-user state carried along. From the reference semantics follow the
  behaviours of the individual controllers.
\<close>

section \<open>Whole runs\<close>

text \<open>The body of the loop of \<open>run_to_completion_with_signal\<close> after its step.\<close>

definition run_tail ::
  "sample_selection list \<Rightarrow> (controller_error, controller_step) result \<times> exec_ctx \<Rightarrow>
   (controller_error, execution_trace) result \<times> controller_runner \<times> run_budget" where
  "run_tail acc res =
     (case res of (outcome, c) \<Rightarrow>
        (case record_step (budget c) (run_bud c) of
           (Err e, rb) \<Rightarrow> (Err e, runner c, rb)
         | (Ok _, rb) \<Rightarrow>
             (case outcome of
                Err e \<Rightarrow> (Err e, runner c, rb)
              | Ok (StepSample s) \<Rightarrow> run_loop Continue (acc @ [s]) (runner c) rb
              | Ok out \<Rightarrow> (Ok \<lparr>samples = acc, trace_terminal = out\<rparr>, runner c, rb))))"

lemma run_loop_continue:
  assumes "terminal r = None" and "\<not> finished r" and "transitions rb < max_transitions rb"
  shows "run_loop Continue acc r rb =
    run_tail acc (select_loop (ctx r (step_budget_new (max_transitions rb - transitions rb)) rb))"
  using assms
  by (simp add: run_loop.simps [of Continue] run_tail_def next_step_budget_def step_with_run_budget_def
      signalled_def select_next_with_sample_budget_def split_def)

lemma exec_run_tail:
  assumes "exec r ss r' k" and "micro r' (Some Complete) r'' d"
    and "room (k + d) b" and "transitions rb + limit b = max_transitions rb" and "0 < d"
    and "max_transitions rb \<le> usize_max" and "emitted rb + length ss \<le> max_samples rb"
    and "max_samples rb \<le> usize_max"
  shows "run_tail acc (select_loop (ctx r b rb)) =
    (Ok \<lparr>samples = acc @ ss, trace_terminal = Complete\<rparr>, r'',
     rb\<lparr>emitted := emitted rb + length ss, transitions := transitions rb + used b + k + d\<rparr>)"
  using assms
proof (induction arbitrary: acc b rb rule: exec.induct)
  case (exec_refl r)
  then have "select_iter (ctx r b rb) = (Ok (Some Complete), ctx r'' (spent d b) rb)"
    unfolding micro_def by (simp add: sample_room_def reserved_def)
  then show ?case using exec_refl
    by (simp add: select_loop.simps [of "ctx r b rb"] run_tail_def record_step_def room_def)
next
  case (exec_continue r r1 k ss r2 c)
  have "select_iter (ctx r b rb) = (Ok None, ctx r1 (spent k b) rb)"
    using exec_continue.hyps(1) exec_continue.prems(2) room_less [of "k + c + d" b k]
    unfolding micro_def by (simp add: sample_room_def reserved_def)
  then have "select_loop (ctx r b rb) = select_loop (ctx r1 (spent k b) rb)"
    by (simp add: select_loop.simps [of "ctx r b rb"])
  then show ?case
    using exec_continue.IH [of "spent k b" rb acc] exec_continue.prems by (simp add: add.assoc)
next
  case (exec_sample r s r1 k ss r2 c)
  let ?rb = "rb\<lparr>emitted := Suc (emitted rb), transitions := transitions rb + used b + k\<rparr>"
  have "select_iter (ctx r b rb) = (Ok (Some (StepSample s)), ctx r1 (spent k b) (reserved True rb))"
    using exec_sample.hyps(1) exec_sample.prems room_less [of "k + c + d" b k]
    unfolding micro_def by (simp add: sample_room_def)
  then have "run_tail acc (select_loop (ctx r b rb)) = run_loop Continue (acc @ [s]) r1 ?rb"
    using exec_sample.prems(2,3,5)
    by (simp add: select_loop.simps [of "ctx r b rb"] run_tail_def record_step_def room_def reserved_def
        add.assoc)
  also have "\<dots> = run_tail (acc @ [s])
      (select_loop (ctx r1 (step_budget_new (max_transitions rb - (transitions rb + used b + k))) ?rb))"
    using exec_sample.hyps(2,3) exec_sample.prems(2-4) by (subst run_loop_continue) (auto simp: room_def)
  also have "\<dots> = (Ok \<lparr>samples = (acc @ [s]) @ ss, trace_terminal = Complete\<rparr>, r'',
      ?rb\<lparr>emitted := emitted ?rb + length ss, transitions := transitions ?rb + 0 + c + d\<rparr>)"
    using exec_sample.IH [of "step_budget_new (max_transitions rb - (transitions rb + used b + k))" ?rb "acc @ [s]"]
      exec_sample.prems by (simp add: step_budget_new_def room_def)
  finally show ?case by (simp add: add.assoc)
qed

text \<open>The runner between two root traversals, and after one.\<close>

definition idle_runner :: "controller_program \<Rightarrow> u64 \<Rightarrow> user_state \<Rightarrow> controller_runner" where
  "idle_runner p it u = conf ((from_program p)\<lparr>completed_iterations := it\<rparr>) [] u"

definition done_runner :: "controller_program \<Rightarrow> u64 \<Rightarrow> user_state \<Rightarrow> controller_runner" where
  "done_runner p it u =
     conf ((from_program p)\<lparr>root_started := True, finished := True, completed_iterations := it\<rparr>) [] u"

definition base_runner :: "controller_program \<Rightarrow> u64 \<Rightarrow> controller_runner" where
  "base_runner p it = (from_program p)\<lparr>root_started := True, completed_iterations := it\<rparr>"

lemma base_runner_simps [simp]:
  "running (base_runner p it)"
  "program (base_runner p it) = p"
  "completed_iterations (base_runner p it) = it"
  "path_of (base_runner p it) [] = []"
  by (simp_all add: running_def base_runner_def from_program_def path_of_def map_filter_def)

lemma from_program_idle: "from_program p = idle_runner p 0 fresh_user"
  by (simp add: idle_runner_def from_program_def fresh_user_def conf_def)

lemma next_root_iteration_done: "next_root_iteration (done_runner p it u) = (Ok (), idle_runner p it u)"
  by (simp add: next_root_iteration_def done_runner_def idle_runner_def conf_def from_program_def)

lemma micro_complete:
  assumes "it < u64_max" and "node_at (base_runner p it) (root p) = Some n"
  shows "micro (conf (base_runner p it) [] u) (Some Complete) (done_runner p (Suc it) u) 1"
  using assms spend_step_ctx [of 0]
  by (simp add: micro_def select_iter_def complete_root_def root_identity_def node_identity_def
      base_runner_def from_program_def done_runner_def update_runner_def conf_def reserved_def node_at_def)

lemma start_exec:
  assumes "exec_child (base_runner p it) [] (root p) u ss u' c"
  shows "exec (idle_runner p it u) ss (conf (base_runner p it) [] u') (1 + c)"
proof -
  let ?b = "base_runner p it"
  obtain n where n: "node_at ?b (root p) = Some n"
    using assms by (auto simp: exec_child_def split: option.splits)
  then have n': "node_at (idle_runner p it u) (root p) = Some n"
    by (simp add: node_at_def idle_runner_def base_runner_def from_program_def)
  have conv: "(idle_runner p it u)\<lparr>root_started := True\<rparr> = conf ?b [] u"
    by (simp add: idle_runner_def base_runner_def conf_def)
  have f: "terminal (idle_runner p it u) = None" "\<not> root_started (idle_runner p it u)"
      "program (idle_runner p it u) = p"
    by (simp_all add: idle_runner_def from_program_def)
  show ?thesis
  proof (cases "is_sample (Some n)")
    case True
    then obtain i where i: "n = CSample i" using is_sample_cases by blast
    have "micro (idle_runner p it u) (Some (StepSample (selection (conf ?b [] u) (compiled_id n)))) (conf ?b [] u) 1"
      using n' i f spend_step_ctx [of 0] conv
      by (simp add: micro_def select_iter_def start_root_def reserve_sample_run_def reserve_sample_def
          sample_room_def reserved_def update_runner_def)
    from exec_sample [OF this _ _ exec_refl] show ?thesis
      using assms n True by (simp add: exec_child_def base_runner_def from_program_def)
  next
    case False
    have "micro (idle_runner p it u) None (conf ?b ([] @ [entry_frame (root p) n u]) (entry_user n u)) 1"
      using n' False f spend_step_ctx [of 0] conv push_frame_ctx [OF n, of "[]"]
      by (cases n) (simp_all add: micro_def select_iter_def start_root_def reserved_def update_runner_def)
    from exec_continue [OF this] show ?thesis using assms n False by (simp add: exec_child_def)
  qed
qed

lemma run_from_idle:
  assumes "represents (nodes p) (root p) n" and "sized n" and "it < u64_max"
    and "visit it [] n u = Some (ss, u', c)" and "cursors_fit u c"
    and "c + 2 \<le> mt" and "mt \<le> usize_max" and "length ss \<le> ms" and "ms \<le> usize_max"
  shows "run_to_completion (idle_runner p it u) (run_budget_new ms mt) =
    (Ok \<lparr>samples = ss, trace_terminal = Complete\<rparr>, done_runner p (Suc it) u',
     \<lparr>max_samples = ms, max_transitions = mt, emitted = length ss, transitions = c + 2\<rparr>)"
proof -
  let ?b = "base_runner p it"
  have "realizes ?b [] (root p) n" using assms(1,2) by (intro visit_realizes) simp_all
  then have child: "exec_child ?b [] (root p) u ss u' c"
    using assms(4,5) by (simp add: realizes_def)
  then obtain m where m: "node_at ?b (root p) = Some m"
    by (auto simp: exec_child_def split: option.splits)
  have "run_tail [] (select_loop (ctx (idle_runner p it u) (step_budget_new mt) (run_budget_new ms mt))) =
      (Ok \<lparr>samples = [] @ ss, trace_terminal = Complete\<rparr>, done_runner p (Suc it) u',
        (run_budget_new ms mt)\<lparr>emitted := 0 + length ss, transitions := 0 + 0 + (1 + c) + 1\<rparr>)"
    using exec_run_tail [OF start_exec [OF child] micro_complete [OF assms(3) m], of "step_budget_new mt" "run_budget_new ms mt" "[]"]
      assms(6-9) by (simp add: step_budget_new_def run_budget_new_def room_def)
  moreover have "terminal (idle_runner p it u) = None" "\<not> finished (idle_runner p it u)"
    by (simp_all add: idle_runner_def from_program_def)
  ultimately show ?thesis
    using assms(6) by (simp add: run_to_completion_def run_to_completion_with_signal_def
        run_loop_continue run_budget_new_def)
qed

section \<open>The run refines the visit\<close>

text \<open>C1: Refinement. For a tree the compiler accepts, a run of the compiled program from an idle
  runner (no frames, \<open>it\<close> completed root iterations, per-user state \<open>u\<close>) returns exactly the
  selections of the recursive reference traversal, in order and with their controller paths,
  leaves exactly the reference per-user state, and spends exactly the reference cost plus the two
  transitions that start and complete the root, as soon as the budgets have room for them; the
  next root iteration then starts from the same situation.\<close>

theorem run_refines_visit:
  assumes "limits_new mn md = Ok limits" and "compile_with_limits n limits = Ok p"
    and "sized n" and "it < u64_max"
    and "visit it [] n u = Some (ss, u', c)" and "\<And>i. user_cursor u i + c \<le> usize_max"
    and "c + 2 \<le> mt" and "mt \<le> usize_max" and "length ss \<le> ms" and "ms \<le> usize_max"
  shows "run_to_completion (idle_runner p it u) (run_budget_new ms mt) =
      (Ok \<lparr>samples = ss, trace_terminal = Complete\<rparr>, done_runner p (Suc it) u',
       \<lparr>max_samples = ms, max_transitions = mt, emitted = length ss, transitions = c + 2\<rparr>) \<and>
    next_root_iteration (done_runner p (Suc it) u') = (Ok (), idle_runner p (Suc it) u')"
  using run_from_idle [OF compile_OkD(2) [OF assms(1,2)] assms(3-5) _ assms(7-10)] assms(6)
  by (simp add: cursors_fit_def next_root_iteration_done)

definition example_plan :: controller_node where
  "example_plan = Simple 1 [OnceOnly 2 [Sample 3], Loop 4 (Finite 2) [Interleave 5 [Sample 6, Sample 7]]]"

lemma example_plan_compiles:
  "limits_new 9 3 = Ok \<lparr>max_nodes = 9, max_depth = 3\<rparr>"
  "compile_with_limits example_plan \<lparr>max_nodes = 9, max_depth = 3\<rparr> =
     Ok \<lparr>nodes = [CSample 3, COnceOnly 2 [0], CSample 6, CSample 7, CInterleave 5 [2, 3],
          CLoop 4 (Finite 2) [4], CSimple 1 [1, 5]], root = 6\<rparr>"
  by (simp_all add: limits_new_def MAX_ALLOWED_NODES_def MAX_ALLOWED_DEPTH_def example_plan_def
      compile_with_limits_def compile_tree_walk walk.simps account_source_node_def
      ensure_child_capacity_def usize_max_def)

lemma example_plan_visit:
  "visit 0 [] example_plan fresh_user =
     Some ([\<lparr>sampler_id = 3, execution_iteration = 0,
               path = [cursor KindSimple 1 0, cursor KindOnceOnly 2 0]\<rparr>,
            \<lparr>sampler_id = 6, execution_iteration = 0,
               path = [cursor KindSimple 1 0, cursor KindLoop 4 0, cursor KindInterleave 5 0]\<rparr>,
            \<lparr>sampler_id = 7, execution_iteration = 0,
               path = [cursor KindSimple 1 0, cursor KindLoop 4 1, cursor KindInterleave 5 0]\<rparr>],
           \<lparr>u_once = {2}, u_inter = [5 \<mapsto> 2], u_rand = Map.empty\<rparr>, 13)"
  by (simp add: example_plan_def fresh_user_def chain_def after_def rotate_pick_def user_cursor_def
      numeral_2_eq_2 fun_eq_iff)

theorem run_refines_visit_witness:
  "\<exists>p tr r rb. compile_with_limits example_plan \<lparr>max_nodes = 9, max_depth = 3\<rparr> = Ok p \<and>
     run_to_completion (from_program p) (run_budget_new 10 20) = (Ok tr, r, rb) \<and>
     map sampler_id (samples tr) = [3, 6, 7] \<and> transitions rb = 15"
  using run_refines_visit [OF example_plan_compiles _ _ example_plan_visit, of 20 10]
    example_plan_compiles(2)
  by (simp add: from_program_idle user_cursor_def fresh_user_def u64_max_def usize_max_def example_plan_def)

end
