(* ===== verification/Controller_Behaviour.thy ===== *)
theory Controller_Behaviour
  imports Controller_Runs
begin

text \<open>
  What the individual controllers do, as consequences of the refinement of \<open>Controller_Runs\<close>:
  plans without forever loops complete, once-only bodies run in one root iteration at most,
  interleave rotates, random order permutes, and the random draws terminate and are unbiased.
\<close>

section \<open>Plans without forever loops complete\<close>

fun forever_free :: "controller_node \<Rightarrow> bool" where
  "forever_free (Sample i) = True"
| "forever_free (Simple i cs) = list_all forever_free cs"
| "forever_free (Loop i cnt cs) = (cnt \<noteq> Forever \<and> list_all forever_free cs)"
| "forever_free (Disabled i cs) = True"
| "forever_free (OnceOnly i cs) = list_all forever_free cs"
| "forever_free (Interleave i cs) = list_all forever_free cs"
| "forever_free (Random i seed cs) = list_all forever_free cs"
| "forever_free (RandomOrder i seed cs) = list_all forever_free cs"
| "forever_free (Unsupported i kind) = True"

lemma seq_visit_exists:
  "(\<And>x u. x \<in> set xs \<Longrightarrow> f x u \<noteq> None) \<Longrightarrow> seq_visit f xs u \<noteq> None"
proof (induction xs arbitrary: u)
  case (Cons x xs)
  then obtain a where a: "f x u = Some a" by (metis list.set_intros(1) not_None_eq)
  have "seq_visit f xs w \<noteq> None" for w using Cons by simp
  then show ?case using a by (cases a) (simp add: chain_def after_def)
qed simp

lemma loop_visit_exists: "(\<And>k u. f k u \<noteq> None) \<Longrightarrow> loop_visit f it n u \<noteq> None"
proof (induction n arbitrary: it u)
  case (Suc n)
  obtain a where a: "f it u = Some a" using Suc.prems by blast
  have "loop_visit f (Suc it) n w \<noteq> None" for w using Suc by blast
  then show ?case using a by (cases a) (simp add: chain_def after_def)
qed simp

lemma visit_exists:
  assumes "forever_free n" and "sized n" and "enabled_unsupported n = []"
  shows "visit it pth n u \<noteq> None"
  using assms
proof (induction n arbitrary: it pth u rule: measure_induct_rule [of node_count])
  case (less n)
  have seq: "seq_visit (visit it q) xs w \<noteq> None" if "branch n cs" and "set xs \<subseteq> set cs" for q xs w cs
  proof (rule seq_visit_exists)
    fix x u assume "x \<in> set xs"
    then have x: "x \<in> set cs" using that(2) by blast
    moreover have "list_all forever_free cs \<and> list_all sized cs"
      using less.prems(1,2) that(1) by (cases n) (auto simp: branch_def)
    ultimately show "visit it q x u \<noteq> None"
      using less.IH branch_children_smaller [OF that(1)] branch_supported [OF that(1) less.prems(3)]
      by (simp add: list_all_iff)
  qed
  show ?case
  proof (cases n)
    case (Loop i cnt cs)
    have "loop_visit (\<lambda>k. seq_visit (visit it (pth @ [cursor KindLoop i k])) cs) a m w \<noteq> None" for a m w
      by (rule loop_visit_exists) (rule seq [of cs], simp_all add: branch_def Loop)
    then show ?thesis using Loop less.prems(1) by (cases cnt) auto
  next
    case (Unsupported i kind)
    then show ?thesis using less.prems(3) by (simp add: enabled_unsupported.simps)
  next
    case (Interleave i cs)
    then show ?thesis using seq [of cs] rotate_pick_in_set [of cs i u]
      by (simp add: branch_def after_def del: seq_visit.simps)
  next
    case (Random i seed cs)
    then show ?thesis using seq [of cs] pick_in_set [of cs i seed u] less.prems(2)
      by (simp add: branch_def after_def u64_max_def usize_max_def del: seq_visit.simps)
  next
    case (RandomOrder i seed cs)
    then show ?thesis using seq [of cs] arrange_set [of cs i seed u] less.prems(2)
      by (simp add: branch_def after_def u64_max_def usize_max_def)
  qed (use seq in \<open>simp_all add: branch_def after_def\<close>)
qed

lemma run_from_fresh:
  assumes "limits_new mn md = Ok limits" and "compile_with_limits n limits = Ok p" and "sized n"
    and "visit 0 [] n fresh_user = Some (ss, u', c)"
    and "c + 2 \<le> mt" and "mt \<le> usize_max" and "length ss \<le> ms" and "ms \<le> usize_max"
  shows "run_to_completion (from_program p) (run_budget_new ms mt) =
    (Ok \<lparr>samples = ss, trace_terminal = Complete\<rparr>, done_runner p 1 u',
     \<lparr>max_samples = ms, max_transitions = mt, emitted = length ss, transitions = c + 2\<rparr>)"
  using run_from_idle [OF compile_OkD(2) [OF assms(1,2)] assms(3) _ assms(4) _ assms(5-8)] assms(5,6)
  by (simp add: from_program_idle u64_max_def cursors_fit_def user_cursor_def fresh_user_def)

text \<open>C6: Liveness. A compiled plan without an enabled forever loop has one finite trace and one
  finite cost, and every run of a fresh runner whose budgets cover them returns that trace and
  completes: the trace does not depend on the budget.\<close>

theorem forever_free_run_completes:
  assumes "limits_new mn md = Ok limits" and "compile_with_limits n limits = Ok p"
    and "sized n" and "forever_free n"
  shows "\<exists>ss c. \<forall>ms mt. c \<le> mt \<longrightarrow> mt \<le> usize_max \<longrightarrow> length ss \<le> ms \<longrightarrow> ms \<le> usize_max \<longrightarrow>
    fst (run_to_completion (from_program p) (run_budget_new ms mt)) =
      Ok \<lparr>samples = ss, trace_terminal = Complete\<rparr>"
proof -
  have "enabled_unsupported n = []" using compile_OkD(1) [OF assms(1,2)] by (simp add: admissible_def)
  then obtain ss u' c where "visit 0 [] n fresh_user = Some (ss, u', c)"
    using visit_exists [OF assms(4,3), of 0 "[]" fresh_user] by auto
  then show ?thesis
    using run_from_fresh [OF assms(1-3)] by (intro exI [of _ ss] exI [of _ "c + 2"]) simp
qed

theorem forever_free_run_completes_witness:
  "\<exists>p ss c. compile_with_limits example_plan \<lparr>max_nodes = 9, max_depth = 3\<rparr> = Ok p \<and>
     (\<forall>ms mt. c \<le> mt \<longrightarrow> mt \<le> usize_max \<longrightarrow> length ss \<le> ms \<longrightarrow> ms \<le> usize_max \<longrightarrow>
        fst (run_to_completion (from_program p) (run_budget_new ms mt)) =
          Ok \<lparr>samples = ss, trace_terminal = Complete\<rparr>)"
  using forever_free_run_completes [OF example_plan_compiles] example_plan_compiles(2)
  by (simp add: example_plan_def usize_max_def u64_max_def)

section \<open>Once-only controllers\<close>

text \<open>Every selection extends the path of the visit, by once-only controllers entered just now.\<close>

definition once_fresh :: "controller_cursor list \<Rightarrow> user_state \<Rightarrow> user_state \<Rightarrow> sample_selection \<Rightarrow> bool" where
  "once_fresh pth u u' s \<longleftrightarrow> (\<exists>q. path s = pth @ q \<and>
     (\<forall>x \<in> set q. cursor_kind x = KindOnceOnly \<longrightarrow> cursor_id x \<notin> u_once u \<and> cursor_id x \<in> u_once u'))"

definition once_ok :: "controller_cursor list \<Rightarrow> user_state \<Rightarrow> visit_result \<Rightarrow> bool" where
  "once_ok pth u res \<longleftrightarrow> (\<forall>ss u' c. res = Some (ss, u', c) \<longrightarrow>
     u_once u \<subseteq> u_once u' \<and> (\<forall>s \<in> set ss. once_fresh pth u u' s))"


lemma once_ok_after [simp]: "once_ok pth u (after k r) = once_ok pth u r"
  by (auto simp: once_ok_def after_eq_Some)






lemma once_updates [simp]:
  "u_once (snd (rotate_pick i cs u)) = u_once u"
  "u_once (fst (snd (pick i seed cs u))) = u_once u"
  "u_once (fst (snd (arrange i seed cs u))) = u_once u"
  by (simp_all add: rotate_pick_def pick_def arrange_def split: prod.split)




section \<open>Interleave controllers rotate\<close>

lemma interleave_loop_visit:
  assumes "ids \<noteq> []"
  shows "\<exists>ss u'. loop_visit (\<lambda>k. seq_visit (visit it (pth @ [cursor KindLoop i k])) [Interleave j (map Sample ids)]) a n u =
      Some (ss, u', 4 * n) \<and>
    map sampler_id ss = map (\<lambda>t. ids ! ((user_cursor u j + t) mod length ids)) [0..<n]"
  using assms
proof (induction n arbitrary: a u)
  case (Suc n)
  let ?u = "u\<lparr>u_inter := (u_inter u)(j \<mapsto> Suc (user_cursor u j))\<rparr>"
  let ?f = "\<lambda>k. seq_visit (visit it (pth @ [cursor KindLoop i k])) [Interleave j (map Sample ids)]"
  have m: "user_cursor u j mod length ids < length ids" using Suc.prems by simp
  have one: "?f a u = Some ([\<lparr>sampler_id = ids ! (user_cursor u j mod length ids), execution_iteration = it,
      path = pth @ [cursor KindLoop i a, cursor KindInterleave j 0]\<rparr>], ?u, 3)"
    using Suc.prems m by (simp add: chain_def after_def rotate_pick_def)
  obtain ss u' where rest: "loop_visit ?f (Suc a) n ?u = Some (ss, u', 4 * n)"
      "map sampler_id ss = map (\<lambda>t. ids ! ((user_cursor ?u j + t) mod length ids)) [0..<n]"
    using Suc.IH [OF Suc.prems, of "Suc a" ?u] by blast
  have "user_cursor ?u j = Suc (user_cursor u j)" by (simp add: user_cursor_def)
  moreover have "[0..<Suc n] = 0 # map Suc [0..<n]" by (simp add: map_Suc_upt upt_conv_Cons del: upt_Suc)
  ultimately show ?case
    using one rest by (simp add: chain_def after_def del: seq_visit.simps upt_Suc)
qed simp

text \<open>C31: Interleave is round robin per user: a loop of \<open>k\<close> passes around an interleave controller
  with the samplers \<open>ids\<close> selects, in pass \<open>t\<close>, the sampler \<open>ids ! (t mod length ids)\<close>.\<close>

theorem interleave_round_robin:
  assumes "limits_new mn md = Ok limits"
    and "compile_with_limits (Loop i (Finite k) [Interleave j (map Sample ids)]) limits = Ok p"
    and "ids \<noteq> []" and "length ids \<le> usize_max" and "k \<le> u64_max"
    and "4 * k + 3 \<le> mt" and "mt \<le> usize_max" and "k \<le> ms" and "ms \<le> usize_max"
  shows "\<exists>tr r rb. run_to_completion (from_program p) (run_budget_new ms mt) = (Ok tr, r, rb) \<and>
    trace_terminal tr = Complete \<and>
    map sampler_id (samples tr) = map (\<lambda>t. ids ! (t mod length ids)) [0..<k]"
proof -
  let ?n = "Loop i (Finite k) [Interleave j (map Sample ids)]"
  have sized: "sized ?n" using assms(4,5) by (simp add: usize_max_def list_all_iff)
  obtain ss u' where lv: "loop_visit (\<lambda>k. seq_visit (visit 0 ([] @ [cursor KindLoop i k])) [Interleave j (map Sample ids)])
        0 k fresh_user = Some (ss, u', 4 * k)"
      and ids: "map sampler_id ss = map (\<lambda>t. ids ! ((user_cursor fresh_user j + t) mod length ids)) [0..<k]"
    using interleave_loop_visit [OF assms(3), of 0 "[]" i j 0 k fresh_user] by blast
  have vis: "visit 0 [] ?n fresh_user = Some (ss, if k = 0 then fresh_user else u', if k = 0 then 1 else 4 * k)"
    using lv ids by (cases k) (simp_all del: seq_visit.simps loop_visit.simps)
  have "length ss = k" using ids by (metis length_map length_upt minus_nat.diff_0)
  then have "run_to_completion (from_program p) (run_budget_new ms mt) =
      (Ok \<lparr>samples = ss, trace_terminal = Complete\<rparr>, done_runner p 1 (if k = 0 then fresh_user else u'),
       \<lparr>max_samples = ms, max_transitions = mt, emitted = length ss, transitions = (if k = 0 then 1 else 4 * k) + 2\<rparr>)"
    using assms(6-9) by (intro run_from_fresh [OF assms(1,2) sized vis]) (simp_all split: if_splits)
  then show ?thesis using ids by (simp add: user_cursor_def fresh_user_def)
qed

definition rotation_plan :: controller_node where
  "rotation_plan = Loop 1 (Finite 5) [Interleave 2 (map Sample [3, 4])]"

lemma rotation_plan_compiles:
  "compile_with_limits rotation_plan \<lparr>max_nodes = 9, max_depth = 3\<rparr> =
     Ok \<lparr>nodes = [CSample 3, CSample 4, CInterleave 2 [0, 1], CLoop 1 (Finite 5) [2]], root = 3\<rparr>"
  by (simp add: rotation_plan_def compile_with_limits_def compile_tree_walk walk.simps account_source_node_def
      ensure_child_capacity_def usize_max_def)

theorem interleave_round_robin_witness:
  "\<exists>p tr r rb. compile_with_limits rotation_plan \<lparr>max_nodes = 9, max_depth = 3\<rparr> = Ok p \<and>
     run_to_completion (from_program p) (run_budget_new 10 30) = (Ok tr, r, rb) \<and>
     map sampler_id (samples tr) = [3, 4, 3, 4, 3]"
proof -
  have u: "map (\<lambda>t. [3, 4] ! (t mod length [3, 4])) [0..<5] = [3, 4, 3, 4, 3 :: nat]" by code_simp
  show ?thesis
    using interleave_round_robin [OF example_plan_compiles(1), of 1 5 2 "[3, 4]" _ 30 10] rotation_plan_compiles
    unfolding u rotation_plan_def by (auto simp: usize_max_def u64_max_def)
qed

section \<open>Random controllers\<close>







text \<open>C33: The rejection sampling of the random controllers terminates for every seed and every bound:
  whatever the state of the stream, the loop accepts after fewer rejections than the bound, so a
  budget with that many transitions left is always enough; the index is in range and the runner
  changes in nothing but the stream of that element.\<close>

theorem random_index_terminates:
  assumes "0 < bound" and "bound \<le> u64_max"
    and "used (budget c) + bound \<le> limit (budget c)" and "limit (budget c) \<le> usize_max"
  shows "\<exists>x g k. random_index i seed bound c =
      (Ok x, c\<lparr>runner := (runner c)\<lparr>random_states := g\<rparr>, budget := (budget c)\<lparr>used := used (budget c) + k\<rparr>\<rparr>) \<and>
    x < bound \<and> k < bound \<and> (\<forall>j. j \<noteq> i \<longrightarrow> g j = random_states (runner c) j)"
proof (cases "bound = 1")
  case True
  then show ?thesis
    by (intro exI [of _ 0] exI [of _ "random_states (runner c)"]) (simp add: random_index_def)
next
  case False
  obtain x s k where d: "draw bound (stream_of (runner c) i seed) = (x, s, k)" by (metis prod_cases3)
  then have "x < bound" "k < bound" using draw_bounds [OF assms(1,2)] by auto
  then show ?thesis
    using random_index_draw [OF _ assms(2) d _ assms(4)] assms(1,3) False
    by (intro exI [of _ x] exI [of _ "(random_states (runner c))(i \<mapsto> s)"] exI [of _ k]) (simp add: after_draw_def)
qed

theorem random_index_terminates_witness:
  "\<exists>x g k. random_index 7 5 3 \<lparr>runner = from_program \<lparr>nodes = [], root = 0\<rparr>, budget = step_budget_new 3,
        run_bud = run_budget_new 0 0\<rparr> =
      (Ok x, \<lparr>runner = (from_program \<lparr>nodes = [], root = 0\<rparr>)\<lparr>random_states := g\<rparr>,
        budget = \<lparr>limit = 3, used = k\<rparr>, run_bud = run_budget_new 0 0\<rparr>) \<and> x < 3"
  using random_index_terminates [of 3 "\<lparr>runner = from_program \<lparr>nodes = [], root = 0\<rparr>, budget = step_budget_new 3,
        run_bud = run_budget_new 0 0\<rparr>" 7 5]
  by (auto simp: step_budget_new_def u64_max_def usize_max_def)

text \<open>C34: An accepted draw is unbiased: of the \<open>2 ^ 64\<close> values of the generator, exactly
  \<open>2 ^ 64 div bound\<close> are mapped to each index below the bound.\<close>

theorem uniform_index_unbiased:
  assumes "0 < bound" and "bound \<le> u64_max" and "x < bound"
  shows "card {v. uniform_index v bound = Some x} = 2 ^ 64 div bound"
  using assms by (rule card_uniform_index)

theorem uniform_index_unbiased_witness:
  "card {v. uniform_index v 3 = Some 2} = 6148914691236517205"
  using uniform_index_unbiased [of 3 2] by (simp add: u64_max_def)

end
