(* ===== verification/Controller_Invariant.thy ===== *)
theory Controller_Invariant
  imports Controller_Runs
begin

text \<open>
  The well-formedness invariant of the runner: every frame points into the node table, holds a
  controller, and its mode and child index fit the kind of that controller. The compiler
  establishes it, every operation keeps it, a well-formed runner never reports an invalid state,
  and a pass of the selection loop that fails leaves the runner as it was, so that the same call
  can be repeated with a larger budget.
\<close>

section \<open>The invariant\<close>

definition wf_program :: "controller_program \<Rightarrow> bool" where
  "wf_program p \<longleftrightarrow> root p < length (nodes p) \<and>
     (\<forall>n \<in> set (nodes p). \<forall>is. children_of n = Some is \<longrightarrow>
        (\<forall>k \<in> set is. k < length (nodes p)) \<and> length is \<le> usize_max)"

fun mode_ok :: "compiled_node \<Rightarrow> frame \<Rightarrow> bool" where
  "mode_ok (CSample _) f = False"
| "mode_ok (CDisabled _) f = True"
| "mode_ok (CSimple _ is) f = (next_child f \<le> length is)"
| "mode_ok (CLoop _ _ is) f = (next_child f \<le> length is)"
| "mode_ok (COnceOnly _ is) f = (next_child f \<le> length is)"
| "mode_ok (CInterleave _ is) f = (case mode f of ModeOneShot _ \<Rightarrow> True | _ \<Rightarrow> False)"
| "mode_ok (CRandom _ _ is) f = (case mode f of ModeOneShot _ \<Rightarrow> True | _ \<Rightarrow> False)"
| "mode_ok (CRandomOrder _ _ is) f =
     (case mode f of
        ModeRandomOrder None \<Rightarrow> next_child f = 0
      | ModeRandomOrder (Some order) \<Rightarrow> mset order = mset is \<and> next_child f \<le> length is
      | _ \<Rightarrow> False)"

definition wf_frame :: "controller_program \<Rightarrow> frame \<Rightarrow> bool" where
  "wf_frame p f \<longleftrightarrow> (case vec_get (nodes p) (frame_node f) of None \<Rightarrow> False | Some n \<Rightarrow> mode_ok n f)"

definition wf_runner :: "controller_runner \<Rightarrow> bool" where
  "wf_runner r \<longleftrightarrow> wf_program (program r) \<and> list_all (wf_frame (program r)) (stack r) \<and>
     (\<not> root_started r \<longrightarrow> stack r = [])"

lemma wf_from_program: "wf_program p \<Longrightarrow> wf_runner (from_program p)"
  by (simp add: wf_runner_def from_program_def)

lemma wf_reset: "wf_runner r \<Longrightarrow> wf_runner (runner_reset r)"
  by (simp add: wf_runner_def runner_reset_def)

lemma wf_next_root_iteration: "wf_runner r \<Longrightarrow> wf_runner (snd (next_root_iteration r))"
  by (simp add: wf_runner_def next_root_iteration_def)

lemma wf_child_in_range:
  assumes "wf_program p" and "vec_get (nodes p) k = Some n" and "children_of n = Some is"
    and "c \<in> set is"
  shows "c < length (nodes p)"
  using assms by (auto simp: wf_program_def dest!: vec_get_in_set)

lemma wf_children_sized:
  assumes "wf_program p" and "vec_get (nodes p) k = Some n" and "children_of n = Some is"
  shows "length is \<le> usize_max"
  using assms by (auto simp: wf_program_def dest!: vec_get_in_set)

section \<open>Outcomes of the helpers\<close>

definition not_invalid :: "(controller_error, 'a) result \<Rightarrow> bool" where
  "not_invalid res \<longleftrightarrow> (\<forall>k. res \<noteq> Err (InvalidState k))"

lemma not_invalid_simps [simp]:
  "not_invalid (Ok x)"
  "not_invalid (Err e) \<longleftrightarrow> (\<forall>k. e \<noteq> InvalidState k)"
  by (auto simp: not_invalid_def)

lemma reserve_child_sample_outcome:
  assumes "reserve_child_sample ch c = (res, c')"
  shows "runner c' = runner c" and "not_invalid res"
  using assms
  by (auto simp: reserve_child_sample_def reserve_sample_run_def reserve_sample_def
      split: if_splits option.splits)

text \<open>Runners that differ at most in the stream of one element.\<close>

definition stream_variant :: "element_id \<Rightarrow> controller_runner \<Rightarrow> controller_runner \<Rightarrow> bool" where
  "stream_variant i r r' \<longleftrightarrow>
     (\<exists>g. r' = r\<lparr>random_states := g\<rparr> \<and> (\<forall>j. j \<noteq> i \<longrightarrow> g j = random_states r j))"

lemma stream_variant_refl: "stream_variant i r r"
  unfolding stream_variant_def by (rule exI [of _ "random_states r"]) simp

lemma stream_variant_trans: "stream_variant i r r1 \<Longrightarrow> stream_variant i r1 r2 \<Longrightarrow> stream_variant i r r2"
  unfolding stream_variant_def by auto

lemma stream_variant_restore:
  assumes "stream_variant i r (runner c)"
  shows "runner (restore_stream i (random_states r i) c) = r"
proof -
  obtain g where g: "runner c = r\<lparr>random_states := g\<rparr>" "\<And>j. j \<noteq> i \<Longrightarrow> g j = random_states r j"
    using assms by (auto simp: stream_variant_def)
  have "restore_random_state i (random_states r i) g = random_states r"
    using g(2) by (auto simp: restore_random_state_def fun_eq_iff split: option.split)
  then show ?thesis using g(1) by (simp add: restore_stream_def update_runner_def)
qed

lemma stream_variant_simps:
  assumes "stream_variant i r r'"
  shows "program r' = program r" and "stack r' = stack r" and "root_started r' = root_started r"
    and "\<And>k. node_at r' k = node_at r k"
  using assms by (auto simp: stream_variant_def node_at_def)

lemma random_loop_outcome:
  "random_loop bound s b = (res, s', b') \<Longrightarrow>
     not_invalid res \<and> (\<forall>x. res = Ok x \<longrightarrow> 0 < bound \<longrightarrow> x < bound)"
proof (induction bound s b rule: random_loop.induct)
  case (1 bound s b)
  obtain v s1 where v: "next_seeded_value s = (v, s1)" by fastforce
  show ?case
  proof (cases "uniform_index v bound")
    case None
    obtain sres b1 where sp: "spend b = (sres, b1)" by fastforce
    show ?thesis
    proof (cases sres)
      case (Inl e)
      then show ?thesis using "1.prems" v None sp
        by (auto simp: random_loop.simps [of bound s b] spend_def split: if_splits option.splits)
    next
      case (Inr u)
      then show ?thesis
        using "1.prems" "1.IH" [OF v [symmetric] None sp [symmetric] Inr] v None sp
        by (simp add: random_loop.simps [of bound s b])
    qed
  next
    case (Some x)
    then show ?thesis using "1.prems" v
      by (auto simp: random_loop.simps [of bound s b] uniform_index_def Let_def split: if_splits)
  qed
qed

lemma random_index_outcome:
  assumes "random_index i seed bound c = (res, c')"
  shows "not_invalid res" and "res = Ok x \<Longrightarrow> 0 < bound \<Longrightarrow> x < bound"
    and "stream_variant i (runner c) (runner c')"
proof -
  obtain rl s' b where rl: "random_loop bound (case random_states (runner c) i of Some s \<Rightarrow> s | None \<Rightarrow> seed)
      (budget c) = (rl, s', b)" by (metis prod_cases3)
  note out = random_loop_outcome [OF rl]
  have var: "stream_variant i r (r\<lparr>random_states := (random_states r)(i \<mapsto> s')\<rparr>)" for r
    unfolding stream_variant_def by auto
  show "not_invalid res" using assms rl out
    by (auto simp: random_index_def Let_def split: if_splits)
  show "x < bound" if "res = Ok x" "0 < bound" using that assms rl out
    by (auto simp: random_index_def Let_def split: if_splits)
  show "stream_variant i (runner c) (runner c')" using assms rl var stream_variant_refl
    by (auto simp: random_index_def Let_def update_runner_def split: if_splits)
qed

lemma shuffle_loop_outcome:
  assumes "stream_variant i r (runner c)" and "p < length order"
    and "shuffle_loop i seed (random_states r i) p order c = (res, c')"
  shows "(case res of
      Err e \<Rightarrow> stream_variant i r (runner c') \<and> (\<forall>k. e \<noteq> InvalidState k) \<and>
        (runner c = r \<or> Suc p \<le> usize_max \<longrightarrow> runner c' = r)
    | Ok ys \<Rightarrow> stream_variant i r (runner c') \<and> mset ys = mset order)"
  using assms
proof (induction p arbitrary: order c res)
  case (Suc p)
  show ?case
  proof (cases "Suc (Suc p) \<le> usize_max")
    case False
    then show ?thesis using Suc.prems by auto
  next
    case True
    obtain ri c1 where ri: "random_index i seed (Suc (Suc p)) c = (ri, c1)" by fastforce
    have var: "stream_variant i r (runner c1)"
      using Suc.prems(1) random_index_outcome(3) [OF ri] by (rule stream_variant_trans)
    show ?thesis
    proof (cases ri)
      case (Inl e)
      then show ?thesis
        using Suc.prems(3) True ri random_index_outcome(1) [OF ri] stream_variant_restore [OF var]
        by (auto simp: on_error_def stream_variant_refl)
    next
      case (Inr x)
      then have x: "x < Suc (Suc p)" using random_index_outcome(2) [OF ri] by simp
      have "shuffle_loop i seed (random_states r i) p (swap order (Suc p) x) c1 = (res, c')"
        using Suc.prems(3) True ri Inr by (simp add: on_error_def)
      from Suc.IH [OF var _ this] show ?thesis
        using Suc.prems(2) x True by (auto simp: mset_swap_eq split: sum.splits)
    qed
  qed
qed simp

section \<open>Outcomes of the actions\<close>

definition action_outcome ::
  "controller_runner \<Rightarrow> (controller_error, frame_action) result \<times> exec_ctx \<Rightarrow> bool" where
  "action_outcome r out \<longleftrightarrow>
     (case out of
        (Err e, c) \<Rightarrow> (\<forall>k. e \<noteq> InvalidState k) \<and> runner c = r
      | (Ok (Select child), c) \<Rightarrow>
          child < length (nodes (program r)) \<and> program (runner c) = program r \<and>
          root_started (runner c) = root_started r \<and> wf_runner (runner c)
      | (Ok Finish, c) \<Rightarrow> runner c = r
      | (Ok AdvanceLoop, c) \<Rightarrow>
          runner c = r \<and> stack r \<noteq> [] \<and>
          (\<exists>i cnt is. node_at r (frame_node (last (stack r))) = Some (CLoop i cnt is)))"

lemma action_outcome_simps [simp]:
  "action_outcome r (Err e, c) \<longleftrightarrow> (\<forall>k. e \<noteq> InvalidState k) \<and> runner c = r"
  "action_outcome r (Ok Finish, c) \<longleftrightarrow> runner c = r"
  by (simp_all add: action_outcome_def)

lemma wf_replace_top:
  "wf_runner r \<Longrightarrow> stack r = stk @ [f] \<Longrightarrow> wf_frame (program r) g \<Longrightarrow>
     wf_runner (r\<lparr>stack := stk @ [g]\<rparr>)"
  by (auto simp: wf_runner_def)

lemma wf_top:
  assumes "wf_runner r" and "stack r = stk @ [f]"
  obtains n where "node_at r (frame_node f) = Some n" and "mode_ok n f"
  using assms by (auto simp: wf_runner_def wf_frame_def node_at_def split: option.splits)

lemma advance_child_top:
  assumes "stack (runner c) = stk @ [f]" and "next_child f < usize_max"
  shows "advance_child (length stk) c =
    (Ok (), c\<lparr>runner := (runner c)\<lparr>stack := stk @ [f\<lparr>next_child := Suc (next_child f)\<rparr>]\<rparr>\<rparr>)"
  using assms by (simp add: advance_child_def update_runner_def)

lemma select_child_outcome:
  assumes wf: "wf_runner r" and r: "runner c = r" and top: "stack r = stk @ [f]"
    and fits: "next_child f < usize_max" and child: "child < length (nodes (program r))"
    and frame: "wf_frame (program r) (f\<lparr>next_child := Suc (next_child f)\<rparr>)"
  shows "action_outcome r (select_child (length stk) child c)"
proof -
  obtain res c1 where rs: "reserve_child_sample child c = (res, c1)" by fastforce
  note out = reserve_child_sample_outcome [OF rs]
  show ?thesis
  proof (cases res)
    case (Inl e)
    then show ?thesis using rs out r by (simp add: select_child_def)
  next
    case (Inr u)
    then show ?thesis
      using rs out r top fits child wf_replace_top [OF wf top frame]
      by (simp add: select_child_def advance_child_top action_outcome_def)
  qed
qed

lemma ordered_children_outcome:
  assumes wf: "wf_runner r" and r: "runner c = r" and top: "stack r = stk @ [f]"
    and n: "node_at r (frame_node f) = Some n" and cs: "children_of n = Some is"
    and ok: "\<And>g. next_child g \<le> length is \<Longrightarrow> mode_ok n g"
    and j: "next_child f < length is"
  shows "action_outcome r (select_child (length stk) (is ! next_child f) c)"
proof (rule select_child_outcome [OF wf r top])
  have p: "wf_program (program r)" "vec_get (nodes (program r)) (frame_node f) = Some n"
    using wf n by (simp_all add: wf_runner_def node_at_def)
  show "next_child f < usize_max" using j wf_children_sized [OF p cs] by simp
  show "is ! next_child f < length (nodes (program r))" using wf_child_in_range [OF p cs] j by simp
  show "wf_frame (program r) (f\<lparr>next_child := Suc (next_child f)\<rparr>)"
    using p(2) ok j by (simp add: wf_frame_def)
qed

lemma reserve_then_mode_outcome:
  assumes wf: "wf_runner r" and var: "stream_variant i r (runner c)" and top: "stack r = stk @ [f]"
    and child: "child < length (nodes (program r))"
    and frame: "wf_frame (program r) (f\<lparr>mode := m\<rparr>)"
    and keep: "\<And>c'. runner c' = runner c \<Longrightarrow> runner (undo c') = r"
  shows "action_outcome r
    (and_then (on_error (reserve_child_sample child) undo) (\<lambda>_.
     and_then (set_mode (length stk) m) (\<lambda>_. return_ok (Select child))) c)"
proof -
  obtain res c1 where rs: "reserve_child_sample child c = (res, c1)" by fastforce
  note out = reserve_child_sample_outcome [OF rs]
  note same = stream_variant_simps [OF var]
  have "wf_runner ((runner c)\<lparr>stack := stk @ [f\<lparr>mode := m\<rparr>]\<rparr>)"
    using wf same top frame by (auto simp: wf_runner_def)
  then show ?thesis using rs out keep child top same
    by (cases res) (auto simp: on_error_def set_mode_def update_runner_def action_outcome_def and_then_def)
qed

lemma ordered_action_outcome:
  assumes wf: "wf_runner r" and r: "runner c = r" and top: "stack r = stk @ [f]"
    and n: "node_at r (frame_node f) = Some n" and cs: "children_of n = Some is"
    and ok: "\<And>g. next_child g \<le> length is \<Longrightarrow> mode_ok n g"
  shows "action_outcome r (ordered_action (length stk) (frame_node f) (next_child f) c)"
proof (cases "next_child f < length is")
  case True
  then show ?thesis
    using ordered_children_outcome [OF wf r top n cs ok True] compiled_child_at_at [OF n cs] r
    by (simp add: ordered_action_def)
next
  case False
  then show ?thesis using compiled_child_at_at [OF n cs] r by (simp add: ordered_action_def)
qed

lemma iteration_overflow_not_invalid: "iteration_overflow r k \<noteq> InvalidState j"
  by (simp add: iteration_overflow_def split: option.split)

lemma loop_action_outcome:
  assumes wf: "wf_runner r" and r: "runner c = r" and top: "stack r = stk @ [f]"
    and n: "node_at r (frame_node f) = Some (CLoop i cnt is)"
  shows "action_outcome r (loop_action (length stk) (frame_node f) (next_child f) (iteration f) cnt c)"
proof (cases "next_child f < length is")
  case True
  have "action_outcome r (select_child (length stk) (is ! next_child f) c)"
    by (rule ordered_children_outcome [OF wf r top n _ _ True]) simp_all
  then show ?thesis
    using compiled_child_at_at [OF n, of "is"] r True by (auto simp: loop_action_def split: loop_count.split)
next
  case False
  then show ?thesis
    using compiled_child_at_at [OF n, of "is"] r n top
    by (auto simp: loop_action_def action_outcome_def iteration_overflow_not_invalid
        split: loop_count.split option.split)
qed

lemma interleave_action_outcome:
  assumes wf: "wf_runner r" and r: "runner c = r" and top: "stack r = stk @ [f]"
    and n: "node_at r (frame_node f) = Some (CInterleave i is)" and ok: "mode_ok (CInterleave i is) f"
  shows "action_outcome r (interleave_action (length stk) (frame_node f) (frame_state_of f) i c)"
proof -
  obtain x where x: "mode f = ModeOneShot x" using ok by (auto split: frame_mode.splits)
  let ?cur = "case interleave_next r i of Some k \<Rightarrow> k | None \<Rightarrow> 0"
  let ?child = "is ! (?cur mod length is)"
  obtain res c1 where rs: "reserve_child_sample ?child c = (res, c1)" by fastforce
  note out = reserve_child_sample_outcome [OF rs]
  have child: "?child < length (nodes (program r))" if "is \<noteq> []"
    using wf n that by (intro wf_child_in_range [of "program r" "frame_node f" "CInterleave i is" "is"])
      (simp_all add: wf_runner_def node_at_def)
  have "wf_frame (program r) (f\<lparr>mode := ModeOneShot (Some ?child)\<rparr>)"
    using n by (simp add: wf_frame_def node_at_def)
  then have "wf_runner (r\<lparr>interleave_next := m, stack := stk @ [f\<lparr>mode := ModeOneShot (Some ?child)\<rparr>]\<rparr>)" for m
    using wf top by (auto simp: wf_runner_def)
  then show ?thesis
    using compiled_child_at_at [OF n, of "is"] compiled_children_at [OF n, of "is"] r x rs out child top
    by (cases x; cases res)
      (auto simp: interleave_action_def frame_state_of_def Let_def and_then_def ok_or_def set_mode_def
        update_runner_def action_outcome_def split: option.split)
qed

lemma random_action_outcome:
  assumes wf: "wf_runner r" and r: "runner c = r" and top: "stack r = stk @ [f]"
    and n: "node_at r (frame_node f) = Some (CRandom i seed is)" and ok: "mode_ok (CRandom i seed is) f"
  shows "action_outcome r (random_action (length stk) (frame_node f) (frame_state_of f) i seed c)"
proof -
  obtain x where x: "mode f = ModeOneShot x" using ok by (auto split: frame_mode.splits)
  note kids = compiled_child_at_at [OF n, of "is"] compiled_children_at [OF n, of "is"]
  show ?thesis
  proof (cases "is = [] \<or> x \<noteq> None")
    case True
    then show ?thesis using kids r x by (auto simp: random_action_def frame_state_of_def)
  next
    case False
    obtain ri c1 where ri: "random_index i seed (length is) c = (ri, c1)" by fastforce
    note out = random_index_outcome [OF ri, unfolded r]
    show ?thesis
    proof (cases ri)
      case (Inl e)
      then show ?thesis using kids r x ri False out stream_variant_restore [OF out(3)]
        by (simp add: random_action_def frame_state_of_def Let_def on_error_def)
    next
      case (Inr y)
      then have y: "y < length is" using out(2) False by simp
      have "action_outcome r (and_then (on_error (reserve_child_sample (is ! y)) (restore_stream i (random_states r i))) (\<lambda>_.
          and_then (set_mode (length stk) (ModeOneShot (Some (is ! y)))) (\<lambda>_. return_ok (Select (is ! y)))) c1)"
      proof (rule reserve_then_mode_outcome [OF wf out(3) top])
        show "is ! y < length (nodes (program r))"
          using wf n y by (intro wf_child_in_range [of "program r" "frame_node f" "CRandom i seed is" "is"])
            (simp_all add: wf_runner_def node_at_def)
        show "wf_frame (program r) (f\<lparr>mode := ModeOneShot (Some (is ! y))\<rparr>)"
          using n by (simp add: wf_frame_def node_at_def)
        show "runner (restore_stream i (random_states r i) c') = r" if "runner c' = runner c1" for c'
          using stream_variant_restore [of i r c'] out(3) that by simp
      qed
      then show ?thesis using kids r x ri Inr False y
        by (simp add: random_action_def frame_state_of_def Let_def on_error_def)
    qed
  qed
qed

text \<open>Drawing the order: it fails without a trace, or stores a permutation of the children.\<close>

lemma generate_order_outcome:
  assumes r: "runner c = r" and top: "stack r = stk @ [f]" and ne: "is \<noteq> []"
    and out: "generate_order (length stk) is i seed c = (res, c')"
  shows "(case res of
      Err e \<Rightarrow> (\<forall>k. e \<noteq> InvalidState k) \<and> runner c' = r
    | Ok _ \<Rightarrow> \<exists>g order. mset order = mset is \<and>
        runner c' = r\<lparr>random_states := g, stack := stk @ [f\<lparr>mode := ModeRandomOrder (Some order)\<rparr>]\<rparr>)"
proof -
  obtain sh c1 where sh: "shuffle_loop i seed (random_states r i) (length is - 1) is c = (sh, c1)"
    by fastforce
  note so = shuffle_loop_outcome [OF _ _ sh] stream_variant_refl [of i r] r ne
  show ?thesis
  proof (cases sh)
    case (Inl e)
    then show ?thesis using so sh out by (auto simp: generate_order_def Let_def r)
  next
    case (Inr order)
    then have var: "stream_variant i r (runner c1)" and ms: "mset order = mset is" using so by simp_all
    then have ne': "order \<noteq> []" using ne by auto
    obtain rs c2 where rs: "reserve_child_sample (order ! 0) c1 = (rs, c2)" by fastforce
    note ro = reserve_child_sample_outcome [OF rs]
    have "runner (restore_stream i (random_states r i) c2) = r"
      using stream_variant_restore [of i r c2] var ro(1) by simp
    then show ?thesis
      using sh Inr rs ro out ms ne' var top
      by (cases rs)
        (auto simp: generate_order_def Let_def r on_error_def and_then_def set_mode_def update_runner_def
          stream_variant_def, blast)
  qed
qed

lemma random_order_action_outcome:
  assumes wf: "wf_runner r" and r: "runner c = r" and top: "stack r = stk @ [f]"
    and n: "node_at r (frame_node f) = Some (CRandomOrder i seed is)"
    and ok: "mode_ok (CRandomOrder i seed is) f"
  shows "action_outcome r (random_order_action (length stk) (frame_node f) (next_child f) (frame_state_of f) i seed c)"
proof -
  note kids = compiled_children_at [OF n, of "is"]
  have p: "wf_program (program r)" "vec_get (nodes (program r)) (frame_node f) = Some (CRandomOrder i seed is)"
    using wf n by (simp_all add: wf_runner_def node_at_def)
  have sized: "length is \<le> usize_max" using wf_children_sized [OF p] by simp
  obtain ord where m: "mode f = ModeRandomOrder ord" using ok by (auto split: frame_mode.splits)
  show ?thesis
  proof (cases "is = []")
    case True
    then show ?thesis using kids r by (simp add: random_order_action_def)
  next
    case ne: False
    show ?thesis
    proof (cases ord)
      case None
      then have j: "next_child f = 0" using ok m by simp
      obtain g c1 where g: "generate_order (length stk) is i seed c = (g, c1)" by fastforce
      note go = generate_order_outcome [OF r top ne g]
      show ?thesis
      proof (cases g)
        case (Inl e)
        then show ?thesis using go g kids r m None ne
          by (simp add: random_order_action_def frame_state_of_def)
      next
        case (Inr u)
        then obtain h order where ms: "mset order = mset is"
            and c1: "runner c1 = r\<lparr>random_states := h, stack := stk @ [f\<lparr>mode := ModeRandomOrder (Some order)\<rparr>]\<rparr>"
          using go by auto
        have len: "length order = length is" using ms by (metis size_mset)
        have "order ! 0 \<in> set is" using ms ne len by (metis length_greater_0_conv nth_mem set_mset_mset)
        then have child: "order ! 0 < length (nodes (program r))" using wf_child_in_range [OF p, of "is"] by simp
        have frame: "wf_frame (program r) (f\<lparr>mode := ModeRandomOrder (Some order), next_child := Suc 0\<rparr>)"
          using p(2) ms ne by (auto simp: wf_frame_def Suc_le_eq)
        then have "wf_runner ((runner c1)\<lparr>stack := stk @ [f\<lparr>mode := ModeRandomOrder (Some order), next_child := Suc 0\<rparr>]\<rparr>)"
          using wf top c1 by (auto simp: wf_runner_def)
        then show ?thesis
          using g Inr kids r m None ne c1 j len child
            advance_child_top [of c1 stk "f\<lparr>mode := ModeRandomOrder (Some order)\<rparr>"]
          by (simp add: random_order_action_def frame_state_of_def stored_order_child_def action_outcome_def
              usize_max_def)
      qed
    next
      case (Some order)
      then have ms: "mset order = mset is" using ok m by simp
      have len: "length order = length is" using ms by (metis size_mset)
      show ?thesis
      proof (cases "next_child f < length is")
        case True
        have "order ! next_child f \<in> set is" using ms True len by (metis nth_mem set_mset_mset)
        then have child: "order ! next_child f < length (nodes (program r))"
          using wf_child_in_range [OF p, of "is"] by simp
        have "action_outcome r (select_child (length stk) (order ! next_child f) c)"
          using wf r top _ child
        proof (rule select_child_outcome)
          show "next_child f < usize_max" using True sized by simp
          show "wf_frame (program r) (f\<lparr>next_child := Suc (next_child f)\<rparr>)"
            using p(2) m Some ms True by (simp add: wf_frame_def)
        qed
        then show ?thesis using kids r m Some ne True len
          by (simp add: random_order_action_def frame_state_of_def select_child_def)
      next
        case False
        then show ?thesis using kids r m Some ne len top
          by (simp add: random_order_action_def frame_state_of_def stored_order_child_def)
      qed
    qed
  qed
qed

lemma frame_action_outcome:
  assumes wf: "wf_runner r" and r: "runner c = r" and top: "stack r = stk @ [f]"
  shows "action_outcome r (frame_action (length stk) c)"
proof -
  obtain n where n: "node_at r (frame_node f) = Some n" and ok: "mode_ok n f" using wf_top [OF wf top] .
  have dispatch: "frame_action (length stk) c =
      (case n of
         CSample _ \<Rightarrow> return_err (InvalidState (frame_node f))
       | CDisabled _ \<Rightarrow> return_ok Finish
       | CSimple _ _ \<Rightarrow> ordered_action (length stk) (frame_node f) (next_child f)
       | CLoop _ cnt _ \<Rightarrow> loop_action (length stk) (frame_node f) (next_child f) (iteration f) cnt
       | COnceOnly _ _ \<Rightarrow> once_action (length stk) (frame_node f) (next_child f) (frame_state_of f)
       | CInterleave i _ \<Rightarrow> interleave_action (length stk) (frame_node f) (frame_state_of f) i
       | CRandom i seed _ \<Rightarrow> random_action (length stk) (frame_node f) (frame_state_of f) i seed
       | CRandomOrder i seed _ \<Rightarrow>
           random_order_action (length stk) (frame_node f) (next_child f) (frame_state_of f) i seed) c"
    using n top r by (cases n) (simp_all add: frame_action_def compiled_node_kind_def Let_def)
  show ?thesis
  proof (cases n)
    case (COnceOnly i "is")
    then have "action_outcome r (ordered_action (length stk) (frame_node f) (next_child f) c)"
      using ordered_action_outcome [OF wf r top n, of "is"] by simp
    then show ?thesis using dispatch COnceOnly r by (simp add: once_action_def)
  next
    case (CSimple i "is")
    then show ?thesis using dispatch ordered_action_outcome [OF wf r top n, of "is"] by simp
  next
    case (CLoop i cnt "is")
    then show ?thesis using dispatch loop_action_outcome [OF wf r top] n by simp
  next
    case (CInterleave i "is")
    then show ?thesis using dispatch interleave_action_outcome [OF wf r top] n ok by simp
  next
    case (CRandom i seed "is")
    then show ?thesis using dispatch random_action_outcome [OF wf r top] n ok by simp
  next
    case (CRandomOrder i seed "is")
    then show ?thesis using dispatch random_order_action_outcome [OF wf r top] n ok by simp
  qed (use dispatch ok r in simp_all)
qed

section \<open>The invariant is kept\<close>

lemma entry_wf: "vec_get (nodes p) k = Some n \<Longrightarrow> \<not> is_sample (Some n) \<Longrightarrow>
    wf_frame p \<lparr>frame_node = k, next_child = 0, iteration = it, mode = initial_mode r n\<rparr>"
  by (cases n) (auto simp: wf_frame_def initial_mode_def)

lemma push_frame_outcome:
  assumes "wf_runner (runner c)" and "root_started (runner c)" and "node_at (runner c) k = Some n"
    and "\<not> is_sample (Some n)"
  shows "\<exists>c'. push_frame k it c = (Ok (), c') \<and> wf_runner (runner c')"
  using assms entry_wf [of "nodes" for nodes]
  by (auto simp: push_frame_def update_runner_def wf_runner_def node_at_def intro!: entry_wf)

text \<open>A pass that fails changes nothing in the runner; a pass that succeeds keeps the invariant.\<close>

definition pass_outcome :: "controller_runner \<Rightarrow> (controller_error, 'a) result \<times> exec_ctx \<Rightarrow> bool" where
  "pass_outcome r out \<longleftrightarrow>
     (case out of
        (Err e, c) \<Rightarrow> (\<forall>k. e \<noteq> InvalidState k) \<and> runner c = r
      | (Ok _, c) \<Rightarrow> wf_runner (runner c))"

lemma pass_outcome_simps [simp]:
  "pass_outcome r (Err e, c) \<longleftrightarrow> (\<forall>k. e \<noteq> InvalidState k) \<and> runner c = r"
  "pass_outcome r (Ok x, c) \<longleftrightarrow> wf_runner (runner c)"
  by (simp_all add: pass_outcome_def)

lemma wf_root_node: "wf_runner r \<Longrightarrow> \<exists>n. node_at r (root (program r)) = Some n"
  by (simp add: wf_runner_def wf_program_def node_at_def)

lemma start_root_outcome:
  assumes "wf_runner (runner c)" and "\<not> root_started (runner c)"
  shows "pass_outcome (runner c) (start_root c)"
proof -
  let ?c = "c\<lparr>runner := (runner c)\<lparr>root_started := True\<rparr>\<rparr>"
  obtain n where n: "node_at (runner c) (root (program (runner c))) = Some n"
    using wf_root_node [OF assms(1)] by blast
  have wf: "wf_runner (runner ?c)" using assms by (simp add: wf_runner_def)
  show ?thesis
  proof (cases "is_sample (Some n)")
    case True
    then obtain i where i: "n = CSample i" using is_sample_cases by blast
    show ?thesis using n i assms
      by (auto simp: start_root_def reserve_sample_run_def reserve_sample_def and_then_def
          update_runner_def wf_runner_def split: option.split)
  next
    case False
    obtain c' where c': "push_frame (root (program (runner c))) 0 ?c = (Ok (), c')" "wf_runner (runner c')"
      using push_frame_outcome [OF wf, of "root (program (runner c))" n 0] n False by (auto simp: node_at_def)
    then show ?thesis using n False
      by (cases n) (simp_all add: start_root_def update_runner_def)
  qed
qed

lemma complete_root_outcome:
  assumes "wf_runner (runner c)"
  shows "pass_outcome (runner c) (complete_root c)"
  using assms wf_root_node [OF assms]
  by (auto simp: complete_root_def root_identity_def node_identity_def and_then_def ok_or_def
      update_runner_def wf_runner_def split: option.split)

lemma perform_action_outcome:
  assumes wf: "wf_runner r" and top: "stack r = stk @ [f]" and st: "root_started r"
    and act: "frame_action (length stk) c = (Ok action, c1)" and r: "runner c = r"
  shows "pass_outcome (runner c1) (perform_action (length stk) action c1) \<and>
    (is_ok (fst (perform_action (length stk) action c1)) \<or> runner c1 = r)"
proof -
  note out = frame_action_outcome [OF wf r top, unfolded act]
  show ?thesis
  proof (cases action)
    case (Select child)
    then have ch: "child < length (nodes (program r))" "program (runner c1) = program r"
        "root_started (runner c1)" "wf_runner (runner c1)"
      using out st by (simp_all add: action_outcome_def)
    then obtain n where n: "node_at (runner c1) child = Some n" by (simp add: node_at_def)
    show ?thesis
    proof (cases "is_sample (Some n)")
      case True
      then obtain i where i: "n = CSample i" using is_sample_cases by blast
      show ?thesis using Select n i ch(4) by (simp add: perform_action_def)
    next
      case False
      obtain c2 where "push_frame child 0 c1 = (Ok (), c2)" "wf_runner (runner c2)"
        using push_frame_outcome [OF ch(4,3) n False] by blast
      then show ?thesis using Select n False by (cases n) (simp_all add: perform_action_def)
    qed
  next
    case Finish
    then show ?thesis using out wf st by (auto simp: perform_action_def update_runner_def wf_runner_def top)
  next
    case AdvanceLoop
    then have "runner c1 = r" "\<exists>i cnt is. node_at r (frame_node f) = Some (CLoop i cnt is)"
      using out top by (auto simp: action_outcome_def)
    then show ?thesis using AdvanceLoop wf top st
      by (auto simp: perform_action_def advance_loop_def update_runner_def iteration_overflow_not_invalid
          wf_runner_def wf_frame_def node_at_def split: option.split)
  qed
qed

lemma select_iter_outcome:
  assumes wf: "wf_runner (runner c)"
  shows "pass_outcome (runner c) (select_iter c)"
proof (cases "terminal (runner c)")
  case (Some t)
  then show ?thesis using wf by (simp add: select_iter_def)
next
  case None
  obtain sres c1 where sp: "spend_step c = (sres, c1)" by fastforce
  have r: "runner c1 = runner c" "\<And>k. sres \<noteq> Err (InvalidState k)"
    using sp by (auto simp: spend_step_def spend_def split: if_splits option.splits)
  show ?thesis
  proof (cases sres)
    case (Inl e)
    then show ?thesis using None sp r by (simp add: select_iter_def)
  next
    case (Inr u)
    show ?thesis
    proof (cases "root_started (runner c) \<and> stack (runner c) \<noteq> []")
      case False
      then show ?thesis
        using None sp Inr r(1) start_root_outcome [of c1] complete_root_outcome [of c1] wf
        by (auto simp: select_iter_def)
    next
      case True
      then obtain stk f where top: "stack (runner c) = stk @ [f]" by (metis rev_exhaust)
      obtain act c2 where fa: "frame_action (length stk) c1 = (act, c2)" by fastforce
      have "pass_outcome (runner c) (and_then (frame_action (length stk)) (perform_action (length stk)) c1)"
      proof (cases act)
        case (Inl e)
        then show ?thesis using frame_action_outcome [OF wf r(1) top] fa by simp
      next
        case (Inr action)
        have "pass_outcome (runner c2) (perform_action (length stk) action c2) \<and>
            (is_ok (fst (perform_action (length stk) action c2)) \<or> runner c2 = runner c)"
          using True fa Inr r(1) by (intro perform_action_outcome [OF wf top, where c = c1]) auto
        then show ?thesis using fa Inr
          by (cases "perform_action (length stk) action c2"; cases "fst (perform_action (length stk) action c2)") auto
      qed
      then show ?thesis using None sp Inr r(1) True top by (simp add: select_iter_def Let_def)
    qed
  qed
qed

lemma select_loop_outcome:
  assumes "wf_runner (runner c)" and "select_loop c = (res, c')"
  shows "wf_runner (runner c') \<and> not_invalid res"
  using assms
proof (induction c rule: select_loop.induct)
  case (1 c)
  note out = select_iter_outcome [OF "1.prems"(1)]
  obtain ires c1 where it: "select_iter c = (ires, c1)" by fastforce
  show ?case
  proof (cases "ires = Ok None")
    case True
    then show ?thesis using 1 it out by (simp add: select_loop.simps [of c])
  next
    case False
    then show ?thesis using "1.prems" it out
      by (auto simp: select_loop.simps [of c] split: sum.splits option.splits)
  qed
qed

lemma rposition_Some: "rposition P xs = Some n \<Longrightarrow> n < length xs \<and> P (xs ! n)"
  by (induction xs arbitrary: n) (auto split: option.splits if_splits)

lemma apply_next_loop_outcome:
  assumes wf: "wf_runner (runner c)" and out: "apply_next_loop c = (res, c')"
  shows "wf_runner (runner c') \<and> not_invalid res \<and> (res = Err e \<longrightarrow> runner c' = runner c)"
proof (cases "finished (runner c)")
  case True
  then show ?thesis using wf out by (auto simp: apply_next_loop_def)
next
  case False
  let ?r = "runner c"
  show ?thesis
  proof (cases "rposition (\<lambda>f. is_loop (node_at ?r (frame_node f))) (stack ?r)")
    case None
    then show ?thesis using False out wf wf_root_node [OF wf]
      by (auto simp: apply_next_loop_def finish_root_early_def root_identity_def node_identity_def
          and_then_def ok_or_def update_runner_def wf_runner_def split: option.splits)
  next
    case (Some li)
    then have li: "li < length (stack ?r)" "is_loop (node_at ?r (frame_node (stack ?r ! li)))"
      using rposition_Some by fast+
    then obtain i cnt "is" where n: "node_at ?r (frame_node (stack ?r ! li)) = Some (CLoop i cnt is)"
      by (auto elim!: is_loop.elims)
    have all: "list_all (wf_frame (program ?r)) (take (Suc li) (stack ?r))"
      using wf by (auto simp: wf_runner_def list_all_iff dest: in_set_takeD)
    have "wf_frame (program ?r) ((stack ?r ! li)\<lparr>iteration := it, next_child := 0, mode := ModeOrdered\<rparr>)"
        "wf_frame (program ?r) ((stack ?r ! li)\<lparr>next_child := length is, mode := ModeOrdered\<rparr>)" for it
      using n by (simp_all add: wf_frame_def node_at_def)
    then have "wf_runner (rewind_loop li next is ?r)" for "next"
      using wf all li(1)
      by (auto simp: wf_runner_def rewind_loop_def Let_def list_all_length nth_list_update split: option.split)
    then show ?thesis using False Some li n out wf
      by (auto simp: apply_next_loop_def next_loop_iteration_def and_then_def ok_or_def update_runner_def
          split: loop_count.splits option.splits if_splits)
  qed
qed

section \<open>The compiler establishes the invariant\<close>

definition kids_below :: "nat \<Rightarrow> nat \<Rightarrow> compiled_node list \<Rightarrow> bool" where
  "kids_below lim sz ns \<longleftrightarrow>
     (\<forall>m \<in> set ns. \<forall>is. children_of m = Some is \<longrightarrow> (\<forall>k \<in> set is. k < lim) \<and> length is \<le> sz)"

lemma kids_below_mono: "kids_below a s ns \<Longrightarrow> a \<le> b \<Longrightarrow> s \<le> t \<Longrightarrow> kids_below b t ns"
  unfolding kids_below_def by (meson less_le_trans order_trans)

lemma kids_below_append [simp]: "kids_below a s (xs @ ys) \<longleftrightarrow> kids_below a s xs \<and> kids_below a s ys"
  by (auto simp: kids_below_def)

lemma layouts_below:
  assumes "list_all (\<lambda>c. enabled_unsupported c = []) cs"
    and "\<And>c b. c \<in> set cs \<Longrightarrow> kids_below (b + length (layout b c)) (node_count c) (layout b c)"
    and "layouts b cs = (out, is)"
  shows "kids_below (b + length out) (sum_list (map node_count cs)) out \<and> (\<forall>k \<in> set is. k < b + length out)"
  using assms
proof (induction cs arbitrary: b out "is")
  case Nil
  then show ?case by (simp add: kids_below_def)
next
  case (Cons c cs)
  obtain o2 is2 where l2: "layouts (b + length (layout b c)) cs = (o2, is2)" by fastforce
  have eq: "out = layout b c @ o2" "is = (b + length (layout b c) - 1) # is2"
    using Cons.prems(3) l2 by (simp_all add: Let_def)
  have ih: "kids_below (b + length (layout b c) + length o2) (sum_list (map node_count cs)) o2 \<and>
      (\<forall>k \<in> set is2. k < b + length (layout b c) + length o2)"
    using Cons.prems(1,2) l2 by (intro Cons.IH) auto
  have "layout b c \<noteq> []" using layout_nonempty Cons.prems(1) by simp
  then have "b + length (layout b c) - 1 < b + length out" using eq(1) by (cases "layout b c") simp_all
  moreover have "kids_below (b + length (layout b c)) (node_count c) (layout b c)"
    using Cons.prems(2) by simp
  ultimately show ?case using ih eq by (auto elim!: kids_below_mono simp: add.assoc)
qed

lemma layout_below:
  "enabled_unsupported n = [] \<Longrightarrow> kids_below (b + length (layout b n)) (node_count n) (layout b n)"
proof (induction n arbitrary: b rule: measure_induct_rule [of node_count])
  case (less n)
  show ?case
  proof (cases n rule: node_cases)
    case (Branch cs)
    obtain out "is" where out: "layouts b cs = (out, is)" by fastforce
    have below: "kids_below (b + length out) (sum_list (map node_count cs)) out \<and> (\<forall>k \<in> set is. k < b + length out)"
    proof (rule layouts_below [OF branch_supported [OF Branch less.prems] _ out])
      fix c b assume "c \<in> set cs"
      then show "kids_below (b + length (layout b c)) (node_count c) (layout b c)"
        using less.IH branch_children_smaller [OF Branch] branch_supported [OF Branch less.prems]
        by (simp add: list_all_iff)
    qed
    have n: "node_count n = Suc (sum_list (map node_count cs))" "children_of (the (build_node n is)) = Some is"
      using Branch by (cases n; simp add: branch_def)+
    have "length is \<le> node_count n"
      using n(1) out length_layouts [of b cs] length_le_node_counts [of cs] by simp
    then show ?thesis
      using below n layout_branch [OF Branch out]
      by (auto elim!: kids_below_mono) (auto simp: kids_below_def)
  qed (use less.prems in \<open>auto simp: kids_below_def enabled_unsupported.simps\<close>)
qed

lemma compile_wf:
  assumes "limits_new mn md = Ok limits" and "compile_with_limits n limits = Ok p"
  shows "wf_program p"
proof -
  note ok = compile_OkD [OF assms]
  have "kids_below (length (layout 0 n)) (node_count n) (layout 0 n)"
    using layout_below [of n 0] ok(1) by (simp add: admissible_def)
  moreover have "node_count n \<le> usize_max"
    using ok(1) limits_new_fit [OF assms(1)] by (simp add: admissible_def limits_fit_def)
  moreover have "layout 0 n \<noteq> []" using ok(1) layout_nonempty by (simp add: admissible_def)
  ultimately show ?thesis
    unfolding ok(3) wf_program_def by (auto simp: kids_below_def dest: le_trans)
qed

section \<open>Reachable runners\<close>

inductive runner_reachable :: "controller_program \<Rightarrow> controller_runner \<Rightarrow> bool" for p where
  reach_fresh: "runner_reachable p (from_program p)"
| reach_step: "runner_reachable p (runner c) \<Longrightarrow> step_with_signal s c = (res, c') \<Longrightarrow>
    runner_reachable p (runner c')"
| reach_run_step: "runner_reachable p (runner c) \<Longrightarrow> step_with_run_budget s c = (res, c') \<Longrightarrow>
    runner_reachable p (runner c')"
| reach_next_root: "runner_reachable p r \<Longrightarrow> runner_reachable p (snd (next_root_iteration r))"
| reach_reset: "runner_reachable p r \<Longrightarrow> runner_reachable p (runner_reset r)"

definition step_sound :: "'a run \<Rightarrow> bool" where
  "step_sound m \<longleftrightarrow> (\<forall>c. wf_runner (runner c) \<longrightarrow>
     wf_runner (runner (snd (m c))) \<and> not_invalid (fst (m c)))"

named_theorems sound_intros \<open>routines that keep the invariant and never report an invalid state\<close>

lemma sound_return_ok [sound_intros]: "step_sound (return_ok x)"
  by (simp add: step_sound_def)

lemma sound_reading [sound_intros]: "(\<And>c. step_sound (f c)) \<Longrightarrow> step_sound (reading f)"
  by (simp add: step_sound_def)

lemma sound_and_then [sound_intros]:
  assumes "step_sound m" and "\<And>x. step_sound (f x)"
  shows "step_sound (and_then m f)"
  unfolding step_sound_def
proof (intro allI impI)
  fix c :: exec_ctx
  assume wf: "wf_runner (runner c)"
  obtain res c1 where m: "m c = (res, c1)" by fastforce
  then have "wf_runner (runner c1) \<and> not_invalid res"
    using assms(1) wf by (metis fst_conv snd_conv step_sound_def)
  then show "wf_runner (runner (snd (and_then m f c))) \<and> not_invalid (fst (and_then m f c))"
    using m assms(2) by (cases res) (auto simp: step_sound_def)
qed

lemma sound_spend_step [sound_intros]: "step_sound spend_step"
  by (auto simp: step_sound_def spend_step_def spend_def split: option.split)

lemma sound_apply_next_loop [sound_intros]: "step_sound apply_next_loop"
  unfolding step_sound_def using apply_next_loop_outcome [OF _ surjective_pairing] by blast

lemma sound_set_terminal [sound_intros]: "step_sound (set_terminal t)"
  by (simp add: step_sound_def set_terminal_def update_runner_def wf_runner_def)

lemma sound_select_loop [sound_intros]: "step_sound select_loop"
  unfolding step_sound_def using select_loop_outcome [OF _ surjective_pairing] by blast

lemma sound_select_next_sample [sound_intros]: "step_sound select_next_with_sample_budget"
  unfolding select_next_with_sample_budget_def by (auto intro!: sound_intros)

lemma sound_select_next [sound_intros]: "step_sound select_next"
  using sound_select_next_sample by (simp add: step_sound_def select_next_def split_def)

lemma sound_signalled [sound_intros]: "step_sound select \<Longrightarrow> step_sound (signalled s select)"
  unfolding signalled_def by (auto intro!: sound_intros split: option.split)

lemma sound_steps: "step_sound (step_with_signal s)" "step_sound (step_with_run_budget s)"
  unfolding step_with_signal_def step_with_run_budget_def by (intro sound_intros)+

lemma runner_reachable_wf:
  assumes "runner_reachable p r" and "wf_program p"
  shows "wf_runner r"
  using assms
proof (induction rule: runner_reachable.induct)
  case (reach_step c s res c')
  then show ?case using sound_steps(1) [of s] by (metis snd_conv step_sound_def)
next
  case (reach_run_step c s res c')
  then show ?case using sound_steps(2) [of s] by (metis snd_conv step_sound_def)
qed (auto intro: wf_from_program wf_next_root_iteration wf_reset)

text \<open>C4: Whatever sequence of steps, signals, resets and root iterations a runner of a compiled
  program has gone through, with whatever budgets, its frames are well-formed and no step on it
  ever reports an invalid state: the node table is never read out of range and no frame is in a
  mode its controller does not have.\<close>

theorem reachable_runner_never_invalid:
  assumes "limits_new mn md = Ok limits" and "compile_with_limits n limits = Ok p"
    and "runner_reachable p (runner c)"
  shows "wf_runner (runner c) \<and> fst (step_with_signal s c) \<noteq> Err (InvalidState k) \<and>
    fst (step_with_run_budget s c) \<noteq> Err (InvalidState k)"
proof -
  have "wf_runner (runner c)" using runner_reachable_wf [OF assms(3) compile_wf [OF assms(1,2)]] .
  then show ?thesis using sound_steps [of s] by (simp add: step_sound_def not_invalid_def)
qed

theorem reachable_runner_never_invalid_witness:
  "\<exists>p. compile_with_limits example_plan \<lparr>max_nodes = 9, max_depth = 3\<rparr> = Ok p \<and>
     wf_runner (from_program p) \<and>
     fst (step_with_signal NextLoop \<lparr>runner = from_program p, budget = step_budget_new 3,
       run_bud = run_budget_new 1 1\<rparr>) \<noteq> Err (InvalidState 0)"
  using reachable_runner_never_invalid [OF example_plan_compiles, where s = NextLoop and k = 0
      and c = "\<lparr>runner = from_program _, budget = step_budget_new 3, run_bud = run_budget_new 1 1\<rparr>"]
    reach_fresh example_plan_compiles(2)
  by simp

text \<open>C5: A pass of the selection loop that fails, for lack of step budget or sample budget or by a
  counter overflow, leaves the runner exactly as it was (random streams are rolled back, no frame
  moves, no cursor advances), so the call can be repeated.\<close>

theorem failed_pass_leaves_runner:
  assumes "wf_runner (runner c)" and "select_iter c = (Err e, c')"
  shows "runner c' = runner c"
  using select_iter_outcome [OF assms(1)] assms(2) by simp

theorem failed_pass_leaves_runner_witness:
  "let r = (from_program \<lparr>nodes = [CSample 7], root = 0\<rparr>);
       c = \<lparr>runner = r, budget = step_budget_new 3, run_bud = run_budget_new 0 9\<rparr>
   in fst (select_iter c) = Err (SampleBudgetExhausted 0 0) \<and> runner (snd (select_iter c)) = r"
proof -
  let ?r = "from_program \<lparr>nodes = [CSample 7], root = 0\<rparr>"
  let ?c = "\<lparr>runner = ?r, budget = step_budget_new 3, run_bud = run_budget_new 0 9\<rparr>"
  have wf: "wf_runner (runner ?c)" by (simp add: wf_runner_def wf_program_def from_program_def)
  have "fst (select_iter ?c) = Err (SampleBudgetExhausted 0 0)"
    by (simp add: select_iter_def spend_step_def spend_def from_program_def step_budget_new_def
        usize_max_def start_root_def node_at_def reserve_sample_run_def reserve_sample_def
        run_budget_new_def)
  moreover from this have "runner (snd (select_iter ?c)) = runner ?c"
    using failed_pass_leaves_runner [OF wf, of "SampleBudgetExhausted 0 0" "snd (select_iter ?c)"]
    by (metis prod.collapse)
  ultimately show ?thesis by (simp add: Let_def)
qed

end
