(* ===== verification/Controller_Budget.thy ===== *)
theory Controller_Budget
  imports Controller_Invariant "HOL-Library.Code_Target_Nat"
begin

text \<open>
  Budgets and signals of the runner: a run never spends more than its budgets, the number of
  samples it reports is the number it reserved, stop signals are sticky and only ever get more
  severe, and \<open>NextLoop\<close> through a shared cancellation.
\<close>

section \<open>Sample accounting\<close>

definition sample_cost :: "controller_runner \<Rightarrow> frame_action \<Rightarrow> nat" where
  "sample_cost r act =
     (case act of Select ch \<Rightarrow> if is_sample (node_at r ch) then 1 else 0 | _ \<Rightarrow> 0)"

lemma reserve_child_sample_emitted:
  "reserve_child_sample ch c = (Ok u, c1) \<Longrightarrow>
     emitted (run_bud c1) = emitted (run_bud c) + sample_cost (runner c) (Select ch)"
  by (auto simp: reserve_child_sample_def reserve_sample_run_def reserve_sample_def sample_cost_def
      split: if_splits option.splits)

lemma advance_child_run_bud: "advance_child fi c = (Ok u, c1) \<Longrightarrow> run_bud c1 = run_bud c"
  by (auto simp: advance_child_def update_runner_def split: option.splits)

lemma random_index_run_bud: "random_index i seed bound c = (res, c1) \<Longrightarrow> run_bud c1 = run_bud c"
  by (auto simp: random_index_def Let_def update_runner_def split: if_splits prod.splits)

lemma on_error_eq_Ok: "on_error m undo c = (Ok x, c1) \<longleftrightarrow> m c = (Ok x, c1)"
  by (auto simp: on_error_def split: prod.splits sum.splits)

lemma shuffle_loop_run_bud: "shuffle_loop i seed prev p order c = (Ok ys, c1) \<Longrightarrow> run_bud c1 = run_bud c"
proof (induction p arbitrary: order c)
  case (Suc p)
  then show ?case by (auto simp: and_then_eq_Ok on_error_eq_Ok) (metis random_index_run_bud)
qed simp

lemma stream_variant_sample_cost: "stream_variant i r r' \<Longrightarrow> sample_cost r' act = sample_cost r act"
  using stream_variant_simps(4) by (auto simp: sample_cost_def split: frame_action.split)

lemma select_child_emitted:
  "select_child fi ch c = (Ok act, c1) \<Longrightarrow> act = Select ch \<and>
     emitted (run_bud c1) = emitted (run_bud c) + sample_cost (runner c) act"
  by (auto simp: select_child_def and_then_eq_Ok dest!: reserve_child_sample_emitted advance_child_run_bud)

lemma ordered_action_emitted:
  "ordered_action fi k j c = (Ok act, c1) \<Longrightarrow>
     emitted (run_bud c1) = emitted (run_bud c) + sample_cost (runner c) act"
  by (auto simp: ordered_action_def and_then_eq_Ok sample_cost_def split: option.splits dest!: select_child_emitted)

lemma loop_action_emitted:
  "loop_action fi k j it cnt c = (Ok act, c1) \<Longrightarrow>
     emitted (run_bud c1) = emitted (run_bud c) + sample_cost (runner c) act"
  by (auto simp: loop_action_def and_then_eq_Ok sample_cost_def
      split: option.splits loop_count.splits if_splits dest!: select_child_emitted)

lemma interleave_action_emitted:
  "interleave_action fi k st i c = (Ok act, c1) \<Longrightarrow>
     emitted (run_bud c1) = emitted (run_bud c) + sample_cost (runner c) act"
  by (auto simp: interleave_action_def and_then_eq_Ok sample_cost_def set_mode_def update_runner_def Let_def
      split: if_splits frame_state.splits option.splits dest!: reserve_child_sample_emitted)

lemma reserve_after_stream:
  assumes "run_bud c2 = run_bud c" and "stream_variant i (runner c) (runner c2)"
    and "reserve_child_sample ch c2 = (Ok u, c3)"
  shows "emitted (run_bud c3) = emitted (run_bud c) + sample_cost (runner c) (Select ch)"
  using reserve_child_sample_emitted [OF assms(3)] stream_variant_sample_cost [OF assms(2)] assms(1) by simp

lemma random_action_emitted:
  assumes "random_action fi k st i seed c = (Ok act, c1)"
  shows "emitted (run_bud c1) = emitted (run_bud c) + sample_cost (runner c) act"
proof (cases "act = Finish")
  case True
  then show ?thesis using assms
    by (auto simp: random_action_def and_then_eq_Ok set_mode_def sample_cost_def Let_def
        split: if_splits frame_state.splits option.splits)
next
  case False
  then obtain bound y c2 ch u c3 where "random_index i seed bound c = (Ok y, c2)"
      and "reserve_child_sample ch c2 = (Ok u, c3)" and "run_bud c1 = run_bud c3" and "act = Select ch"
    using assms
    by (auto simp: random_action_def and_then_eq_Ok on_error_eq_Ok set_mode_def update_runner_def Let_def
        split: if_splits frame_state.splits option.splits)
  then show ?thesis
    using reserve_after_stream [OF random_index_run_bud random_index_outcome(3)] by simp
qed

lemma generate_order_emitted:
  assumes r: "runner c = r" and top: "stack r = stk @ [f]" and ne: "is \<noteq> []"
    and out: "generate_order (length stk) is i seed c = (Ok u, c1)"
  shows "\<exists>order. order \<noteq> [] \<and> stack (runner c1) = stk @ [f\<lparr>mode := ModeRandomOrder (Some order)\<rparr>] \<and>
    emitted (run_bud c1) = emitted (run_bud c) + sample_cost r (Select (order ! 0))"
proof -
  obtain order c2 where sh: "shuffle_loop i seed (random_states r i) (length is - 1) is c = (Ok order, c2)"
    using out by (auto simp: generate_order_def Let_def and_then_eq_Ok r)
  have so: "stream_variant i r (runner c2)" "mset order = mset is"
    using shuffle_loop_outcome [OF _ _ sh] stream_variant_refl [of i r] r ne by simp_all
  then have ne': "order \<noteq> []" using ne by auto
  then obtain v c3 where rs: "reserve_child_sample (order ! 0) c2 = (Ok v, c3)"
      and c1: "set_mode (length stk) (ModeRandomOrder (Some order)) c3 = (Ok u, c1)"
    using out sh by (auto simp: generate_order_def Let_def and_then_eq_Ok on_error_eq_Ok r)
  have "emitted (run_bud c3) = emitted (run_bud c) + sample_cost r (Select (order ! 0))"
    using reserve_after_stream [OF shuffle_loop_run_bud [OF sh] _ rs] so(1) r by simp
  moreover have "stack (runner c3) = stk @ [f]"
    using reserve_child_sample_outcome(1) [OF rs] stream_variant_simps(2) [OF so(1)] top by simp
  ultimately show ?thesis using c1 ne' by (auto simp: set_mode_def update_runner_def)
qed

lemma random_order_action_emitted:
  assumes r: "runner c = r" and top: "stack r = stk @ [f]" and ok: "mode_ok (CRandomOrder i seed is) f"
    and n: "node_at r (frame_node f) = Some (CRandomOrder i seed is)"
    and out: "random_order_action (length stk) (frame_node f) (next_child f) (frame_state_of f) i seed c = (Ok act, c1)"
  shows "emitted (run_bud c1) = emitted (run_bud c) + sample_cost r act"
proof -
  note kids = compiled_children_at [OF n, of "is"]
  obtain ord where m: "mode f = ModeRandomOrder ord" using ok by (auto split: frame_mode.splits)
  show ?thesis
  proof (cases "is = []")
    case True
    then show ?thesis using out kids r by (auto simp: random_order_action_def sample_cost_def)
  next
    case ne: False
    show ?thesis
    proof (cases ord)
      case None
      then have j: "next_child f = 0" using ok m by simp
      obtain u c2 where g: "generate_order (length stk) is i seed c = (Ok u, c2)"
        using out kids r m None ne by (auto simp: random_order_action_def frame_state_of_def and_then_eq_Ok)
      obtain order where order: "order \<noteq> []" "stack (runner c2) = stk @ [f\<lparr>mode := ModeRandomOrder (Some order)\<rparr>]"
          "emitted (run_bud c2) = emitted (run_bud c) + sample_cost r (Select (order ! 0))"
        using generate_order_emitted [OF r top ne g] by blast
      then show ?thesis using out kids r m None ne g j
        by (auto simp: random_order_action_def frame_state_of_def stored_order_child_def and_then_eq_Ok
            dest!: advance_child_run_bud)
    next
      case (Some order)
      then show ?thesis using out kids r m ne top
        by (auto simp: random_order_action_def frame_state_of_def stored_order_child_def and_then_eq_Ok
            sample_cost_def split: option.splits dest!: advance_child_run_bud reserve_child_sample_emitted)
    qed
  qed
qed

lemma frame_action_emitted:
  assumes wf: "wf_runner (runner c)" and top: "stack (runner c) = stk @ [f]"
    and out: "frame_action (length stk) c = (Ok act, c1)"
  shows "emitted (run_bud c1) = emitted (run_bud c) + sample_cost (runner c) act"
proof -
  obtain n where n: "node_at (runner c) (frame_node f) = Some n" and ok: "mode_ok n f" using wf_top [OF wf top] .
  show ?thesis
    using out n ok top
      ordered_action_emitted loop_action_emitted interleave_action_emitted random_action_emitted
      random_order_action_emitted [OF refl top]
    by (cases n)
      (auto simp: frame_action_def compiled_node_kind_def Let_def once_action_def sample_cost_def
        split: if_splits)
qed

lemma push_frame_run_bud: "push_frame k it c = (res, c1) \<Longrightarrow> run_bud c1 = run_bud c"
  by (auto simp: push_frame_def update_runner_def split: option.splits)

lemma perform_action_emitted:
  assumes "perform_action fi act c = (Ok res, c1)"
  shows "run_bud c1 = run_bud c \<and> sample_cost (runner c) act = (if emits res then 1 else 0)"
  using assms
  by (auto simp: perform_action_def advance_loop_def sample_cost_def and_then_eq_Ok update_runner_def
      split: frame_action.splits option.splits compiled_node.splits dest!: push_frame_run_bud)

lemma start_root_emitted:
  "start_root c = (Ok res, c1) \<Longrightarrow> emitted (run_bud c1) = emitted (run_bud c) + (if emits res then 1 else 0)"
  by (auto simp: start_root_def and_then_eq_Ok update_runner_def reserve_sample_run_def reserve_sample_def
      split: option.splits compiled_node.splits if_splits dest!: push_frame_run_bud)

lemma complete_root_emitted: "complete_root c = (Ok res, c1) \<Longrightarrow> run_bud c1 = run_bud c \<and> res = Some Complete"
  by (auto simp: complete_root_def and_then_eq_Ok update_runner_def)

lemma spend_step_run_bud: "spend_step c = (res, c1) \<Longrightarrow> run_bud c1 = run_bud c \<and> runner c1 = runner c"
  by (auto simp: spend_step_def split: prod.splits)

lemma select_iter_emitted:
  assumes wf: "wf_runner (runner c)" and out: "select_iter c = (Ok res, c1)"
  shows "emitted (run_bud c1) = emitted (run_bud c) + (if emits res then 1 else 0)"
proof (cases "terminal (runner c)")
  case (Some t)
  then show ?thesis using out by (auto simp: select_iter_def)
next
  case None
  then obtain u c2 where sp: "spend_step c = (Ok u, c2)" using out by (auto simp: select_iter_def and_then_eq_Ok)
  note s2 = spend_step_run_bud [OF sp]
  show ?thesis
  proof (cases "root_started (runner c) \<and> stack (runner c) \<noteq> []")
    case False
    then show ?thesis using out None sp s2
      by (auto simp: select_iter_def split: if_splits dest!: start_root_emitted complete_root_emitted)
  next
    case True
    then obtain stk f where top: "stack (runner c) = stk @ [f]" by (metis rev_exhaust)
    have "and_then (frame_action (length stk)) (perform_action (length stk)) c2 = (Ok res, c1)"
      using out None sp s2 True top by (simp add: select_iter_def Let_def)
    then obtain act c3 where fa: "frame_action (length stk) c2 = (Ok act, c3)"
        and pa: "perform_action (length stk) act c3 = (Ok res, c1)"
      by (auto simp: and_then_eq_Ok)
    have "program (runner c3) = program (runner c)"
      using keepsD [OF keeps_frame_action fa] s2 by (simp add: advances_def)
    then have "sample_cost (runner c3) act = sample_cost (runner c) act"
      by (simp add: sample_cost_def node_at_def split: frame_action.split)
    then show ?thesis
      using frame_action_emitted [of c2 stk f, OF _ _ fa] wf top s2 perform_action_emitted [OF pa] by simp
  qed
qed

lemma select_loop_emitted:
  assumes "wf_runner (runner c)" and "select_loop c = (Ok res, c')"
  shows "emitted (run_bud c') = emitted (run_bud c) + (if emits (Some res) then 1 else 0)"
  using assms
proof (induction c rule: select_loop.induct)
  case (1 c)
  obtain ires c1 where it: "select_iter c = (ires, c1)" by fastforce
  note wf = select_iter_outcome [OF "1.prems"(1)]
  show ?case
  proof (cases "ires = Ok None")
    case True
    then have "emitted (run_bud c') = emitted (run_bud c1) + (if emits (Some res) then 1 else 0)"
      using 1 it wf by (simp add: select_loop.simps [of c])
    then show ?thesis using select_iter_emitted [of c None c1] True it "1.prems"(1) by simp
  next
    case False
    then have "ires = Ok (Some res)" "c1 = c'"
      using "1.prems"(2) it by (auto simp: select_loop.simps [of c] split: sum.splits option.splits)
    then show ?thesis using select_iter_emitted [of c "Some res" c1] it "1.prems"(1) by simp
  qed
qed

section \<open>Bounded runs stay within their budgets\<close>

lemma apply_next_loop_run_bud: "apply_next_loop c = (res, c1) \<Longrightarrow> run_bud c1 = run_bud c"
  by (auto simp: apply_next_loop_def finish_root_early_def and_then_def update_runner_def
      split: if_splits option.splits compiled_node.splits sum.splits)

lemma step_with_run_budget_emitted:
  assumes wf: "wf_runner (runner c)" and out: "step_with_run_budget s c = (Ok res, c')"
  shows "emitted (run_bud c') = emitted (run_bud c) + (if emits (Some res) then 1 else 0)"
proof -
  have sel: "emitted (run_bud c') = emitted (run_bud d) + (if emits (Some res) then 1 else 0)"
    if "select_next_with_sample_budget d = (Ok res, c')" "wf_runner (runner d)" for d
    using that select_loop_emitted [of d res c'] by (auto simp: select_next_with_sample_budget_def split: if_splits)
  have pre: "run_bud d = run_bud c \<and> wf_runner (runner d)"
    if prep: "(if finished (runner c) then return_ok () else and_then spend_step (\<lambda>_. apply_next_loop)) c = (Ok u, d)" for u d
  proof (cases "finished (runner c)")
    case True
    then show ?thesis using prep wf by simp
  next
    case False
    then obtain v c1 where sp: "spend_step c = (Ok v, c1)" and ap: "apply_next_loop c1 = (Ok u, d)"
      using prep by (auto simp: and_then_eq_Ok)
    then have "run_bud c1 = run_bud c" "wf_runner (runner c1)" using wf spend_step_run_bud [OF sp] by simp_all
    then show ?thesis using apply_next_loop_run_bud [OF ap] apply_next_loop_outcome [OF _ ap] by simp
  qed
  show ?thesis
  proof (cases "terminal (runner c)")
    case (Some t)
    then show ?thesis using out
      by (cases "is_stop s")
        (simp_all add: step_with_run_budget_def signalled_def set_terminal_def update_runner_def, force+)
  next
    case None
    consider "is_stop s" | "s = NextLoop" | "s = Continue" by (cases s) simp_all
    then show ?thesis
    proof cases
      case 1
      then obtain u c1 where sp: "spend_step c = (Ok u, c1)"
          and "and_then (set_terminal s) (\<lambda>_. return_ok (Stopped s)) c1 = (Ok res, c')"
        using out None by (auto simp: step_with_run_budget_def signalled_def and_then_eq_Ok)
      then show ?thesis using spend_step_run_bud [OF sp]
        by (auto simp: set_terminal_def update_runner_def)
    next
      case 2
      then obtain u d where pr: "(if finished (runner c) then return_ok () else and_then spend_step (\<lambda>_. apply_next_loop)) c = (Ok u, d)"
          and fin: "(if finished (runner d) then return_ok Complete else select_next_with_sample_budget) d = (Ok res, c')"
        using out None by (simp add: step_with_run_budget_def signalled_def and_then_eq_Ok [of "if _ then _ else _"]) blast
      show ?thesis using pre [OF pr] sel [of d] fin by (cases "finished (runner d)") auto
    next
      case 3
      then show ?thesis using out None sel [of c] wf by (simp add: step_with_run_budget_def signalled_def)
    qed
  qed
qed

lemma run_loop_bounds:
  assumes "run_loop s acc r rb = (res, r', rb')"
    and "transitions rb \<le> max_transitions rb" and "emitted rb \<le> max_samples rb"
  shows "max_transitions rb' = max_transitions rb \<and> max_samples rb' = max_samples rb \<and>
    transitions rb' \<le> max_transitions rb \<and> emitted rb' \<le> max_samples rb"
  using assms
proof (induction s acc r rb rule: run_loop.induct)
  case (1 s acc r rb)
  show ?case
  proof (cases "next_step_budget rb")
    case (Inl e)
    then show ?thesis using 1 by (simp add: run_loop.simps [of s acc r rb])
  next
    case (Inr sb)
    obtain out c where st: "step_with_run_budget s \<lparr>runner = r, budget = sb, run_bud = rb\<rparr> = (out, c)" by fastforce
    have adv: "limit (budget c) = limit sb" "used (budget c) \<le> limit sb" "transitions (run_bud c) = transitions rb"
        "max_transitions (run_bud c) = max_transitions rb" "max_samples (run_bud c) = max_samples rb"
        "emitted (run_bud c) \<le> max_samples rb"
      using keepsD [OF steps_step_with_run_budget st] Inr "1.prems"(3)
      by (auto simp: steps_from_def advances_def update_runner_def next_step_budget_def step_budget_new_def
          split: if_splits)
    have lim: "limit sb = max_transitions rb - transitions rb"
      using Inr by (auto simp: next_step_budget_def step_budget_new_def split: if_splits)
    obtain rres rb1 where rs: "record_step (budget c) (run_bud c) = (rres, rb1)" by fastforce
    have rb1: "max_transitions rb1 = max_transitions rb" "max_samples rb1 = max_samples rb"
        "transitions rb1 \<le> max_transitions rb" "emitted rb1 \<le> max_samples rb"
      using rs adv lim "1.prems"(2) by (auto simp: record_step_def split: option.splits)
    show ?thesis
    proof (cases "\<exists>x. out = Ok (StepSample x) \<and> is_ok rres")
      case True
      then obtain x u where x: "out = Ok (StepSample x)" "rres = Ok u" by (cases rres) auto
      then have "run_loop Continue (acc @ [x]) (runner c) rb1 = (res, r', rb')"
        using "1.prems"(1) Inr st rs by (simp add: run_loop.simps [of s acc r rb])
      then show ?thesis using "1.IH" [OF Inr st [symmetric] rs [symmetric] x(2) x(1)] rb1 x by fastforce
    next
      case False
      then show ?thesis using "1.prems"(1) Inr st rs rb1
        by (cases rres) (auto simp: run_loop.simps [of s acc r rb] split: sum.splits controller_step.splits)
    qed
  qed
qed

lemma run_loop_samples:
  assumes "run_loop s acc r rb = (Ok tr, r', rb')" and "wf_runner r"
  shows "length (samples tr) + emitted rb = length acc + emitted rb'"
  using assms
proof (induction s acc r rb rule: run_loop.induct)
  case (1 s acc r rb)
  obtain sb where sb: "next_step_budget rb = Ok sb"
    using "1.prems"(1) by (auto simp: run_loop.simps [of s acc r rb] split: sum.splits)
  let ?c = "\<lparr>runner = r, budget = sb, run_bud = rb\<rparr>"
  obtain out c where st: "step_with_run_budget s ?c = (out, c)" by fastforce
  obtain rres rb1 where rs: "record_step (budget c) (run_bud c) = (rres, rb1)" by fastforce
  obtain u res where ok: "rres = Ok u" "out = Ok res"
    using "1.prems"(1) sb st rs by (auto simp: run_loop.simps [of s acc r rb] split: sum.splits)
  have "emitted rb1 = emitted (run_bud c)" using rs ok(1) by (auto simp: record_step_def split: option.splits)
  then have em: "emitted rb1 = emitted rb + (if emits (Some res) then 1 else 0)"
    using step_with_run_budget_emitted [of ?c s res c] st ok(2) "1.prems"(2) by simp
  have wf: "wf_runner (runner c)" using sound_steps(2) [of s] "1.prems"(2) st
    by (metis exec_ctx.select_convs(1) snd_conv step_sound_def)
  show ?case
  proof (cases "\<exists>x. res = StepSample x")
    case True
    then obtain x where x: "res = StepSample x" by blast
    then have "run_loop Continue (acc @ [x]) (runner c) rb1 = (Ok tr, r', rb')"
      using "1.prems"(1) sb st rs ok by (simp add: run_loop.simps [of s acc r rb])
    then show ?thesis using "1.IH" [OF sb st [symmetric] rs [symmetric] ok(1) ok(2) x] wf em x by simp
  next
    case False
    then show ?thesis using "1.prems"(1) sb st rs ok em
      by (cases res) (auto simp: run_loop.simps [of s acc r rb])
  qed
qed

text \<open>C7: A bounded run always returns (the loop is a total function), and whatever it returns it
  has spent at most the transitions and emitted at most the samples of its budget; the number of
  samples of a returned trace is exactly the number of samples charged to the budget.\<close>

theorem run_stays_within_budget:
  assumes "wf_runner r" and "run_to_completion_with_signal s r (run_budget_new ms mt) = (res, r', rb)"
  shows "transitions rb \<le> mt \<and> emitted rb \<le> ms \<and>
    (\<forall>tr. res = Ok tr \<longrightarrow> length (samples tr) = emitted rb)"
  using run_loop_bounds [of s "[]" r "run_budget_new ms mt" res r' rb]
    run_loop_samples [of s "[]" r "run_budget_new ms mt" _ r' rb] assms
  by (auto simp: run_to_completion_with_signal_def run_budget_new_def)

definition endless_plan :: controller_program where
  "endless_plan = \<lparr>nodes = [CSample 2, CLoop 1 Forever [0]], root = 1\<rparr>"

lemma endless_plan_wf: "wf_runner (from_program endless_plan)"
  by (simp add: wf_runner_def wf_program_def from_program_def endless_plan_def usize_max_def)

theorem run_stays_within_budget_witness:
  "let out = run_to_completion_with_signal Continue (from_program endless_plan) (run_budget_new 2 50)
   in fst out = Err (SampleBudgetExhausted 2 2) \<and> transitions (snd (snd out)) = 6 \<and> emitted (snd (snd out)) \<le> 2"
proof -
  let ?out = "run_to_completion_with_signal Continue (from_program endless_plan) (run_budget_new 2 50)"
  have "fst ?out = Err (SampleBudgetExhausted 2 2) \<and> transitions (snd (snd ?out)) = 6" by code_simp
  moreover have "emitted (snd (snd ?out)) \<le> 2"
    using run_stays_within_budget [OF endless_plan_wf, of Continue 2 50 "fst ?out" "fst (snd ?out)" "snd (snd ?out)"]
    by simp
  ultimately show ?thesis by (simp add: Let_def)
qed

section \<open>Stop signals\<close>

text \<open>A caller that steps the runner with a sequence of signals, and sees every outcome.\<close>

fun step_seq :: "control_signal list \<Rightarrow> exec_ctx \<Rightarrow> (controller_error, controller_step) result list \<times> exec_ctx" where
  "step_seq [] c = ([], c)"
| "step_seq (s # ss) c =
     (case step_with_signal s c of (res, c1) \<Rightarrow>
        (case step_seq ss c1 of (outs, c2) \<Rightarrow> (res # outs, c2)))"

fun stop_levels :: "control_signal \<Rightarrow> control_signal list \<Rightarrow> control_signal list" where
  "stop_levels t [] = []"
| "stop_levels t (s # ss) = (let t' = (if is_stop s then max t s else t) in t' # stop_levels t' ss)"

lemma step_after_stop:
  assumes "terminal (runner c) = Some t"
  shows "step_with_signal s c =
    (let t' = (if is_stop s then max t s else t) in
     (Ok (Stopped t'), c\<lparr>runner := (runner c)\<lparr>terminal := Some t'\<rparr>\<rparr>))"
  using assms
  by (auto simp: step_with_signal_def signalled_def set_terminal_def update_runner_def combine_eq_max Let_def)

lemma stop_levels_ge: "x \<in> set (stop_levels t ss) \<Longrightarrow> t \<le> x"
  by (induction ss arbitrary: t) (fastforce simp: Let_def split: if_splits)+

lemma stop_levels_sorted: "sorted (stop_levels t ss)"
  by (induction ss arbitrary: t) (auto simp: Let_def dest: stop_levels_ge)

lemma step_seq_after_stop:
  "terminal (runner c) = Some t \<Longrightarrow>
     fst (step_seq ss c) = map (\<lambda>t. Ok (Stopped t)) (stop_levels t ss) \<and>
     budget (snd (step_seq ss c)) = budget c"
  by (induction ss arbitrary: c t) (simp_all add: step_after_stop Let_def split_def)

text \<open>C29: A stop request is terminal and monotonic: from the step that accepts it on, every step
  of the runner answers \<open>Stopped\<close>, no sampler is selected any more, the reported signal is the
  most severe one requested so far and never decreases, and only the accepting step consumes
  budget.\<close>

theorem stop_is_sticky:
  assumes "is_stop s" and "terminal (runner c) = None"
    and "used (budget c) < limit (budget c)" and "limit (budget c) \<le> usize_max"
  shows "fst (step_seq (s # ss) c) = map (\<lambda>t. Ok (Stopped t)) (s # stop_levels s ss) \<and>
    sorted (s # stop_levels s ss) \<and> used (budget (snd (step_seq (s # ss) c))) = Suc (used (budget c))"
proof -
  let ?c = "c\<lparr>budget := (budget c)\<lparr>used := Suc (used (budget c))\<rparr>, runner := (runner c)\<lparr>terminal := Some s\<rparr>\<rparr>"
  have "step_with_signal s c = (Ok (Stopped s), ?c)"
    using assms by (simp add: step_with_signal_def signalled_def set_terminal_def update_runner_def
        spend_step_def spend_def)
  then show ?thesis
    using step_seq_after_stop [of ?c s ss] stop_levels_sorted [of s ss] stop_levels_ge [of _ s ss]
    by (simp add: split_def)
qed

theorem stop_is_sticky_witness:
  "fst (step_seq [StopThread, Continue, StopTestImmediate, StopTestGraceful, NextLoop]
      \<lparr>runner = from_program endless_plan, budget = step_budget_new 1, run_bud = run_budget_new 0 0\<rparr>) =
   [Ok (Stopped StopThread), Ok (Stopped StopThread), Ok (Stopped StopTestImmediate),
    Ok (Stopped StopTestImmediate), Ok (Stopped StopTestImmediate)]"
proof -
  have m: "max StopThread StopTestImmediate = StopTestImmediate" "max StopTestImmediate StopTestGraceful = StopTestImmediate"
    by (simp_all add: max_def severity_defs)
  show ?thesis
    using stop_is_sticky [of StopThread "\<lparr>runner = from_program endless_plan, budget = step_budget_new 1,
        run_bud = run_budget_new 0 0\<rparr>" "[Continue, StopTestImmediate, StopTestGraceful, NextLoop]"]
    by (simp add: from_program_def step_budget_new_def usize_max_def Let_def m)
qed

section \<open>A shared NextLoop request\<close>





end
