(* ===== verification/Ordered_Map.thy ===== *)
theory Ordered_Map
  imports Rust_Prelude
begin

text \<open>
  \<open>std::collections::BTreeMap\<close> as the sources use it: keyed lookup, insertion, removal, in-place
  update of a value, and iteration in key order. The map is the list of its entries in strictly
  increasing key order. The locale \<open>ordered_map\<close> is the interface the clients rely on; its
  interpretation discharges the laws for the list.
\<close>

section \<open>The interface\<close>

locale ordered_map =
  fixes empty :: "'m"
    and get :: "'m \<Rightarrow> ('k :: linorder) \<Rightarrow> 'v option"
    and ins :: "'k \<Rightarrow> 'v \<Rightarrow> 'm \<Rightarrow> 'm"
    and del :: "'k \<Rightarrow> 'm \<Rightarrow> 'm"
    and keys :: "'m \<Rightarrow> 'k list"
    and inv :: "'m \<Rightarrow> bool"
  assumes inv_empty: "inv empty"
    and get_empty: "get empty k = None"
    and inv_ins: "inv m \<Longrightarrow> inv (ins k v m)"
    and get_ins: "inv m \<Longrightarrow> get (ins k v m) j = (if j = k then Some v else get m j)"
    and inv_del: "inv m \<Longrightarrow> inv (del k m)"
    and get_del: "inv m \<Longrightarrow> get (del k m) j = (if j = k then None else get m j)"
    and keys_sorted: "inv m \<Longrightarrow> sorted_wrt (<) (keys m)"
    and set_keys: "inv m \<Longrightarrow> set (keys m) = dom (get m)"
begin

lemma inv_del_all: "inv m \<Longrightarrow> inv (fold del ks m)"
  by (induction ks arbitrary: m) (simp_all add: inv_del)

lemma get_del_all: "inv m \<Longrightarrow> get (fold del ks m) j = (if j \<in> set ks then None else get m j)"
  by (induction ks arbitrary: m) (auto simp: inv_del get_del)

lemma keys_eq: "inv m \<Longrightarrow> keys m = sorted_list_of_set (dom (get m))"
  using keys_sorted set_keys
  by (metis sorted_list_of_set.idem_if_sorted_distinct strict_sorted_iff)

lemma finite_dom: "inv m \<Longrightarrow> finite (dom (get m))"
  using set_keys by (metis List.finite_set)

lemma length_keys: "inv m \<Longrightarrow> length (keys m) = card (dom (get m))"
  using keys_eq finite_dom by simp

lemma length_keys_ins_fresh: "inv m \<Longrightarrow> get m k = None \<Longrightarrow> length (keys (ins k v m)) = Suc (length (keys m))"
proof -
  assume a: "inv m" "get m k = None"
  then have "dom (get (ins k v m)) = insert k (dom (get m))" by (auto simp: get_ins split: if_splits)
  then show ?thesis using a finite_dom [OF a(1)] by (simp add: length_keys inv_ins card_insert_if domIff)
qed

lemma keys_cong: "inv m \<Longrightarrow> inv m' \<Longrightarrow> dom (get m) = dom (get m') \<Longrightarrow> keys m = keys m'"
  by (simp add: keys_eq)

end

section \<open>The list of entries\<close>

type_synonym ('k, 'v) btree_map = "('k \<times> 'v) list"

definition bm_get :: "('k, 'v) btree_map \<Rightarrow> 'k \<Rightarrow> 'v option" where
  "bm_get m k = map_of m k"

fun bm_insert :: "('k :: linorder) \<Rightarrow> 'v \<Rightarrow> ('k, 'v) btree_map \<Rightarrow> ('k, 'v) btree_map" where
  "bm_insert k v [] = [(k, v)]"
| "bm_insert k v ((j, w) # m) =
     (if k < j then (k, v) # (j, w) # m
      else if k = j then (k, v) # m
      else (j, w) # bm_insert k v m)"

definition bm_remove :: "'k \<Rightarrow> ('k, 'v) btree_map \<Rightarrow> ('k, 'v) btree_map" where
  "bm_remove k m = filter (\<lambda>e. fst e \<noteq> k) m"

definition bm_keys :: "('k, 'v) btree_map \<Rightarrow> 'k list" where
  "bm_keys m = map fst m"

definition bm_ok :: "('k :: linorder, 'v) btree_map \<Rightarrow> bool" where
  "bm_ok m \<longleftrightarrow> sorted_wrt (<) (map fst m)"

text \<open>\<open>get_mut\<close> followed by an assignment, and \<open>values_mut\<close>.\<close>

definition bm_update :: "'k \<Rightarrow> ('v \<Rightarrow> 'v) \<Rightarrow> ('k, 'v) btree_map \<Rightarrow> ('k, 'v) btree_map" where
  "bm_update k f m = map (\<lambda>(j, v). (j, if j = k then f v else v)) m"

definition bm_map_values :: "('v \<Rightarrow> 'v) \<Rightarrow> ('k, 'v) btree_map \<Rightarrow> ('k, 'v) btree_map" where
  "bm_map_values f m = map (\<lambda>(j, v). (j, f v)) m"

lemma bm_get_code [simp]:
  "bm_get [] k = None"
  "bm_get ((j, v) # m) k = (if j = k then Some v else bm_get m k)"
  by (simp_all add: bm_get_def)

lemma bm_keys_insert: "set (bm_keys (bm_insert k v m)) = insert k (set (bm_keys m))"
  by (induction k v m rule: bm_insert.induct) (auto simp: bm_keys_def)

lemma bm_ok_insert: "bm_ok m \<Longrightarrow> bm_ok (bm_insert k v m)"
proof (induction k v m rule: bm_insert.induct)
  case (2 k v j w m)
  then show ?case using bm_keys_insert [of k v m] by (auto simp: bm_ok_def bm_keys_def)
qed (simp add: bm_ok_def)

lemma bm_get_insert: "bm_ok m \<Longrightarrow> bm_get (bm_insert k v m) j = (if j = k then Some v else bm_get m j)"
  by (induction k v m rule: bm_insert.induct) (auto simp: bm_ok_def)

lemma bm_ok_remove: "bm_ok m \<Longrightarrow> bm_ok (bm_remove k m)"
  by (induction m) (auto simp: bm_ok_def bm_remove_def)

lemma bm_get_remove: "bm_get (bm_remove k m) j = (if j = k then None else bm_get m j)"
  by (induction m) (auto simp: bm_remove_def)

lemma dom_bm_get: "dom (bm_get m) = fst ` set m"
  using dom_map_of_conv_image_fst [of m] by (simp add: bm_get_def [abs_def])

interpretation bt: ordered_map "[]" bm_get bm_insert bm_remove bm_keys bm_ok
proof
  show "bm_get (bm_insert k v m) j = (if j = k then Some v else bm_get m j)" if "bm_ok m"
    for m :: "('a \<times> 'b) list" and k v j
    using that by (rule bm_get_insert)
  show "set (bm_keys m) = dom (bm_get m)" if "bm_ok m" for m :: "('a \<times> 'b) list"
    by (simp add: bm_keys_def dom_bm_get)
qed (simp_all add: bm_ok_insert bm_ok_remove bm_get_remove, simp_all add: bm_ok_def bm_keys_def)

lemma bm_get_update [simp]: "bm_get (bm_update k f m) j = (if j = k then map_option f (bm_get m k) else bm_get m j)"
  by (induction m) (auto simp: bm_update_def)

lemma bm_ok_update [simp]: "bm_ok (bm_update k f m) = bm_ok m"
  by (simp add: bm_update_def bm_ok_def split_def comp_def)

lemma bm_get_map_values [simp]: "bm_get (bm_map_values f m) j = map_option f (bm_get m j)"
  by (induction m) (auto simp: bm_map_values_def)

lemma bm_ok_map_values [simp]: "bm_ok (bm_map_values f m) = bm_ok m"
  by (simp add: bm_map_values_def bm_ok_def split_def comp_def)

lemma length_bm [simp]:
  "length (bm_update k f m) = length m"
  "length (bm_map_values f m) = length m"
  by (simp_all add: bm_update_def bm_map_values_def)

lemma bm_entry: "bm_ok m \<Longrightarrow> (k, v) \<in> set m \<longleftrightarrow> bm_get m k = Some v"
  by (simp add: bm_get_def bm_ok_def strict_sorted_iff)

lemma bm_length: "bm_ok m \<Longrightarrow> length m = card (dom (bm_get m))"
  using bt.length_keys [of m] by (simp add: bm_keys_def)

text \<open>Two maps with the same lookups are the same map.\<close>

lemma bm_ext: "bm_ok m \<Longrightarrow> bm_ok m' \<Longrightarrow> (\<And>k. bm_get m k = bm_get m' k) \<Longrightarrow> m = m'"
proof -
  assume a: "bm_ok m" "bm_ok m'" "\<And>k. bm_get m k = bm_get m' k"
  then have "set m = set m'" by (auto simp: bm_entry)
  moreover have "map fst m = map fst m'" using bt.keys_cong [OF a(1,2)] a(3) by (simp add: bm_keys_def dom_def)
  moreover have "inj_on fst (set m \<union> set m')"
    using a(1) calculation(1) by (simp add: bm_ok_def strict_sorted_iff distinct_map)
  ultimately show "m = m'" using map_inj_on by blast
qed

end
