(* ===== verification/Identity_Tree.thy ===== *)
theory Identity_Tree
  imports Ordered_Map
begin

text \<open>
  The identity tree of \<open>crates/model/src/tree.rs\<close>: nodes indexed by document-local identity, ordered
  roots and children, an identity allocator, every mutation (\<open>insert\<close>, \<open>insert_with_id\<close>, \<open>replace\<close>,
  \<open>replace_subtree\<close>, \<open>remove_subtree\<close>, \<open>remove_leaf\<close>, \<open>clear_children\<close>), the iterative traversals
  with their explicit stacks, the structural validation, and the two wrappers \<open>ListedHashTree\<close> and
  \<open>HashTree\<close>. A stack that the source keeps in a \<open>Vec\<close> is a list whose head is the top.
\<close>

section \<open>Data\<close>

type_synonym node_id = u64

record 'a tree_node =
  tn_id :: node_id
  tn_parent :: "node_id option"
  tn_value :: 'a
  tn_children :: "node_id list"

record 'a identity_tree =
  it_nodes :: "(node_id, 'a tree_node) btree_map"
  it_roots :: "node_id list"
  it_next_id :: "u64 option"

datatype tree_error =
    NodeNotFound node_id
  | ParentNotFound node_id
  | DuplicateNodeId node_id
  | NodeIdExhausted
  | NodeHasChildren node_id
  | TraversalLimitExceeded usize
  | QueryLimitExceeded string usize
  | ParentMismatch node_id "node_id option" "node_id option"
  | InvariantViolation string

datatype visit_event = EnterNode node_id usize | LeaveNode node_id usize

fun event_id :: "visit_event \<Rightarrow> node_id" where
  "event_id (EnterNode i _) = i"
| "event_id (LeaveNode i _) = i"

fun event_depth :: "visit_event \<Rightarrow> usize" where
  "event_depth (EnterNode _ d) = d"
| "event_depth (LeaveNode _ d) = d"

fun is_enter :: "visit_event \<Rightarrow> bool" where
  "is_enter (EnterNode _ _) = True"
| "is_enter (LeaveNode _ _) = False"

fun is_leave :: "visit_event \<Rightarrow> bool" where
  "is_leave (LeaveNode _ _) = True"
| "is_leave (EnterNode _ _) = False"

datatype traversal_control = GoOn | StopTraversal

record traversal_outcome =
  to_events :: usize
  to_entered :: usize
  to_stopped :: bool

section \<open>Queries on one node\<close>

definition tree_node_new :: "node_id \<Rightarrow> node_id option \<Rightarrow> 'a \<Rightarrow> 'a tree_node" where
  "tree_node_new i p v = \<lparr>tn_id = i, tn_parent = p, tn_value = v, tn_children = []\<rparr>"

definition tree_new :: "'a identity_tree" where
  "tree_new = \<lparr>it_nodes = [], it_roots = [], it_next_id = Some 1\<rparr>"

definition tree_len :: "'a identity_tree \<Rightarrow> usize" where
  "tree_len t = length (it_nodes t)"

definition get_array_bounded :: "'a identity_tree \<Rightarrow> usize \<Rightarrow> (tree_error, node_id list) result" where
  "get_array_bounded t max_roots =
     (if max_roots < length (it_roots t) then Err (QueryLimitExceeded ''get_array'' max_roots)
      else Ok (it_roots t))"

definition tree_get :: "'a identity_tree \<Rightarrow> node_id \<Rightarrow> 'a tree_node option" where
  "tree_get t i = bm_get (it_nodes t) i"

definition tree_contains :: "'a identity_tree \<Rightarrow> node_id \<Rightarrow> bool" where
  "tree_contains t i \<longleftrightarrow> tree_get t i \<noteq> None"

definition lookup :: "'a identity_tree \<Rightarrow> node_id \<Rightarrow> (tree_error, 'a tree_node) result" where
  "lookup t i = ok_or (tree_get t i) (NodeNotFound i)"

definition map_ok :: "('a \<Rightarrow> 'b) \<Rightarrow> ('e, 'a) result \<Rightarrow> ('e, 'b) result" where
  "map_ok f r = (case r of Err e \<Rightarrow> Err e | Ok x \<Rightarrow> Ok (f x))"

definition tree_value :: "'a identity_tree \<Rightarrow> node_id \<Rightarrow> (tree_error, 'a) result" where
  "tree_value t i = map_ok tn_value (lookup t i)"

definition tree_parent :: "'a identity_tree \<Rightarrow> node_id \<Rightarrow> (tree_error, node_id option) result" where
  "tree_parent t i = map_ok tn_parent (lookup t i)"

definition tree_children :: "'a identity_tree \<Rightarrow> node_id \<Rightarrow> (tree_error, node_id list) result" where
  "tree_children t i = map_ok tn_children (lookup t i)"

definition is_leaf :: "'a identity_tree \<Rightarrow> node_id \<Rightarrow> (tree_error, bool) result" where
  "is_leaf t i = map_ok (\<lambda>n. tn_children n = []) (lookup t i)"

section \<open>Insertion\<close>

type_synonym ('a, 'b) tree_op = "('a identity_tree, tree_error, 'b) routine"

definition require_parent :: "'a identity_tree \<Rightarrow> node_id \<Rightarrow> (tree_error, unit) result" where
  "require_parent t p = (if tree_contains t p then Ok () else Err (ParentNotFound p))"

definition require_parent_opt :: "node_id option \<Rightarrow> ('a, unit) tree_op" where
  "require_parent_opt parent =
     (case parent of Some p \<Rightarrow> reading (\<lambda>t. lift_result (require_parent t p)) | None \<Rightarrow> return_ok ())"

text \<open>The allocation loop: identities in use are skipped, an exhausted counter is an error.\<close>

definition allocate_pass :: "'a identity_tree \<Rightarrow> ('a identity_tree, (tree_error, node_id) result \<times> 'a identity_tree) pass" where
  "allocate_pass t =
     (case it_next_id t of
        None \<Rightarrow> Break (Err NodeIdExhausted, t)
      | Some raw \<Rightarrow>
          (let t' = t\<lparr>it_next_id := checked_add u64_max raw 1\<rparr>
           in if tree_contains t' raw then Again t' else Break (Ok raw, t')))"

text \<open>Every pass of the loop either ends it or increases the counter, so it is total.\<close>

definition allocator_left :: "'a identity_tree \<Rightarrow> nat" where
  "allocator_left t = (case it_next_id t of None \<Rightarrow> 0 | Some n \<Rightarrow> 2 + (u64_max - n))"

function allocate_id :: "('a, node_id) tree_op" where
  "allocate_id t = (case allocate_pass t of Break r \<Rightarrow> r | Again t' \<Rightarrow> allocate_id t')"
  by pat_completeness auto
termination
  by (relation "measure allocator_left")
    (auto simp: allocate_pass_def allocator_left_def Let_def checked_add_def split: option.splits if_splits)

declare allocate_id.simps [simp del]

definition advance_allocator_past :: "node_id \<Rightarrow> 'a identity_tree \<Rightarrow> 'a identity_tree" where
  "advance_allocator_past i t =
     (case it_next_id t of
        Some n \<Rightarrow> if n \<le> i then t\<lparr>it_next_id := checked_add u64_max i 1\<rparr> else t
      | None \<Rightarrow> t)"

definition push_child :: "node_id \<Rightarrow> 'a tree_node \<Rightarrow> 'a tree_node" where
  "push_child i n = n\<lparr>tn_children := tn_children n @ [i]\<rparr>"

definition link_node :: "node_id option \<Rightarrow> node_id \<Rightarrow> 'a \<Rightarrow> 'a identity_tree \<Rightarrow> 'a identity_tree" where
  "link_node parent i v t =
     (case parent of
        Some p \<Rightarrow> t\<lparr>it_nodes := bm_insert i (tree_node_new i parent v)
                               (bm_update p (push_child i) (it_nodes t))\<rparr>
      | None \<Rightarrow> t\<lparr>it_nodes := bm_insert i (tree_node_new i parent v) (it_nodes t),
                  it_roots := it_roots t @ [i]\<rparr>)"

definition parent_entry :: "node_id option \<Rightarrow> ('a, unit) tree_op" where
  "parent_entry parent = reading (\<lambda>t.
     (case parent of
        Some p \<Rightarrow>
          if tree_contains t p then return_ok ()
          else return_err (InvariantViolation ''validated parent disappeared before insertion'')
      | None \<Rightarrow> return_ok ()))"

definition insert_with_id :: "node_id option \<Rightarrow> node_id \<Rightarrow> 'a \<Rightarrow> ('a, node_id) tree_op" where
  "insert_with_id parent i v = reading (\<lambda>t.
     if tree_contains t i then return_err (DuplicateNodeId i)
     else and_then (require_parent_opt parent) (\<lambda>_.
          and_then (parent_entry parent) (\<lambda>_.
          and_then (modify (link_node parent i v)) (\<lambda>_.
          and_then (modify (advance_allocator_past i)) (\<lambda>_.
          return_ok i)))))"

text \<open>A failed insertion gives the allocated identity back.\<close>

definition tree_insert :: "node_id option \<Rightarrow> 'a \<Rightarrow> ('a, node_id) tree_op" where
  "tree_insert parent v =
     and_then (require_parent_opt parent) (\<lambda>_. reading (\<lambda>t.
     and_then allocate_id (\<lambda>i t1.
       (case insert_with_id parent i v t1 of
          (Ok j, t2) \<Rightarrow> (Ok j, t2)
        | (Err e, t2) \<Rightarrow> (Err e, t2\<lparr>it_next_id := it_next_id t\<rparr>)))))"

section \<open>Structural validation\<close>

fun validate_roots ::
  "(node_id, 'a tree_node) btree_map \<Rightarrow> node_id list \<Rightarrow> node_id set \<Rightarrow> (tree_error, node_id set) result" where
  "validate_roots ns [] seen = Ok seen"
| "validate_roots ns (r # rs) seen =
     (case bm_get ns r of
        None \<Rightarrow> Err (InvariantViolation ''root list points to a missing node'')
      | Some n \<Rightarrow>
          if tn_parent n \<noteq> None \<or> r \<in> seen then
            Err (InvariantViolation ''root has a parent or appears twice'')
          else validate_roots ns rs (insert r seen))"

fun validate_children ::
  "(node_id, 'a tree_node) btree_map \<Rightarrow> node_id \<Rightarrow> node_id list \<Rightarrow> node_id set \<Rightarrow> (tree_error, node_id set) result" where
  "validate_children ns i [] seen = Ok seen"
| "validate_children ns i (c # cs) seen =
     (case bm_get ns c of
        None \<Rightarrow> Err (InvariantViolation ''child list points to a missing node'')
      | Some n \<Rightarrow>
          if tn_parent n \<noteq> Some i \<or> c \<in> seen then
            Err (InvariantViolation ''child parent link is inconsistent or duplicated'')
          else validate_children ns i cs (insert c seen))"

fun validate_entries ::
  "(node_id, 'a tree_node) btree_map \<Rightarrow> (node_id \<times> 'a tree_node) list \<Rightarrow> node_id set \<Rightarrow> (tree_error, node_id set) result" where
  "validate_entries ns [] seen = Ok seen"
| "validate_entries ns ((i, n) # es) seen =
     (if tn_id n \<noteq> i then Err (InvariantViolation ''identity index key differs from node ID'')
      else (case validate_children ns i (tn_children n) seen of
          Err e \<Rightarrow> Err e
        | Ok seen \<Rightarrow> validate_entries ns es seen))"

definition validate :: "'a identity_tree \<Rightarrow> (tree_error, unit) result" where
  "validate t =
     (case validate_roots (it_nodes t) (it_roots t) {} of
        Err e \<Rightarrow> Err e
      | Ok seen \<Rightarrow>
          (case validate_entries (it_nodes t) (it_nodes t) seen of
             Err e \<Rightarrow> Err e
           | Ok seen \<Rightarrow>
               if card seen \<noteq> length (it_nodes t) then
                 Err (InvariantViolation ''a node is unreachable from the roots'')
               else Ok ()))"

section \<open>Removal\<close>

fun push_pending ::
  "'a identity_tree \<Rightarrow> node_id \<Rightarrow> node_id list \<Rightarrow> node_id list \<Rightarrow> (tree_error, node_id list) result" where
  "push_pending t i [] pending = Ok pending"
| "push_pending t i (c # cs) pending =
     (case tree_get t c of
        None \<Rightarrow> Err (InvariantViolation ''child link points to a missing node during removal'')
      | Some n \<Rightarrow>
          if tn_parent n \<noteq> Some i then
            Err (InvariantViolation ''child parent link is inconsistent during removal'')
          else push_pending t i cs (c # pending))"

lemma finite_dom_tree_get [simp]: "finite (dom (tree_get t))"
  by (simp add: tree_get_def [abs_def] bm_get_def finite_dom_map_of)

lemma unseen_decreases:
  "tree_get t i = Some n \<Longrightarrow> i \<notin> seen \<Longrightarrow>
   card (dom (tree_get t) - insert i seen) < card (dom (tree_get t) - seen)"
  by (rule psubset_card_mono) auto

text \<open>
  The worklist of \<open>collect_subtree_ids\<close>. Every pass marks one more stored node, so the loop ends on
  every tree, malformed ones included.
\<close>

function collect_loop ::
  "'a identity_tree \<Rightarrow> node_id list \<Rightarrow> node_id set \<Rightarrow> node_id list \<Rightarrow> (tree_error, node_id list) result" where
  "collect_loop t ids seen pending =
     (case pending of
        [] \<Rightarrow> Ok ids
      | i # pending' \<Rightarrow>
          (case tree_get t i of
             None \<Rightarrow> Err (InvariantViolation ''child link points to a missing node during removal'')
           | Some n \<Rightarrow>
               if i \<in> seen then
                 Err (InvariantViolation ''subtree links contain a cycle or duplicate child'')
               else (case push_pending t i (rev (tn_children n)) pending' of
                   Err e \<Rightarrow> Err e
                 | Ok pending'' \<Rightarrow> collect_loop t (ids @ [i]) (insert i seen) pending'')))"
  by pat_completeness auto
termination
  by (relation "measure (\<lambda>(t, _, seen, _). card (dom (tree_get t) - seen))")
    (auto intro: unseen_decreases)

declare collect_loop.simps [simp del]

definition collect_subtree_ids :: "'a identity_tree \<Rightarrow> node_id \<Rightarrow> (tree_error, node_id list) result" where
  "collect_subtree_ids t root = collect_loop t [] {} [root]"

definition unlink :: "node_id \<Rightarrow> 'a tree_node \<Rightarrow> 'a tree_node" where
  "unlink i n = n\<lparr>tn_children := filter (\<lambda>c. c \<noteq> i) (tn_children n)\<rparr>"

definition unlink_from :: "node_id option \<Rightarrow> node_id \<Rightarrow> ('a, unit) tree_op" where
  "unlink_from parent i = reading (\<lambda>t.
     (case parent of
        Some p \<Rightarrow>
          if tree_contains t p then modify (\<lambda>t. t\<lparr>it_nodes := bm_update p (unlink i) (it_nodes t)\<rparr>)
          else return_err (InvariantViolation ''child node points to a missing parent'')
      | None \<Rightarrow> modify (\<lambda>t. t\<lparr>it_roots := filter (\<lambda>r. r \<noteq> i) (it_roots t)\<rparr>)))"

fun remove_nodes ::
  "node_id \<Rightarrow> node_id list \<Rightarrow> (node_id, 'a tree_node) btree_map \<Rightarrow> 'a option \<Rightarrow>
   'a option \<times> (node_id, 'a tree_node) btree_map" where
  "remove_nodes i [] ns removed = (removed, ns)"
| "remove_nodes i (c # cs) ns removed =
     remove_nodes i cs (bm_remove c ns)
       (case bm_get ns c of Some n \<Rightarrow> if c = i then Some (tn_value n) else removed | None \<Rightarrow> removed)"

definition remove_subtree :: "node_id \<Rightarrow> ('a, 'a) tree_op" where
  "remove_subtree i = reading (\<lambda>t.
     and_then (lift_result (lookup t i)) (\<lambda>_.
     and_then (lift_result (validate t)) (\<lambda>_.
     and_then (lift_result (collect_subtree_ids t i)) (\<lambda>ids.
     and_then (lift_result (ok_or (tree_get t i) (NodeNotFound i))) (\<lambda>n.
     and_then (unlink_from (tn_parent n) i) (\<lambda>_. \<lambda>t.
       (case remove_nodes i ids (it_nodes t) None of
          (removed, ns) \<Rightarrow>
            (ok_or removed (InvariantViolation ''subtree root disappeared during removal''),
             t\<lparr>it_nodes := ns\<rparr>))))))))"

definition remove_leaf :: "node_id \<Rightarrow> ('a, 'a) tree_op" where
  "remove_leaf i = reading (\<lambda>t.
     and_then (lift_result (is_leaf t i)) (\<lambda>leaf.
     if \<not> leaf then return_err (NodeHasChildren i) else remove_subtree i))"

fun collect_all :: "'a identity_tree \<Rightarrow> node_id list \<Rightarrow> node_id list \<Rightarrow> (tree_error, node_id list) result" where
  "collect_all t [] ids = Ok ids"
| "collect_all t (c # cs) ids =
     (case collect_subtree_ids t c of
        Err e \<Rightarrow> Err e
      | Ok below \<Rightarrow> collect_all t cs (ids @ below))"

definition clear_children :: "node_id \<Rightarrow> ('a, usize) tree_op" where
  "clear_children i = reading (\<lambda>t.
     and_then (lift_result (lookup t i)) (\<lambda>_.
     and_then (lift_result (validate t)) (\<lambda>_.
     and_then (lift_result (tree_children t i)) (\<lambda>children.
     and_then (lift_result (collect_all t children [])) (\<lambda>ids.
     if \<not> tree_contains t i then
       return_err (InvariantViolation ''validated node disappeared while clearing children'')
     else
       and_then (modify (\<lambda>t. t\<lparr>it_nodes := fold bm_remove ids
                   (bm_update i (\<lambda>n. n\<lparr>tn_children := []\<rparr>) (it_nodes t))\<rparr>)) (\<lambda>_.
       return_ok (length ids)))))))"

definition tree_replace :: "node_id \<Rightarrow> 'a \<Rightarrow> ('a, 'a) tree_op" where
  "tree_replace i v = reading (\<lambda>t.
     and_then (lift_result (lookup t i)) (\<lambda>n.
     and_then (modify (\<lambda>t. t\<lparr>it_nodes := bm_update i (\<lambda>n. n\<lparr>tn_value := v\<rparr>) (it_nodes t)\<rparr>)) (\<lambda>_.
     return_ok (tn_value n))))"

definition replace_subtree :: "node_id \<Rightarrow> 'a \<Rightarrow> ('a, 'a) tree_op" where
  "replace_subtree i v = reading (\<lambda>t.
     and_then (lift_result (lookup t i)) (\<lambda>_.
     and_then (clear_children i) (\<lambda>_.
     tree_replace i v)))"

section \<open>Iterative traversals\<close>

record preorder_frame =
  pf_id :: node_id
  pf_next_child :: usize
  pf_yielded :: bool

definition preorder_frame_new :: "node_id \<Rightarrow> preorder_frame" where
  "preorder_frame_new i = \<lparr>pf_id = i, pf_next_child = 0, pf_yielded = False\<rparr>"

definition bump_child :: "preorder_frame \<Rightarrow> preorder_frame" where
  "bump_child fr = fr\<lparr>pf_next_child := saturating_add usize_max (pf_next_child fr) 1\<rparr>"

subsection \<open>The preorder iterator\<close>

record preorder_iter =
  pi_next_root :: usize
  pi_stack :: "preorder_frame list"
  pi_visited :: "node_id set"

type_synonym 'a yield = "'a tree_node option \<times> preorder_iter"

definition iter_frame :: "'a identity_tree \<Rightarrow> preorder_iter \<Rightarrow> (preorder_iter, 'a yield) pass" where
  "iter_frame t it =
     (case pi_stack it of
        [] \<Rightarrow> Break (None, it)
      | fr # rest \<Rightarrow>
          (case tree_get t (pf_id fr) of
             None \<Rightarrow> Break (None, it)
           | Some n \<Rightarrow>
               if \<not> pf_yielded fr then Break (Some n, it\<lparr>pi_stack := fr\<lparr>pf_yielded := True\<rparr> # rest\<rparr>)
               else (case vec_get (tn_children n) (pf_next_child fr) of
                   Some c \<Rightarrow>
                     if c \<in> pi_visited it then Again (it\<lparr>pi_stack := bump_child fr # rest\<rparr>)
                     else Again (it\<lparr>pi_visited := insert c (pi_visited it),
                                    pi_stack := preorder_frame_new c # bump_child fr # rest\<rparr>)
                 | None \<Rightarrow> Again (it\<lparr>pi_stack := rest\<rparr>))))"

text \<open>
  One pass of the loop of \<open>PreorderIter::next\<close>. The inner loop skips roots that were visited; as
  the stack is still empty then, skipping is one more pass of the outer loop.
\<close>

definition iter_pass :: "'a identity_tree \<Rightarrow> preorder_iter \<Rightarrow> (preorder_iter, 'a yield) pass" where
  "iter_pass t it =
     (if pi_stack it = [] then
        (case vec_get (it_roots t) (pi_next_root it) of
           None \<Rightarrow> Break (None, it)
         | Some i \<Rightarrow>
             (let it' = it\<lparr>pi_next_root := saturating_add usize_max (pi_next_root it) 1\<rparr>
              in if i \<in> pi_visited it then Again it'
                 else iter_frame t (it'\<lparr>pi_visited := insert i (pi_visited it),
                                        pi_stack := [preorder_frame_new i]\<rparr>)))
      else iter_frame t it)"

definition iter_next :: "'a identity_tree \<Rightarrow> preorder_iter \<Rightarrow> 'a yield option" where
  "iter_next t = iterate (iter_pass t)"

definition iter_preorder :: preorder_iter where
  "iter_preorder = \<lparr>pi_next_root = 0, pi_stack = [], pi_visited = {}\<rparr>"

partial_function (option) iter_collect :: "'a identity_tree \<Rightarrow> preorder_iter \<Rightarrow> 'a tree_node list option" where
  "iter_collect t it = Option.bind (iter_next t it) (\<lambda>(item, it').
     case item of
       None \<Rightarrow> Some []
     | Some n \<Rightarrow> Option.bind (iter_collect t it') (\<lambda>ns. Some (n # ns)))"

definition preorder_ids :: "'a identity_tree \<Rightarrow> node_id list option" where
  "preorder_ids t = map_option (map tn_id) (iter_collect t iter_preorder)"

partial_function (option) iter_find ::
  "'a identity_tree \<Rightarrow> ('a tree_node \<Rightarrow> bool) \<Rightarrow> preorder_iter \<Rightarrow> node_id option option" where
  "iter_find t predicate it = Option.bind (iter_next t it) (\<lambda>(item, it').
     case item of
       None \<Rightarrow> Some None
     | Some n \<Rightarrow> if predicate n then Some (Some (tn_id n)) else iter_find t predicate it')"

definition tree_find :: "'a identity_tree \<Rightarrow> ('a tree_node \<Rightarrow> bool) \<Rightarrow> node_id option option" where
  "tree_find t predicate = iter_find t predicate iter_preorder"

definition find_all :: "'a identity_tree \<Rightarrow> ('a tree_node \<Rightarrow> bool) \<Rightarrow> node_id list option" where
  "find_all t predicate =
     map_option (\<lambda>ns. map tn_id (filter predicate ns)) (iter_collect t iter_preorder)"

subsection \<open>Checked preorder queries\<close>

text \<open>The visitor is a closure over its own state \<open>'s\<close>.\<close>

record 's query =
  q_next_root :: usize
  q_stack :: "preorder_frame list"
  q_visited :: "node_id set"
  q_count :: usize
  q_acc :: 's

abbreviation repeated_link :: tree_error where
  "repeated_link \<equiv> InvariantViolation ''ordered topology references a node more than once''"

type_synonym ('a, 's) visitor = "'s \<Rightarrow> 'a tree_node \<Rightarrow> (tree_error, 's) result"

definition over_limit :: "(string \<times> usize) option \<Rightarrow> usize \<Rightarrow> tree_error option" where
  "over_limit node_limit cnt =
     (case node_limit of
        Some (operation, lim) \<Rightarrow> if cnt = lim then Some (QueryLimitExceeded operation lim) else None
      | None \<Rightarrow> None)"

definition visit_frame ::
  "'a identity_tree \<Rightarrow> (string \<times> usize) option \<Rightarrow> ('a, 's) visitor \<Rightarrow> 's query \<Rightarrow>
   ('s query, (tree_error, usize \<times> 's) result) pass" where
  "visit_frame t node_limit visitor q =
     (case q_stack q of
        [] \<Rightarrow> Break (Err (InvariantViolation ''preorder query frame stack unexpectedly empty''))
      | fr # rest \<Rightarrow>
          (case tree_get t (pf_id fr) of
             None \<Rightarrow> Break (Err (InvariantViolation ''ordered link points to a missing node during preorder query''))
           | Some n \<Rightarrow>
               if \<not> pf_yielded fr then
                 (case over_limit node_limit (q_count q) of
                    Some e \<Rightarrow> Break (Err e)
                  | None \<Rightarrow>
                      (case visitor (q_acc q) n of
                         Err e \<Rightarrow> Break (Err e)
                       | Ok s \<Rightarrow> Again (q\<lparr>q_stack := fr\<lparr>pf_yielded := True\<rparr> # rest,
                                          q_count := saturating_add usize_max (q_count q) 1,
                                          q_acc := s\<rparr>)))
               else (case vec_get (tn_children n) (pf_next_child fr) of
                   Some c \<Rightarrow>
                     if c \<in> q_visited q then Break (Err repeated_link)
                     else Again (q\<lparr>q_visited := insert c (q_visited q),
                                   q_stack := preorder_frame_new c # bump_child fr # rest\<rparr>)
                 | None \<Rightarrow> Again (q\<lparr>q_stack := rest\<rparr>))))"

definition visit_pass ::
  "'a identity_tree \<Rightarrow> (string \<times> usize) option \<Rightarrow> ('a, 's) visitor \<Rightarrow> 's query \<Rightarrow>
   ('s query, (tree_error, usize \<times> 's) result) pass" where
  "visit_pass t node_limit visitor q =
     (if q_stack q = [] then
        (case vec_get (it_roots t) (q_next_root q) of
           None \<Rightarrow> Break (Ok (q_count q, q_acc q))
         | Some i \<Rightarrow>
             if i \<in> q_visited q then Break (Err repeated_link)
             else visit_frame t node_limit visitor
               (q\<lparr>q_next_root := saturating_add usize_max (q_next_root q) 1,
                  q_visited := insert i (q_visited q),
                  q_stack := [preorder_frame_new i]\<rparr>))
      else visit_frame t node_limit visitor q)"

definition visit_preorder_checked ::
  "'a identity_tree \<Rightarrow> (string \<times> usize) option \<Rightarrow> ('a, 's) visitor \<Rightarrow> 's \<Rightarrow>
   (tree_error, usize \<times> 's) result option" where
  "visit_preorder_checked t node_limit visitor s =
     iterate (visit_pass t node_limit visitor)
       \<lparr>q_next_root = 0, q_stack = [], q_visited = {}, q_count = 0, q_acc = s\<rparr>"

definition preorder_ids_bounded :: "'a identity_tree \<Rightarrow> usize \<Rightarrow> (tree_error, node_id list) result option" where
  "preorder_ids_bounded t max_nodes =
     map_option (map_ok snd)
       (visit_preorder_checked t (Some (''preorder_ids'', max_nodes)) (\<lambda>ids n. Ok (ids @ [tn_id n])) [])"

definition find_all_visitor :: "usize \<Rightarrow> ('a tree_node \<Rightarrow> bool) \<Rightarrow> ('a, node_id list) visitor" where
  "find_all_visitor max_results predicate ids n =
     (if predicate n then
        (if length ids = max_results then Err (QueryLimitExceeded ''find_all'' max_results)
         else Ok (ids @ [tn_id n]))
      else Ok ids)"

definition find_all_bounded ::
  "'a identity_tree \<Rightarrow> usize \<Rightarrow> ('a tree_node \<Rightarrow> bool) \<Rightarrow> (tree_error, node_id list) result option" where
  "find_all_bounded t max_results predicate =
     map_option (map_ok snd) (visit_preorder_checked t None (find_all_visitor max_results predicate) [])"

subsection \<open>Enter and leave events\<close>

record traversal_frame =
  tf_id :: node_id
  tf_depth :: usize
  tf_next_child :: usize
  tf_entered :: bool

definition traversal_frame_new :: "node_id \<Rightarrow> usize \<Rightarrow> traversal_frame" where
  "traversal_frame_new i d = \<lparr>tf_id = i, tf_depth = d, tf_next_child = 0, tf_entered = False\<rparr>"

record 's traversal =
  tr_next_root :: usize
  tr_stack :: "traversal_frame list"
  tr_visited :: "node_id set"
  tr_events :: usize
  tr_entered :: usize
  tr_acc :: 's

type_synonym 's event_visitor = "'s \<Rightarrow> visit_event \<Rightarrow> 's \<times> traversal_control"

type_synonym 's traversal_result = "(tree_error, traversal_outcome) result \<times> 's"

text \<open>Delivering one event: the budget is checked before the callback runs.\<close>

definition deliver ::
  "usize \<Rightarrow> 's event_visitor \<Rightarrow> visit_event \<Rightarrow> 's traversal \<Rightarrow> ('s traversal, 's traversal_result) pass" where
  "deliver max_events visitor event q =
     (if max_events \<le> tr_events q then Break (Err (TraversalLimitExceeded max_events), tr_acc q)
      else
        (let events = tr_events q + 1;
             entered = (if is_enter event then tr_entered q + 1 else tr_entered q)
         in case visitor (tr_acc q) event of
              (s, StopTraversal) \<Rightarrow>
                Break (Ok \<lparr>to_events = events, to_entered = entered, to_stopped = True\<rparr>, s)
            | (s, GoOn) \<Rightarrow> Again (q\<lparr>tr_events := events, tr_entered := entered, tr_acc := s\<rparr>)))"

definition traverse_frame ::
  "'a identity_tree \<Rightarrow> usize \<Rightarrow> 's event_visitor \<Rightarrow> 's traversal \<Rightarrow> ('s traversal, 's traversal_result) pass" where
  "traverse_frame t max_events visitor q =
     (case tr_stack q of
        [] \<Rightarrow> Break (Err (InvariantViolation ''traversal frame stack unexpectedly empty''), tr_acc q)
      | fr # rest \<Rightarrow>
          (case tree_get t (tf_id fr) of
             None \<Rightarrow> Break (Err (InvariantViolation
                 ''ordered link points to a missing node during traversal''), tr_acc q)
           | Some n \<Rightarrow>
               if \<not> tf_entered fr then
                 deliver max_events visitor (EnterNode (tf_id fr) (tf_depth fr))
                   (q\<lparr>tr_stack := fr\<lparr>tf_entered := True\<rparr> # rest\<rparr>)
               else (case vec_get (tn_children n) (tf_next_child fr) of
                   Some c \<Rightarrow>
                     if c \<in> tr_visited q then Break (Err repeated_link, tr_acc q)
                     else Again (q\<lparr>tr_visited := insert c (tr_visited q),
                            tr_stack :=
                              traversal_frame_new c (saturating_add usize_max (tf_depth fr) 1) #
                              fr\<lparr>tf_next_child := saturating_add usize_max (tf_next_child fr) 1\<rparr> # rest\<rparr>)
                 | None \<Rightarrow>
                     deliver max_events visitor (LeaveNode (tf_id fr) (tf_depth fr))
                       (q\<lparr>tr_stack := rest\<rparr>))))"

definition traverse_pass ::
  "'a identity_tree \<Rightarrow> usize \<Rightarrow> 's event_visitor \<Rightarrow> 's traversal \<Rightarrow> ('s traversal, 's traversal_result) pass" where
  "traverse_pass t max_events visitor q =
     (if tr_stack q = [] then
        (case vec_get (it_roots t) (tr_next_root q) of
           None \<Rightarrow> Break (Ok \<lparr>to_events = tr_events q, to_entered = tr_entered q, to_stopped = False\<rparr>, tr_acc q)
         | Some i \<Rightarrow>
             if i \<in> tr_visited q then Break (Err repeated_link, tr_acc q)
             else traverse_frame t max_events visitor
               (q\<lparr>tr_next_root := saturating_add usize_max (tr_next_root q) 1,
                  tr_visited := insert i (tr_visited q),
                  tr_stack := [traversal_frame_new i 0]\<rparr>))
      else traverse_frame t max_events visitor q)"

definition traverse_bounded ::
  "'a identity_tree \<Rightarrow> usize \<Rightarrow> 's event_visitor \<Rightarrow> 's \<Rightarrow> 's traversal_result option" where
  "traverse_bounded t max_events visitor s =
     iterate (traverse_pass t max_events visitor)
       \<lparr>tr_next_root = 0, tr_stack = [], tr_visited = {}, tr_events = 0, tr_entered = 0, tr_acc = s\<rparr>"

definition traverse :: "'a identity_tree \<Rightarrow> 's event_visitor \<Rightarrow> 's \<Rightarrow> 's traversal_result option" where
  "traverse t = traverse_bounded t usize_max"

definition tree_visit :: "'a identity_tree \<Rightarrow> ('s \<Rightarrow> visit_event \<Rightarrow> 's) \<Rightarrow> 's \<Rightarrow> 's traversal_result option" where
  "tree_visit t visitor = traverse t (\<lambda>s event. (visitor s event, GoOn))"

section \<open>Paths and depth\<close>

text \<open>The walk along the parent links; a pass adds one node and there are never more than \<open>len\<close>.\<close>

function path_loop ::
  "'a identity_tree \<Rightarrow> usize \<Rightarrow> node_id option \<Rightarrow> node_id list \<Rightarrow> (tree_error, node_id list) result" where
  "path_loop t max_path_nodes current path =
     (case current of
        None \<Rightarrow> Ok (rev path)
      | Some i \<Rightarrow>
          if tree_len t \<le> length path then Err (InvariantViolation ''parent links contain a cycle'')
          else if length path = max_path_nodes then Err (QueryLimitExceeded ''path_to'' max_path_nodes)
          else (case tree_get t i of
              None \<Rightarrow> Err (InvariantViolation ''parent link points to a missing node'')
            | Some n \<Rightarrow> path_loop t max_path_nodes (tn_parent n) (path @ [i])))"
  by pat_completeness auto
termination
  by (relation "measure (\<lambda>(t, _, _, path). tree_len t - length path)") auto

declare path_loop.simps [simp del]

definition path_to_bounded :: "'a identity_tree \<Rightarrow> node_id \<Rightarrow> usize \<Rightarrow> (tree_error, node_id list) result" where
  "path_to_bounded t i max_path_nodes =
     (case lookup t i of
        Err e \<Rightarrow> Err e
      | Ok _ \<Rightarrow> path_loop t max_path_nodes (Some i) [])"

definition path_to :: "'a identity_tree \<Rightarrow> node_id \<Rightarrow> (tree_error, node_id list) result" where
  "path_to t i = path_to_bounded t i usize_max"

definition depth :: "'a identity_tree \<Rightarrow> node_id \<Rightarrow> (tree_error, usize) result" where
  "depth t i = map_ok (\<lambda>path. length path - 1) (path_to t i)"

section \<open>Hash view\<close>

definition normalize :: "'a identity_tree \<Rightarrow> 'a identity_tree" where
  "normalize t = t\<lparr>it_roots := sort (it_roots t),
     it_nodes := bm_map_values (\<lambda>n. n\<lparr>tn_children := sort (tn_children n)\<rparr>) (it_nodes t)\<rparr>"

definition normalized :: "('a, 'b) tree_op \<Rightarrow> ('a, 'b) tree_op" where
  "normalized op = and_then op (\<lambda>x. and_then (modify normalize) (\<lambda>_. return_ok x))"

definition hash_insert :: "node_id option \<Rightarrow> 'a \<Rightarrow> ('a, node_id) tree_op" where
  "hash_insert parent v = normalized (tree_insert parent v)"

definition hash_insert_with_id :: "node_id option \<Rightarrow> node_id \<Rightarrow> 'a \<Rightarrow> ('a, node_id) tree_op" where
  "hash_insert_with_id parent i v = normalized (insert_with_id parent i v)"

definition add_with_id :: "node_id option \<Rightarrow> node_id \<Rightarrow> 'a \<Rightarrow> ('a, node_id) tree_op" where
  "add_with_id parent i v = reading (\<lambda>t.
     (case tree_get t i of
        Some existing \<Rightarrow>
          if tn_parent existing \<noteq> parent then
            return_err (ParentMismatch i (tn_parent existing) parent)
          else return_ok i
      | None \<Rightarrow> hash_insert_with_id parent i v))"

definition set_with_id :: "node_id option \<Rightarrow> node_id \<Rightarrow> 'a \<Rightarrow> ('a, node_id) tree_op" where
  "set_with_id parent i v = reading (\<lambda>t.
     (case tree_get t i of
        Some existing \<Rightarrow>
          if tn_parent existing \<noteq> parent then
            return_err (ParentMismatch i (tn_parent existing) parent)
          else and_then (replace_subtree i v) (\<lambda>_. return_ok i)
      | None \<Rightarrow> hash_insert_with_id parent i v))"

definition hash_remove :: "node_id \<Rightarrow> ('a, 'a) tree_op" where
  "hash_remove i = normalized (remove_subtree i)"

definition hash_remove_leaf :: "node_id \<Rightarrow> ('a, 'a) tree_op" where
  "hash_remove_leaf i = normalized (remove_leaf i)"

definition hash_clear_children :: "node_id \<Rightarrow> ('a, usize) tree_op" where
  "hash_clear_children i = normalized (clear_children i)"

definition hash_from_tree :: "'a identity_tree \<Rightarrow> 'a identity_tree" where
  "hash_from_tree t = normalize t"

end
