(* ===== verification/Tree_Forest.thy ===== *)
theory Tree_Forest
  imports Identity_Tree "HOL-Library.Multiset"
begin

text \<open>
  What an identity tree means: an ordered forest of rose trees. The identity index is the flattened
  forest, and every mutation of the tree is an operation on the forest.
\<close>

named_theorems forest_simps \<open>evaluation of forests\<close>

section \<open>Forests\<close>

datatype 'a rose = Rose (r_id: node_id) (r_value: 'a) (r_children: "'a rose list")

fun ids :: "'a rose \<Rightarrow> node_id list" where
  "ids (Rose i v ts) = i # concat (map ids ts)"

abbreviation forest_ids :: "'a rose list \<Rightarrow> node_id list" where
  "forest_ids ts \<equiv> concat (map ids ts)"

text \<open>The index entries of a tree whose root hangs below \<open>p\<close>, in preorder.\<close>

fun flat :: "node_id option \<Rightarrow> 'a rose \<Rightarrow> (node_id \<times> 'a tree_node) list" where
  "flat p (Rose i v ts) =
     (i, \<lparr>tn_id = i, tn_parent = p, tn_value = v, tn_children = map r_id ts\<rparr>) # concat (map (flat (Some i)) ts)"

abbreviation flats :: "node_id option \<Rightarrow> 'a rose list \<Rightarrow> (node_id \<times> 'a tree_node) list" where
  "flats p ts \<equiv> concat (map (flat p) ts)"

lemma map_fst_flat [simp]: "map fst (flat p t) = ids t"
proof (induction p t rule: flat.induct)
  case (1 p i v ts)
  then show ?case by (simp add: map_concat comp_def cong: map_cong)
qed

lemma map_fst_flats [simp]: "map fst (flats p ts) = forest_ids ts"
  by (simp add: map_concat comp_def)

lemma r_id_in_ids [simp]: "r_id t \<in> set (ids t)"
  by (cases t) simp

lemma ids_not_Nil [simp]: "ids t \<noteq> []"
  by (cases t) simp

lemma roots_subset: "set (map r_id ts) \<subseteq> set (forest_ids ts)"
  by auto

lemma length_roots: "length ts \<le> length (forest_ids ts)"
proof (induction ts)
  case (Cons t ts)
  then show ?case by (cases t) simp
qed simp

lemma distinct_roots: "distinct (forest_ids ts) \<Longrightarrow> distinct (map r_id ts)"
proof (induction ts)
  case (Cons t ts)
  then have "r_id t \<notin> set (forest_ids ts)" using r_id_in_ids [of t] by (auto simp: disjoint_iff)
  then show ?case using Cons roots_subset [of ts] by auto
qed simp

text \<open>Changing the subtree with identity \<open>i\<close>, and dropping it.\<close>

fun upd :: "node_id \<Rightarrow> ('a rose \<Rightarrow> 'a rose) \<Rightarrow> 'a rose \<Rightarrow> 'a rose" where
  "upd i f (Rose j v ts) = (if j = i then f (Rose j v ts) else Rose j v (map (upd i f) ts))"

definition add_child :: "'a rose \<Rightarrow> 'a rose \<Rightarrow> 'a rose" where
  "add_child c s = Rose (r_id s) (r_value s) (r_children s @ [c])"

definition drop_child :: "node_id \<Rightarrow> 'a rose \<Rightarrow> 'a rose" where
  "drop_child i s = Rose (r_id s) (r_value s) (filter (\<lambda>c. r_id c \<noteq> i) (r_children s))"

definition cut_children :: "'a rose \<Rightarrow> 'a rose" where
  "cut_children s = Rose (r_id s) (r_value s) []"

definition set_value :: "'a \<Rightarrow> 'a rose \<Rightarrow> 'a rose" where
  "set_value v s = Rose (r_id s) v (r_children s)"

fun prune :: "node_id \<Rightarrow> 'a rose \<Rightarrow> 'a rose" where
  "prune i (Rose j v ts) = Rose j v (map (prune i) (filter (\<lambda>s. r_id s \<noteq> i) ts))"

abbreviation prunes :: "node_id \<Rightarrow> 'a rose list \<Rightarrow> 'a rose list" where
  "prunes i ts \<equiv> map (prune i) (filter (\<lambda>s. r_id s \<noteq> i) ts)"

lemma upd_absent [simp]: "i \<notin> set (ids t) \<Longrightarrow> upd i f t = t"
proof (induction i f t rule: upd.induct)
  case (1 i f j v ts)
  then show ?case by (auto intro!: map_idI)
qed

lemma prune_absent [simp]: "i \<notin> set (ids t) \<Longrightarrow> prune i t = t"
proof (induction i t rule: prune.induct)
  case (1 i j v ts)
  then have "r_id s \<noteq> i" if "s \<in> set ts" for s using that r_id_in_ids [of s] by auto
  then have "filter (\<lambda>s. r_id s \<noteq> i) ts = ts" by (simp add: filter_id_conv)
  moreover have "prune i s = s" if "s \<in> set ts" for s using that 1 calculation by auto
  ultimately show ?case by (simp add: map_idI)
qed

lemma prunes_absent: "i \<notin> set (forest_ids us) \<Longrightarrow> prunes i us = us"
proof (induction us)
  case (Cons u us)
  then have "r_id u \<noteq> i" using r_id_in_ids [of u] by auto
  then show ?case using Cons by simp
qed simp

lemma split_forest:
  assumes "i \<in> set (forest_ids ts)" and "distinct (forest_ids ts)"
  obtains us t vs where "ts = us @ t # vs" and "i \<in> set (ids t)"
    and "i \<notin> set (forest_ids us)" and "i \<notin> set (forest_ids vs)"
proof -
  obtain t where t: "t \<in> set ts" "i \<in> set (ids t)" using assms(1) by auto
  then obtain us vs where ts: "ts = us @ t # vs" by (meson split_list)
  have "set (forest_ids us) \<inter> set (ids t) = {}" "set (ids t) \<inter> set (forest_ids vs) = {}"
    using assms(2) unfolding ts by auto
  then have "i \<notin> set (forest_ids us)" "i \<notin> set (forest_ids vs)" using t(2) by blast+
  then show thesis using that ts t(2) by blast
qed

text \<open>
  The place of a subtree: the entries before and after it do not depend on what the subtree is, as
  long as its root keeps the identity.
\<close>

definition place ::
  "node_id option \<Rightarrow> node_id \<Rightarrow> 'a rose list \<Rightarrow> node_id option \<Rightarrow> 'a rose \<Rightarrow>
   (node_id \<times> 'a tree_node) list \<Rightarrow> (node_id \<times> 'a tree_node) list \<Rightarrow> bool" where
  "place p i ts q s A B \<longleftrightarrow> r_id s = i \<and> flats p ts = A @ flat q s @ B \<and>
     (\<forall>f. r_id (f s) = i \<longrightarrow> flats p (map (upd i f) ts) = A @ flat q (f s) @ B \<and>
        map r_id (map (upd i f) ts) = map r_id ts)"

lemma map_upd_absent: "i \<notin> set (forest_ids us) \<Longrightarrow> map (upd i f) us = us"
  by (rule map_idI) simp

lemma place_root: "r_id t = i \<Longrightarrow> place p i [t] p t [] []"
  by (cases t) (auto simp: place_def)

lemma place_siblings:
  assumes "place p i [t] q s A B" and "i \<notin> set (forest_ids us)" and "i \<notin> set (forest_ids vs)"
  shows "place p i (us @ t # vs) q s (flats p us @ A) (B @ flats p vs)"
  using assms by (auto simp: place_def map_upd_absent)

lemma place_below:
  assumes "place (Some j) i ts q s A B" and "j \<noteq> i"
  shows "place p i [Rose j v ts] q s
    ((j, \<lparr>tn_id = j, tn_parent = p, tn_value = v, tn_children = map r_id ts\<rparr>) # A) B"
  using assms by (auto simp: place_def simp del: map_map)

lemma place_rose:
  "i \<in> set (ids t) \<Longrightarrow> distinct (ids t) \<Longrightarrow> \<exists>q s A B. place p i [t] q s A B"
proof (induction t arbitrary: p)
  case (Rose j v ts)
  show ?case
  proof (cases "j = i")
    case False
    then have "i \<in> set (forest_ids ts)" "distinct (forest_ids ts)" using Rose.prems by auto
    then obtain us t vs where ts: "ts = us @ t # vs" "i \<in> set (ids t)"
        "i \<notin> set (forest_ids us)" "i \<notin> set (forest_ids vs)" by (rule split_forest)
    then have "distinct (ids t)" "t \<in> set ts" using Rose.prems(2) by auto
    then obtain q s A B where "place (Some j) i [t] q s A B" using Rose.IH ts(2) by blast
    then show ?thesis using place_below [OF place_siblings [OF _ ts(3,4)] False] ts(1) by blast
  qed (use place_root [of "Rose j v ts" i p] in fastforce)
qed

lemma place_exists:
  assumes "i \<in> set (forest_ids ts)" and "distinct (forest_ids ts)"
  obtains q s A B where "place p i ts q s A B"
proof -
  obtain us t vs where ts: "ts = us @ t # vs" "i \<in> set (ids t)"
      "i \<notin> set (forest_ids us)" "i \<notin> set (forest_ids vs)" by (rule split_forest [OF assms])
  then have "distinct (ids t)" using assms(2) by auto
  then show thesis using place_rose [OF ts(2)] place_siblings [OF _ ts(3,4)] ts(1) that by blast
qed

text \<open>Dropping a subtree is either dropping a root or dropping a child of one node.\<close>

lemma prunes_root:
  assumes "distinct (forest_ids (us @ s # vs))" and "r_id s = i"
  shows "prunes i (us @ s # vs) = us @ vs"
proof -
  have "i \<in> set (ids s)" using assms(2) r_id_in_ids by blast
  then have "i \<notin> set (forest_ids us)" "i \<notin> set (forest_ids vs)" using assms(1) by auto
  then show ?thesis using assms(2) prunes_absent [of i us] prunes_absent [of i vs] by simp
qed

lemma drop_child_unfold [simp]: "drop_child i (Rose j v ts) = Rose j v (filter (\<lambda>c. r_id c \<noteq> i) ts)"
  by (simp add: drop_child_def)

lemma map_prune_absent: "i \<notin> set (forest_ids us) \<Longrightarrow> map (prune i) us = us"
  by (rule map_idI) simp

lemma prune_below:
  assumes "i \<in> set (ids t)" and "r_id t \<noteq> i" and "distinct (ids t)"
  shows "\<exists>k \<in> set (ids t). prune i t = upd k (drop_child i) t \<and>
    (\<forall>p. \<exists>n. (i, n) \<in> set (flat p t) \<and> tn_parent n = Some k)"
  using assms
proof (induction t)
  case (Rose j v ts)
  then have "i \<in> set (forest_ids ts)" and d: "distinct (forest_ids ts)" by auto
  then obtain us t vs where ts: "ts = us @ t # vs" "i \<in> set (ids t)"
      "i \<notin> set (forest_ids us)" "i \<notin> set (forest_ids vs)" by (rule split_forest)
  show ?case
  proof (cases "r_id t = i")
    case True
    have "prunes i ts = us @ vs" using prunes_root [of us t vs i] d ts(1) True by simp
    moreover have "filter (\<lambda>c. r_id c \<noteq> i) ts = us @ vs"
    proof -
      have "r_id u \<noteq> i" if "u \<in> set us \<union> set vs" for u using that ts(3,4) r_id_in_ids [of u] by auto
      then show ?thesis using True ts(1) by (simp add: filter_id_conv)
    qed
    ultimately have "prune i (Rose j v ts) = upd j (drop_child i) (Rose j v ts)"
      by (simp only: prune.simps upd.simps drop_child_unfold refl if_True)
    moreover have "\<exists>n. (i, n) \<in> set (flat (Some j) t) \<and> tn_parent n = Some j"
      using True by (cases t) auto
    then have "\<exists>n. (i, n) \<in> set (flat p (Rose j v ts)) \<and> tn_parent n = Some j" for p
      using ts(1) by auto
    ultimately show ?thesis by (intro bexI [of _ j]) auto
  next
    case False
    moreover have "t \<in> set ts" "distinct (ids t)" using ts(1) d by auto
    ultimately obtain k where k: "k \<in> set (ids t)" "prune i t = upd k (drop_child i) t"
        "\<And>p. \<exists>n. (i, n) \<in> set (flat p t) \<and> tn_parent n = Some k"
      using Rose.IH ts(2) by blast
    have "prunes i ts = us @ prune i t # vs"
      using prunes_absent [OF ts(3)] prunes_absent [OF ts(4)] ts(1) False by simp
    moreover have "set (forest_ids us) \<inter> set (ids t) = {}" "set (ids t) \<inter> set (forest_ids vs) = {}"
      using d unfolding ts(1) by auto
    then have "k \<notin> set (forest_ids us)" "k \<notin> set (forest_ids vs)" using k(1) by blast+
    then have "map (upd k (drop_child i)) ts = us @ prune i t # vs"
      using ts(1) k(2) by (simp add: map_upd_absent)
    moreover have "j \<noteq> k" using Rose.prems(3) k(1) \<open>t \<in> set ts\<close> by auto
    moreover have "\<exists>n. (i, n) \<in> set (flat p (Rose j v ts)) \<and> tn_parent n = Some k" for p
      using k(3) [of "Some j"] \<open>t \<in> set ts\<close> by auto
    ultimately show ?thesis using k(1) \<open>t \<in> set ts\<close> by (auto intro!: bexI [of _ k])
  qed
qed

lemma prunes_below:
  assumes "i \<in> set (forest_ids ts)" and "i \<notin> set (map r_id ts)" and "distinct (forest_ids ts)"
  obtains k n where "k \<in> set (forest_ids ts)" and "prunes i ts = map (upd k (drop_child i)) ts"
    and "(i, n) \<in> set (flats p ts)" and "tn_parent n = Some k"
proof -
  obtain us t vs where ts: "ts = us @ t # vs" "i \<in> set (ids t)"
      "i \<notin> set (forest_ids us)" "i \<notin> set (forest_ids vs)" using assms(1,3) by (rule split_forest)
  have "r_id t \<noteq> i" "distinct (ids t)" using assms(2,3) ts(1) by auto
  then obtain k n where k: "k \<in> set (ids t)" "prune i t = upd k (drop_child i) t"
      "(i, n) \<in> set (flat p t)" "tn_parent n = Some k"
    using prune_below [OF ts(2)] by blast
  have "prunes i ts = us @ prune i t # vs"
    using prunes_absent [OF ts(3)] prunes_absent [OF ts(4)] ts(1) \<open>r_id t \<noteq> i\<close> by simp
  moreover have "set (forest_ids us) \<inter> set (ids t) = {}" "set (ids t) \<inter> set (forest_ids vs) = {}"
    using assms(3) unfolding ts(1) by auto
  then have "k \<notin> set (forest_ids us)" "k \<notin> set (forest_ids vs)" using k(1) by blast+
  then have "map (upd k (drop_child i)) ts = us @ prune i t # vs"
    using ts(1) k(2) by (simp add: map_upd_absent)
  ultimately show thesis using k ts(1) that [of k n] by auto
qed

section \<open>Entry lists\<close>

text \<open>The identity index holds exactly the entries of the list, each key once.\<close>

definition entries :: "(node_id, 'a tree_node) btree_map \<Rightarrow> (node_id \<times> 'a tree_node) list \<Rightarrow> bool" where
  "entries ns L \<longleftrightarrow> bm_ok ns \<and> distinct (map fst L) \<and> (\<forall>i n. bm_get ns i = Some n \<longleftrightarrow> (i, n) \<in> set L)"

lemma entriesD:
  assumes "entries ns L"
  shows "bm_ok ns" and "distinct (map fst L)" and "bm_get ns i = Some n \<longleftrightarrow> (i, n) \<in> set L"
    and "bm_get ns i = None \<longleftrightarrow> i \<notin> set (map fst L)"
proof -
  show *: "bm_ok ns" "distinct (map fst L)" "\<And>i. bm_get ns i = Some n \<longleftrightarrow> (i, n) \<in> set L" for n
    using assms by (auto simp: entries_def)
  show "bm_get ns i = None \<longleftrightarrow> i \<notin> set (map fst L)"
    using *(3) [of i] by (cases "bm_get ns i") (force+)
qed

lemma entries_perm: "entries ns L \<Longrightarrow> mset ns = mset L"
proof -
  assume e: "entries ns L"
  have "set ns = set L" using entriesD(1,3) [OF e] bm_entry [of ns] by auto
  moreover have "distinct ns" "distinct L"
    using entriesD(1,2) [OF e] by (auto simp: bm_ok_def strict_sorted_iff distinct_map)
  ultimately show ?thesis by (simp add: set_eq_iff_mset_eq_distinct)
qed

lemma entries_update:
  assumes "entries ns (A @ (k, n) # B)"
  shows "entries (bm_update k f ns) (A @ (k, f n) # B)"
proof -
  have k: "k \<notin> fst ` set A" "k \<notin> fst ` set B" using entriesD(2) [OF assms] by auto
  have "bm_get ns k = Some n" using entriesD(3) [OF assms] by simp
  moreover have "bm_get ns i = Some m \<longleftrightarrow> (i, m) \<in> set A \<union> set B" if "i \<noteq> k" for i m
    using entriesD(3) [OF assms] that by auto
  ultimately show ?thesis using entriesD(1,2) [OF assms] k
    by (auto simp: entries_def image_iff)
qed

lemma entries_insert:
  assumes "entries ns (A @ B)" and "i \<notin> set (map fst (A @ B))"
  shows "entries (bm_insert i m ns) (A @ (i, m) # B)"
  using assms by (auto simp: entries_def bm_get_insert bm_ok_insert image_iff)

lemma entries_remove:
  assumes "entries ns (A @ C @ B)"
  shows "entries (fold bm_remove (map fst C) ns) (A @ B)"
proof -
  have d: "distinct (map fst (A @ C @ B))" using assms by (simp add: entries_def)
  have "bm_get (fold bm_remove (map fst C) ns) i = Some n \<longleftrightarrow> (i, n) \<in> set (A @ B)" for i n
  proof (cases "i \<in> fst ` set C")
    case True
    then have "i \<notin> fst ` set A" "i \<notin> fst ` set B" using d by auto
    then show ?thesis using True entriesD(1) [OF assms] by (auto simp: bt.get_del_all image_iff)
  next
    case False
    then show ?thesis using entriesD(1,3) [OF assms] by (auto simp: bt.get_del_all image_iff)
  qed
  then show ?thesis using entriesD(1) [OF assms] d by (auto simp: entries_def bt.inv_del_all)
qed

section \<open>Representation\<close>

definition allocator_ok :: "u64 option \<Rightarrow> node_id list \<Rightarrow> bool" where
  "allocator_ok nxt is \<longleftrightarrow> (\<forall>i \<in> set is. i \<le> u64_max) \<and>
     (\<forall>n. nxt = Some n \<longrightarrow> n \<le> u64_max \<and> (\<forall>i \<in> set is. i < n))"

definition represents :: "'a identity_tree \<Rightarrow> 'a rose list \<Rightarrow> bool" where
  "represents t ts \<longleftrightarrow> entries (it_nodes t) (flats None ts) \<and> it_roots t = map r_id ts \<and>
     allocator_ok (it_next_id t) (forest_ids ts)"

lemma representsD:
  assumes "represents t ts"
  shows "entries (it_nodes t) (flats None ts)" and "it_roots t = map r_id ts"
    and "allocator_ok (it_next_id t) (forest_ids ts)" and "distinct (forest_ids ts)"
    and "bm_ok (it_nodes t)"
    and "tree_get t i = Some n \<longleftrightarrow> (i, n) \<in> set (flats None ts)"
    and "tree_get t i = None \<longleftrightarrow> i \<notin> set (forest_ids ts)"
    and "tree_contains t i \<longleftrightarrow> i \<in> set (forest_ids ts)"
    and "tree_len t = length (forest_ids ts)"
proof -
  show e: "entries (it_nodes t) (flats None ts)" "it_roots t = map r_id ts"
    "allocator_ok (it_next_id t) (forest_ids ts)" using assms by (simp_all add: represents_def)
  show "distinct (forest_ids ts)" "bm_ok (it_nodes t)" using entriesD(1,2) [OF e(1)] by simp_all
  show "tree_get t i = Some n \<longleftrightarrow> (i, n) \<in> set (flats None ts)"
    and n: "tree_get t i = None \<longleftrightarrow> i \<notin> set (forest_ids ts)"
    using entriesD(3,4) [OF e(1)] map_fst_flats [of None ts] by (simp_all add: tree_get_def del: set_map)
  show "tree_contains t i \<longleftrightarrow> i \<in> set (forest_ids ts)" using n by (simp add: tree_contains_def)
  show "tree_len t = length (forest_ids ts)"
    using entries_perm [OF e(1)] map_fst_flats [of None ts] by (metis length_map size_mset tree_len_def)
qed

section \<open>Insertion\<close>

fun graft :: "node_id option \<Rightarrow> node_id \<Rightarrow> 'a \<Rightarrow> 'a rose list \<Rightarrow> 'a rose list" where
  "graft None i v ts = ts @ [Rose i v []]"
| "graft (Some p) i v ts = map (upd p (add_child (Rose i v []))) ts"

lemma represents_new: "represents tree_new []"
  by (simp add: represents_def entries_def tree_new_def allocator_ok_def bm_ok_def u64_max_def)

lemma allocator_after:
  "allocator_ok nxt is \<Longrightarrow> i \<le> u64_max \<Longrightarrow> set js = insert i (set is) \<Longrightarrow>
   allocator_ok (it_next_id (advance_allocator_past i (t\<lparr>it_next_id := nxt\<rparr>))) js"
  by (auto simp: allocator_ok_def advance_allocator_past_def checked_add_def less_Suc_eq_le
      split: option.splits)
    (meson less_imp_le_nat less_le_trans)

lemma advance_allocator_fields [simp]:
  "it_nodes (advance_allocator_past i t) = it_nodes t"
  "it_roots (advance_allocator_past i t) = it_roots t"
  "it_next_id (advance_allocator_past i (link_node p j v t)) = it_next_id (advance_allocator_past i t)"
  by (auto simp: advance_allocator_past_def link_node_def split: option.splits)

lemma link_node_fields [simp]:
  "it_nodes (link_node None i v t) = bm_insert i (tree_node_new i None v) (it_nodes t)"
  "it_nodes (link_node (Some p) i v t) =
     bm_insert i (tree_node_new i (Some p) v) (bm_update p (push_child i) (it_nodes t))"
  "it_roots (link_node None i v t) = it_roots t @ [i]"
  "it_roots (link_node (Some p) i v t) = it_roots t"
  by (simp_all add: link_node_def)

lemma flat_rose: "flat q s = (r_id s, \<lparr>tn_id = r_id s, tn_parent = q, tn_value = r_value s,
    tn_children = map r_id (r_children s)\<rparr>) # flats (Some (r_id s)) (r_children s)"
  by (cases s) simp

lemma represents_link_root:
  assumes "represents t ts" and "i \<notin> set (forest_ids ts)" and "i \<le> u64_max"
  shows "represents (advance_allocator_past i (link_node None i v t)) (ts @ [Rose i v []])"
proof -
  have "entries (bm_insert i (tree_node_new i None v) (it_nodes t))
      (flats None ts @ (i, tree_node_new i None v) # [])"
    using entries_insert [of "it_nodes t" "flats None ts" "[]" i] representsD(1) [OF assms(1)] assms(2)
      map_fst_flats [of None ts] by (simp del: set_map)
  moreover have "allocator_ok (it_next_id (advance_allocator_past i t)) (forest_ids (ts @ [Rose i v []]))"
    using allocator_after [OF representsD(3) [OF assms(1)] assms(3), of _ t] by simp
  ultimately show ?thesis
    using representsD(2) [OF assms(1)] by (simp add: represents_def tree_node_new_def)
qed

lemma represents_link_child:
  assumes "represents t ts" and "i \<notin> set (forest_ids ts)" and "i \<le> u64_max"
    and "p \<in> set (forest_ids ts)"
  shows "represents (advance_allocator_past i (link_node (Some p) i v t)) (graft (Some p) i v ts)"
proof -
  let ?f = "add_child (Rose i v [])"
  obtain q s A B where pl: "place None p ts q s A B"
    using place_exists [OF assms(4) representsD(4) [OF assms(1)]] .
  have sp: "r_id s = p" and old: "flats None ts = A @ flat q s @ B"
    and new: "flats None (map (upd p ?f) ts) = A @ flat q (?f s) @ B"
    and rts: "map r_id (map (upd p ?f) ts) = map r_id ts"
    using pl by (auto simp: place_def add_child_def)
  define n where "n = \<lparr>tn_id = p, tn_parent = q, tn_value = r_value s, tn_children = map r_id (r_children s)\<rparr>"
  define C where "C = flats (Some p) (r_children s)"
  have oldC: "flats None ts = A @ (p, n) # C @ B" using old sp by (simp add: n_def C_def flat_rose)
  have newC: "flats None (map (upd p ?f) ts) = A @ (p, push_child i n) # C @ (i, tree_node_new i (Some p) v) # B"
    using new sp by (simp add: n_def C_def add_child_def tree_node_new_def push_child_def)
  have "i \<notin> set (map fst (A @ (p, n) # C @ B))"
    using assms(2) map_fst_flats [of None ts] unfolding oldC by metis
  moreover have "entries (bm_update p (push_child i) (it_nodes t)) ((A @ (p, push_child i n) # C) @ B)"
    using entries_update [of "it_nodes t" A p n "C @ B" "push_child i"] representsD(1) [OF assms(1)] oldC by simp
  ultimately have "entries (bm_insert i (tree_node_new i (Some p) v) (bm_update p (push_child i) (it_nodes t)))
      (flats None (map (upd p ?f) ts))"
    using entries_insert [of _ "A @ (p, push_child i n) # C" B i] unfolding newC by fastforce
  moreover have "set (forest_ids (map (upd p ?f) ts)) = insert i (set (forest_ids ts))"
    using arg_cong [OF oldC, of "\<lambda>L. set (map fst L)"] arg_cong [OF newC, of "\<lambda>L. set (map fst L)"]
    unfolding map_fst_flats by auto
  then have "allocator_ok (it_next_id (advance_allocator_past i t)) (forest_ids (map (upd p ?f) ts))"
    using allocator_after [OF representsD(3) [OF assms(1)] assms(3), of _ t] by simp
  ultimately show ?thesis
    using representsD(2) [OF assms(1)] rts
    by (simp add: represents_def del: map_map)
qed

lemma represents_link:
  assumes "represents t ts" and "i \<notin> set (forest_ids ts)" and "i \<le> u64_max"
    and "\<And>p. parent = Some p \<Longrightarrow> p \<in> set (forest_ids ts)"
  shows "represents (advance_allocator_past i (link_node parent i v t)) (graft parent i v ts)"
proof (cases parent)
  case None
  then show ?thesis using represents_link_root [OF assms(1-3)] by simp
next
  case (Some p)
  then show ?thesis using represents_link_child [OF assms(1-3)] assms(4) by simp
qed

lemma require_parent_opt_eq:
  "represents t ts \<Longrightarrow> require_parent_opt parent t =
     (case parent of
        Some p \<Rightarrow> if p \<in> set (forest_ids ts) then (Ok (), t) else (Err (ParentNotFound p), t)
      | None \<Rightarrow> (Ok (), t))"
  by (auto simp: require_parent_opt_def require_parent_def representsD(8) split: option.splits)

lemma insert_with_id_cases:
  assumes "represents t ts"
  shows "insert_with_id parent i v t =
    (if i \<in> set (forest_ids ts) then (Err (DuplicateNodeId i), t)
     else case parent of
       Some p \<Rightarrow> if p \<in> set (forest_ids ts)
         then (Ok i, advance_allocator_past i (link_node parent i v t)) else (Err (ParentNotFound p), t)
     | None \<Rightarrow> (Ok i, advance_allocator_past i (link_node parent i v t)))"
  using assms by (auto simp: insert_with_id_def require_parent_opt_eq parent_entry_def representsD(8)
      and_then_def split: option.splits)

lemma allocate_fresh:
  assumes "represents t ts"
  shows "allocate_id t = (case it_next_id t of
      None \<Rightarrow> (Err NodeIdExhausted, t)
    | Some n \<Rightarrow> (Ok n, t\<lparr>it_next_id := checked_add u64_max n 1\<rparr>))"
    and "it_next_id t = Some n \<Longrightarrow> n \<notin> set (forest_ids ts) \<and> n \<le> u64_max \<and>
      represents (t\<lparr>it_next_id := checked_add u64_max n 1\<rparr>) ts"
proof -
  show *: "n \<notin> set (forest_ids ts) \<and> n \<le> u64_max \<and>
      represents (t\<lparr>it_next_id := checked_add u64_max n 1\<rparr>) ts" if "it_next_id t = Some n" for n
    using assms that by (auto simp: represents_def allocator_ok_def checked_add_def less_Suc_eq)
  show "allocate_id t = (case it_next_id t of
      None \<Rightarrow> (Err NodeIdExhausted, t)
    | Some n \<Rightarrow> (Ok n, t\<lparr>it_next_id := checked_add u64_max n 1\<rparr>))"
  proof (cases "it_next_id t")
    case (Some n)
    then have "\<not> tree_contains (t\<lparr>it_next_id := checked_add u64_max n 1\<rparr>) n"
      using * representsD(8) [of "t\<lparr>it_next_id := checked_add u64_max n 1\<rparr>" ts] by blast
    then show ?thesis using Some by (simp add: allocate_id.simps [of t] allocate_pass_def Let_def)
  qed (simp add: allocate_id.simps [of t] allocate_pass_def)
qed

text \<open>Insertion with an automatic identity: the identity is fresh and larger than all before.\<close>

lemma tree_insert_cases:
  assumes "represents t ts"
  shows "tree_insert parent v t =
    (case parent of
       Some p \<Rightarrow> if p \<notin> set (forest_ids ts) then (Err (ParentNotFound p), t)
         else (case it_next_id t of
             None \<Rightarrow> (Err NodeIdExhausted, t)
           | Some n \<Rightarrow> (Ok n, advance_allocator_past n (link_node parent n v (t\<lparr>it_next_id := checked_add u64_max n 1\<rparr>))))
     | None \<Rightarrow> (case it_next_id t of
             None \<Rightarrow> (Err NodeIdExhausted, t)
           | Some n \<Rightarrow> (Ok n, advance_allocator_past n (link_node parent n v (t\<lparr>it_next_id := checked_add u64_max n 1\<rparr>)))))"
proof -
  have alloc: "and_then allocate_id (\<lambda>i t1.
       (case insert_with_id parent i v t1 of
          (Ok j, t2) \<Rightarrow> (Ok j, t2)
        | (Err e, t2) \<Rightarrow> (Err e, t2\<lparr>it_next_id := it_next_id t\<rparr>))) t =
     (case it_next_id t of
        None \<Rightarrow> (Err NodeIdExhausted, t)
      | Some n \<Rightarrow> (Ok n, advance_allocator_past n (link_node parent n v (t\<lparr>it_next_id := checked_add u64_max n 1\<rparr>))))"
    if "\<And>p. parent = Some p \<Longrightarrow> p \<in> set (forest_ids ts)"
  proof (cases "it_next_id t")
    case (Some n)
    note al = allocate_fresh(2) [OF assms Some]
    show ?thesis using that Some al insert_with_id_cases [of _ ts parent n v]
      by (auto simp: and_then_def allocate_fresh(1) [OF assms] split: option.splits)
  qed (simp add: and_then_def allocate_fresh(1) [OF assms])
  show ?thesis
  proof (cases parent)
    case None
    then show ?thesis using alloc by (simp add: tree_insert_def require_parent_opt_eq [OF assms])
  next
    case (Some p)
    then show ?thesis using alloc by (simp add: tree_insert_def require_parent_opt_eq [OF assms])
  qed
qed

lemma represents_tree_insert:
  assumes "represents t ts" and "tree_insert parent v t = (Ok i, t')"
  shows "represents t' (graft parent i v ts)" and "it_next_id t = Some i" and "i \<notin> set (forest_ids ts)"
proof -
  have p: "\<And>p. parent = Some p \<Longrightarrow> p \<in> set (forest_ids ts)" and n: "it_next_id t = Some i"
    and t': "t' = advance_allocator_past i (link_node parent i v (t\<lparr>it_next_id := checked_add u64_max i 1\<rparr>))"
    using assms(2) by (auto simp: tree_insert_cases [OF assms(1)] split: option.splits if_splits)
  show "it_next_id t = Some i" by (rule n)
  note al = allocate_fresh(2) [OF assms(1) n]
  then show "i \<notin> set (forest_ids ts)" by simp
  show "represents t' (graft parent i v ts)" using represents_link [OF _ _ _ p] al unfolding t' by blast
qed

section \<open>Validation accepts every represented forest\<close>

lemma validate_roots_Ok:
  "validate_roots ns rs seen = Ok seen' \<longleftrightarrow>
     (\<forall>r \<in> set rs. \<exists>n. bm_get ns r = Some n \<and> tn_parent n = None) \<and> distinct rs \<and>
     set rs \<inter> seen = {} \<and> seen' = seen \<union> set rs"
  by (induction rs arbitrary: seen) (auto split: option.splits)

lemma validate_children_Ok:
  "validate_children ns i cs seen = Ok seen' \<longleftrightarrow>
     (\<forall>c \<in> set cs. \<exists>n. bm_get ns c = Some n \<and> tn_parent n = Some i) \<and> distinct cs \<and>
     set cs \<inter> seen = {} \<and> seen' = seen \<union> set cs"
  by (induction cs arbitrary: seen) (auto split: option.splits)

abbreviation children_of :: "(node_id \<times> 'a tree_node) list \<Rightarrow> node_id list" where
  "children_of es \<equiv> concat (map (\<lambda>e. tn_children (snd e)) es)"

lemma validate_entries_Ok:
  "validate_entries ns es seen = Ok seen' \<longleftrightarrow>
     (\<forall>(i, n) \<in> set es. tn_id n = i \<and> (\<forall>c \<in> set (tn_children n). \<exists>m. bm_get ns c = Some m \<and> tn_parent m = Some i)) \<and>
     distinct (children_of es) \<and> set (children_of es) \<inter> seen = {} \<and> seen' = seen \<union> set (children_of es)"
proof (induction es arbitrary: seen)
  case (Cons e es)
  obtain i n where e: "e = (i, n)" by fastforce
  have "validate_entries ns (e # es) seen = Ok seen' \<longleftrightarrow> tn_id n = i \<and>
      (\<exists>s. validate_children ns i (tn_children n) seen = Ok s \<and> validate_entries ns es s = Ok seen')"
    by (auto simp: e split: sum.splits)
  then show ?case unfolding validate_children_Ok Cons.IH by (auto simp: e)
qed auto

text \<open>What \<open>validate\<close> checks, as a property of the links.\<close>

definition links_ok :: "'a identity_tree \<Rightarrow> bool" where
  "links_ok t \<longleftrightarrow>
     (\<forall>r \<in> set (it_roots t). \<exists>n. tree_get t r = Some n \<and> tn_parent n = None) \<and>
     (\<forall>(i, n) \<in> set (it_nodes t). tn_id n = i \<and>
        (\<forall>c \<in> set (tn_children n). \<exists>m. tree_get t c = Some m \<and> tn_parent m = Some i)) \<and>
     distinct (it_roots t @ children_of (it_nodes t)) \<and>
     length (it_roots t @ children_of (it_nodes t)) = length (it_nodes t)"

lemma validate_iff: "validate t = Ok () \<longleftrightarrow> links_ok t"
proof -
  let ?L = "it_roots t @ children_of (it_nodes t)"
  have "validate t = Ok () \<longleftrightarrow> (\<exists>s. validate_roots (it_nodes t) (it_roots t) {} = Ok s \<and>
      (\<exists>s'. validate_entries (it_nodes t) (it_nodes t) s = Ok s' \<and> card s' = length (it_nodes t)))"
    by (auto simp: validate_def split: sum.splits)
  also have "\<dots> \<longleftrightarrow> links_ok t"
    unfolding validate_roots_Ok validate_entries_Ok links_ok_def tree_get_def
    using distinct_card [of ?L] by (auto simp: Int_commute)
  finally show ?thesis .
qed

lemma mset_extend: "add_mset a X = M \<Longrightarrow> Y + Z = N \<Longrightarrow> add_mset a (Y + (X + Z)) = M + N"
  by (auto simp: ac_simps)

lemma children_of_flat: "mset (children_of (flat p t)) + {#r_id t#} = mset (ids t)"
proof (induction t arbitrary: p)
  case (Rose i v ts)
  have "mset (children_of (flats (Some i) us)) + mset (map r_id us) = mset (forest_ids us)" if "set us \<subseteq> set ts" for us
    using that
  proof (induction us)
    case (Cons u us)
    then show ?case using Rose.IH [of u "Some i"] by (simp add: ac_simps mset_extend)
  qed simp
  from this [of ts] show ?case by (simp add: ac_simps)
qed

lemma children_of_flats: "mset (children_of (flats p ts)) + mset (map r_id ts) = mset (forest_ids ts)"
proof (induction ts)
  case (Cons t ts)
  then show ?case using children_of_flat [of p t] by (simp add: ac_simps mset_extend)
qed simp

lemma flat_parents:
  "(i, n) \<in> set (flat p t) \<Longrightarrow> tn_id n = i \<and>
     (\<forall>c \<in> set (tn_children n). \<exists>m. (c, m) \<in> set (flat p t) \<and> tn_parent m = Some i)"
proof (induction t arbitrary: p)
  case (Rose j v ts)
  show ?case
  proof (cases "(i, n) \<in> set (flats (Some j) ts)")
    case True
    then obtain u where u: "u \<in> set ts" "(i, n) \<in> set (flat (Some j) u)" by auto
    then have "set (flat (Some j) u) \<subseteq> set (flat p (Rose j v ts))" by auto
    then show ?thesis using Rose.IH [OF u] by blast
  next
    case False
    then have "i = j" and n: "n = \<lparr>tn_id = j, tn_parent = p, tn_value = v, tn_children = map r_id ts\<rparr>"
      using Rose.prems by auto
    moreover have "\<exists>m. (r_id t, m) \<in> set (flat (Some j) t) \<and> tn_parent m = Some j" for t :: "'a rose"
      by (cases t) auto
    ultimately show ?thesis by auto blast
  qed
qed

lemma flat_parent_entry:
  "(i, n) \<in> set (flat p t) \<Longrightarrow> i = r_id t \<and> tn_parent n = p \<or>
     (\<exists>k m. tn_parent n = Some k \<and> (k, m) \<in> set (flat p t) \<and> i \<in> set (tn_children m))"
proof (induction t arbitrary: p)
  case (Rose j v ts)
  show ?case
  proof (cases "(i, n) \<in> set (flats (Some j) ts)")
    case True
    then obtain u where u: "u \<in> set ts" "(i, n) \<in> set (flat (Some j) u)" by auto
    then have sub: "set (flat (Some j) u) \<subseteq> set (flat p (Rose j v ts))" by auto
    from Rose.IH [OF u] show ?thesis
    proof
      assume "i = r_id u \<and> tn_parent n = Some j"
      then have "tn_parent n = Some j" "i \<in> set (map r_id ts)" using u(1) by auto
      then show ?thesis by auto
    qed (use sub in blast)
  qed (use Rose.prems in auto)
qed

lemma mset_children_of:
  assumes "mset es = mset es'"
  shows "mset (children_of es) = mset (children_of es')"
proof -
  have "mset (children_of es) = sum_mset (image_mset (\<lambda>e. mset (tn_children (snd e))) (mset es))"
    for es :: "(node_id \<times> 'a tree_node) list"
    by (induction es) simp_all
  then show ?thesis using assms by simp
qed

lemma represents_links_ok:
  assumes "represents t ts"
  shows "links_ok t"
proof -
  let ?L = "flats None ts"
  note e = representsD(1) [OF assms]
  have "mset (children_of (it_nodes t)) = mset (children_of ?L)"
    by (rule mset_children_of [OF entries_perm [OF e]])
  then have perm: "mset (it_roots t @ children_of (it_nodes t)) = mset (forest_ids ts)"
    using children_of_flats [of None ts] representsD(2) [OF assms] by (simp add: add.commute del: mset_map)
  then have "distinct (it_roots t @ children_of (it_nodes t))"
    using representsD(4) [OF assms] mset_eq_imp_distinct_iff [OF perm] by simp
  moreover have "length (it_roots t @ children_of (it_nodes t)) = length (it_nodes t)"
    using mset_eq_length [OF perm] representsD(9) [OF assms] by (simp add: tree_len_def)
  moreover have "\<exists>n. tree_get t r = Some n \<and> tn_parent n = None" if r: "r \<in> set (it_roots t)" for r
  proof -
    obtain s where s: "s \<in> set ts" "r = r_id s" using r representsD(2) [OF assms] by auto
    then have "\<exists>n. (r, n) \<in> set (flat None s) \<and> tn_parent n = None"
      unfolding s(2) by (subst flat_rose) auto
    moreover have "set (flat None s) \<subseteq> set ?L" using s(1) by auto
    ultimately show ?thesis unfolding representsD(6) [OF assms] by blast
  qed
  moreover have "tn_id n = i \<and> (\<forall>c \<in> set (tn_children n). \<exists>m. tree_get t c = Some m \<and> tn_parent m = Some i)"
    if "(i, n) \<in> set (it_nodes t)" for i n
  proof -
    have "(i, n) \<in> set ?L" using that mset_eq_setD [OF entries_perm [OF e]] by simp
    then obtain s where s: "s \<in> set ts" "(i, n) \<in> set (flat None s)" by auto
    then have "set (flat None s) \<subseteq> set ?L" by auto
    then show ?thesis using flat_parents [OF s(2)] unfolding representsD(6) [OF assms] by blast
  qed
  ultimately show ?thesis unfolding links_ok_def by blast
qed

lemma represents_validate: "represents t ts \<Longrightarrow> validate t = Ok ()"
  by (simp add: validate_iff represents_links_ok)

section \<open>Subtrees and their worklists\<close>

text \<open>A subtree is stored: the index has every entry of it.\<close>

definition holds :: "'a identity_tree \<Rightarrow> node_id option \<Rightarrow> 'a rose \<Rightarrow> bool" where
  "holds t q s \<longleftrightarrow> (\<forall>(i, n) \<in> set (flat q s). tree_get t i = Some n)"

lemma holds_Rose [simp]:
  "holds t q (Rose i v ts) \<longleftrightarrow>
     tree_get t i = Some \<lparr>tn_id = i, tn_parent = q, tn_value = v, tn_children = map r_id ts\<rparr> \<and>
     (\<forall>c \<in> set ts. holds t (Some i) c)"
  by (auto simp: holds_def)

lemma holds_get: "holds t q s \<Longrightarrow> tree_get t (r_id s) = Some \<lparr>tn_id = r_id s, tn_parent = q,
    tn_value = r_value s, tn_children = map r_id (r_children s)\<rparr>"
  by (cases s) simp

lemma represents_holds: "represents t ts \<Longrightarrow> s \<in> set ts \<Longrightarrow> holds t None s"
  by (auto simp: holds_def representsD(6))

lemma place_holds: "represents t ts \<Longrightarrow> place None i ts q s A B \<Longrightarrow> holds t q s"
  by (auto simp: holds_def place_def representsD(6))

lemma push_pending_held:
  "(\<forall>c \<in> set us. holds t (Some i) c) \<Longrightarrow>
   push_pending t i (map r_id us) pending = Ok (rev (map r_id us) @ pending)"
  by (induction us arbitrary: pending) (auto simp: holds_get)

lemma collect_pass:
  assumes "holds t q (Rose i v ts)" and "i \<notin> seen"
  shows "collect_loop t acc seen (i # pending) = collect_loop t (acc @ [i]) (insert i seen) (map r_id ts @ pending)"
  using assms push_pending_held [of "rev ts" t i pending]
  by (subst collect_loop.simps) (simp add: rev_map)

lemma collect_rose:
  "holds t q s \<Longrightarrow> distinct (ids s) \<Longrightarrow> set (ids s) \<inter> seen = {} \<Longrightarrow>
   collect_loop t acc seen (r_id s # pending) = collect_loop t (acc @ ids s) (seen \<union> set (ids s)) pending"
proof (induction s arbitrary: q seen acc pending)
  case (Rose i v ts)
  have "collect_loop t acc seen (map r_id us @ pending) =
      collect_loop t (acc @ forest_ids us) (seen \<union> set (forest_ids us)) pending"
    if "set us \<subseteq> set ts" "distinct (forest_ids us)" "set (forest_ids us) \<inter> seen = {}" for us acc seen
    using that
  proof (induction us arbitrary: acc seen)
    case (Cons u us)
    have "holds t (Some i) u" "distinct (ids u)" "set (ids u) \<inter> seen = {}" using Cons.prems Rose.prems by auto
    then have "collect_loop t acc seen (r_id u # map r_id us @ pending) =
        collect_loop t (acc @ ids u) (seen \<union> set (ids u)) (map r_id us @ pending)"
      using Rose.IH [of u "Some i"] Cons.prems(1) by simp
    also have "\<dots> = collect_loop t ((acc @ ids u) @ forest_ids us) ((seen \<union> set (ids u)) \<union> set (forest_ids us)) pending"
      using Cons.prems by (intro Cons.IH) auto
    finally show ?case by (simp add: Un_assoc)
  qed simp
  from this [of ts "insert i seen" "acc @ [i]"] show ?case
    using Rose.prems collect_pass [of t q i v ts seen acc pending] by auto
qed

lemma collect_held:
  "holds t q s \<Longrightarrow> distinct (ids s) \<Longrightarrow> collect_subtree_ids t (r_id s) = Ok (ids s)"
  using collect_rose [of t q s "{}" "[]" "[]"] by (simp add: collect_subtree_ids_def collect_loop.simps [of t _ _ "[]"])

lemma collect_all_held:
  "(\<forall>c \<in> set us. holds t q c) \<Longrightarrow> distinct (forest_ids us) \<Longrightarrow>
   collect_all t (map r_id us) acc = Ok (acc @ forest_ids us)"
  by (induction us arbitrary: acc) (auto simp: collect_held)

end
