(* ===== verification/Tree_Mutation.thy ===== *)
theory Tree_Mutation
  imports Tree_Forest
begin

text \<open>
  Every mutation of the identity tree is an operation on the forest it represents: insertion appends
  a leaf, removal drops a subtree, clearing drops the children, replacement changes one value, and
  the hash view sorts siblings. A failed mutation leaves the tree as it was.
\<close>

section \<open>Removal\<close>

lemma remove_nodes_eq:
  assumes "bm_ok ns" and "i \<in> set cs" and "distinct cs" and "bm_get ns i = Some n"
  shows "remove_nodes i cs ns removed = (Some (tn_value n), fold bm_remove cs ns)"
  using assms
proof (induction cs arbitrary: ns removed)
  case (Cons c cs)
  have keep: "remove_nodes i ds ms (Some x) = (Some x, fold bm_remove ds ms)" if "i \<notin> set ds" for ds x
    and ms :: "(node_id, 'a tree_node) btree_map"
    using that by (induction ds arbitrary: ms) (auto split: option.splits)
  show ?case
  proof (cases "c = i")
    case True
    then show ?thesis using Cons.prems keep by simp
  next
    case False
    then show ?thesis using Cons.prems Cons.IH [of "bm_remove c ns"] by (simp add: bm_ok_remove bm_get_remove)
  qed
qed simp

text \<open>The tree after the subtree with the identities \<open>cs\<close> is unlinked and its nodes are dropped.\<close>

definition without :: "node_id \<Rightarrow> node_id list \<Rightarrow> node_id option \<Rightarrow> 'a identity_tree \<Rightarrow> 'a identity_tree" where
  "without i cs parent t =
     (case parent of
        Some p \<Rightarrow> t\<lparr>it_nodes := fold bm_remove cs (bm_update p (unlink i) (it_nodes t))\<rparr>
      | None \<Rightarrow> t\<lparr>it_nodes := fold bm_remove cs (it_nodes t), it_roots := filter (\<lambda>r. r \<noteq> i) (it_roots t)\<rparr>)"

lemma remove_subtree_held:
  assumes "represents t ts" and "holds t q s" and "distinct (ids s)"
    and "\<And>p. q = Some p \<Longrightarrow> tree_contains t p \<and> p \<notin> set (ids s)"
  shows "remove_subtree (r_id s) t = (Ok (r_value s), without (r_id s) (ids s) q t)"
proof -
  note g = holds_get [OF assms(2)]
  have get: "bm_get (it_nodes t) (r_id s) = Some \<lparr>tn_id = r_id s, tn_parent = q, tn_value = r_value s,
      tn_children = map r_id (r_children s)\<rparr>" using g by (simp add: tree_get_def)
  note ok = representsD(5) [OF assms(1)]
  have r: "remove_nodes (r_id s) (ids s) (it_nodes t) None = (Some (r_value s), fold bm_remove (ids s) (it_nodes t))"
    using remove_nodes_eq [OF ok _ assms(3) get] by simp
  have u: "remove_nodes (r_id s) (ids s) (bm_update p (unlink (r_id s)) (it_nodes t)) None =
      (Some (r_value s), fold bm_remove (ids s) (bm_update p (unlink (r_id s)) (it_nodes t)))"
    if "p \<noteq> r_id s" for p
    using remove_nodes_eq [of "bm_update p (unlink (r_id s)) (it_nodes t)" "r_id s" "ids s"] ok assms(3) get that
    by simp
  show ?thesis
  proof (cases q)
    case None
    then show ?thesis using r
      by (simp add: remove_subtree_def lookup_def g represents_validate [OF assms(1)]
          collect_held [OF assms(2,3)] unlink_from_def without_def)
  next
    case (Some p)
    then have "tree_contains t p" "p \<noteq> r_id s" using assms(4) by auto
    then show ?thesis using u Some
      by (simp add: remove_subtree_def lookup_def g represents_validate [OF assms(1)]
          collect_held [OF assms(2,3)] unlink_from_def without_def)
  qed
qed

lemma allocator_subset: "allocator_ok nxt is \<Longrightarrow> set js \<subseteq> set is \<Longrightarrow> allocator_ok nxt js"
  by (auto simp: allocator_ok_def)

lemma filter_roots:
  assumes "distinct (map r_id (us @ s # vs))"
  shows "filter (\<lambda>c. r_id c \<noteq> r_id s) (us @ s # vs) = us @ vs"
    and "filter (\<lambda>r. r \<noteq> r_id s) (map r_id (us @ s # vs)) = map r_id (us @ vs)"
proof -
  have "r_id u \<noteq> r_id s" if "u \<in> set us \<union> set vs" for u
    using assms that by (auto simp: image_iff)
  then show *: "filter (\<lambda>c. r_id c \<noteq> r_id s) (us @ s # vs) = us @ vs" by (simp add: filter_id_conv)
  show "filter (\<lambda>r. r \<noteq> r_id s) (map r_id (us @ s # vs)) = map r_id (us @ vs)"
    unfolding filter_map comp_def * ..
qed

lemma without_root:
  assumes "represents t (us @ s # vs)"
  shows "represents (without (r_id s) (ids s) None t) (us @ vs)"
proof -
  have "entries (it_nodes t) (flats None us @ flat None s @ flats None vs)"
    using representsD(1) [OF assms] by simp
  then have "entries (fold bm_remove (ids s) (it_nodes t)) (flats None us @ flats None vs)"
    using entries_remove [of "it_nodes t" "flats None us" "flat None s"] by simp
  moreover have "filter (\<lambda>r. r \<noteq> r_id s) (map r_id (us @ s # vs)) = map r_id (us @ vs)"
    by (rule filter_roots [OF distinct_roots [OF representsD(4) [OF assms]]])
  moreover have "allocator_ok (it_next_id t) (forest_ids (us @ vs))"
    by (rule allocator_subset [OF representsD(3) [OF assms]]) auto
  ultimately show ?thesis using representsD(2) [OF assms] by (simp add: represents_def without_def)
qed

text \<open>The subtree \<open>s\<close> among the children of the node \<open>k\<close>.\<close>

lemma represents_upd:
  assumes "represents t ts" and "place None k ts q s A B" and "r_id (f s) = k"
    and "entries ns (A @ flat q (f s) @ B)" and "set (ids (f s)) \<subseteq> set (ids s)"
  shows "represents (t\<lparr>it_nodes := ns\<rparr>) (map (upd k f) ts)"
proof -
  have new: "flats None (map (upd k f) ts) = A @ flat q (f s) @ B" "map r_id (map (upd k f) ts) = map r_id ts"
    and old: "flats None ts = A @ flat q s @ B" using assms(2,3) by (auto simp: place_def)
  have "set (forest_ids (map (upd k f) ts)) \<subseteq> set (forest_ids ts)"
    using arg_cong [OF new(1), of "\<lambda>L. set (map fst L)"] arg_cong [OF old, of "\<lambda>L. set (map fst L)"]
      assms(5) unfolding map_fst_flats map_append map_fst_flat by auto
  then have "allocator_ok (it_next_id t) (forest_ids (map (upd k f) ts))"
    by (rule allocator_subset [OF representsD(3) [OF assms(1)]])
  then show ?thesis
    using assms(4) new representsD(2) [OF assms(1)] by (simp add: represents_def del: map_map)
qed

lemma without_child:
  assumes "represents t ts" and "place None k ts q (Rose k w (us @ s # vs)) A B"
  shows "represents (without (r_id s) (ids s) (Some k) t) (map (upd k (drop_child (r_id s))) ts)"
proof -
  let ?s = "Rose k w (us @ s # vs)" and ?i = "r_id s"
  have old: "flats None ts = A @ flat q ?s @ B" using assms(2) by (simp add: place_def)
  then have dist: "distinct (map fst (A @ flat q ?s @ B))" using entriesD(2) [OF representsD(1) [OF assms(1)]] by simp
  then have "distinct (map fst (flat q ?s))" by (simp only: map_append distinct_append)
  then have d: "distinct (forest_ids (us @ s # vs))" unfolding map_fst_flat ids.simps distinct.simps by blast
  note f = filter_roots(1) [OF distinct_roots [OF d]] and fr = filter_roots(2) [OF distinct_roots [OF d]]
  define n where "n = \<lparr>tn_id = k, tn_parent = q, tn_value = w, tn_children = map r_id (us @ s # vs)\<rparr>"
  let ?F = "flats (Some k)"
  have "entries (it_nodes t) (A @ (k, n) # ?F us @ flat (Some k) s @ ?F vs @ B)"
    using representsD(1) [OF assms(1)] old by (simp add: n_def)
  then have "entries (bm_update k (unlink ?i) (it_nodes t))
      ((A @ (k, unlink ?i n) # ?F us) @ flat (Some k) s @ (?F vs @ B))"
    using entries_update by fastforce
  from entries_remove [OF this]
  have "entries (fold bm_remove (ids s) (bm_update k (unlink ?i) (it_nodes t))) (A @ flat q (drop_child ?i ?s) @ B)"
    using fr f by (simp add: n_def unlink_def)
  moreover have "set (ids (drop_child ?i ?s)) \<subseteq> set (ids ?s)" using f by auto
  ultimately show ?thesis
    using represents_upd [OF assms, of "drop_child ?i"] by (simp add: without_def)
qed

text \<open>Removal drops the subtree and returns the value of its root.\<close>

definition value_at :: "'a rose list \<Rightarrow> node_id \<Rightarrow> 'a option" where
  "value_at ts i = map_option tn_value (map_of (flats None ts) i)"

lemma value_at_held:
  assumes "represents t ts" and "tree_get t i = Some n"
  shows "value_at ts i = Some (tn_value n)"
proof -
  have "distinct (map fst (flats None ts))" "(i, n) \<in> set (flats None ts)"
    using assms representsD(4,6) [OF assms(1)] by simp_all
  then have "map_of (flats None ts) i = Some n" by (rule map_of_is_SomeI)
  then show ?thesis by (simp add: value_at_def)
qed

lemma remove_root_case:
  assumes "represents t ts" and "i \<in> set (map r_id ts)"
  shows "\<exists>v t'. remove_subtree i t = (Ok v, t') \<and> value_at ts i = Some v \<and> represents t' (prunes i ts)"
proof -
  obtain s where "s \<in> set ts" and i: "r_id s = i" using assms(2) by auto
  then obtain us vs where ts: "ts = us @ s # vs" by (meson split_list)
  have h: "holds t None s" using represents_holds [OF assms(1)] ts by simp
  have "distinct (ids s)" using representsD(4) [OF assms(1)] ts by simp
  then have "remove_subtree i t = (Ok (r_value s), without i (ids s) None t)"
    using remove_subtree_held [OF assms(1) h] i by simp
  moreover have "represents (without i (ids s) None t) (prunes i ts)"
    using without_root [of t us s vs] assms(1) prunes_root [of us s vs i] representsD(4) [OF assms(1)] ts i by simp
  moreover have "value_at ts i = Some (r_value s)"
    using value_at_held [OF assms(1) holds_get [OF h]] i by simp
  ultimately show ?thesis by blast
qed

lemma remove_child_case:
  assumes "represents t ts" and "i \<in> set (forest_ids ts)" and "i \<notin> set (map r_id ts)"
  shows "\<exists>v t'. remove_subtree i t = (Ok v, t') \<and> value_at ts i = Some v \<and> represents t' (prunes i ts)"
proof -
  note d = representsD(4) [OF assms(1)]
  obtain k n where k: "k \<in> set (forest_ids ts)" "prunes i ts = map (upd k (drop_child i)) ts"
      "(i, n) \<in> set (flats None ts)" "tn_parent n = Some k"
    using prunes_below [OF assms(2,3) d] by blast
  obtain q s A B where pl: "place None k ts q s A B" using place_exists [OF k(1) d] .
  obtain w cs where s: "s = Rose k w cs" using pl by (cases s) (auto simp: place_def)
  have "tree_get t k = Some \<lparr>tn_id = k, tn_parent = q, tn_value = w, tn_children = map r_id cs\<rparr>"
    using place_holds [OF assms(1) pl] s by simp
  moreover obtain m where "(k, m) \<in> set (flats None ts)" "i \<in> set (tn_children m)"
    using k(3,4) flat_parent_entry [of i n None] by fastforce
  ultimately have "i \<in> set (map r_id cs)" using representsD(6) [OF assms(1), of k m] by auto
  then obtain c where "c \<in> set cs" and i: "r_id c = i" by auto
  then obtain us vs where cs: "cs = us @ c # vs" by (meson split_list)
  have "holds t (Some k) c" using place_holds [OF assms(1) pl] s cs by simp
  moreover have "distinct (ids s)"
    using pl d map_fst_flats [of None ts] unfolding place_def by (metis distinct_append map_append map_fst_flat)
  then have "distinct (ids c)" "k \<notin> set (ids c)" using s cs by auto
  moreover have "tree_contains t k" using k(1) representsD(8) [OF assms(1)] by simp
  ultimately have "remove_subtree i t = (Ok (r_value c), without i (ids c) (Some k) t)"
    using remove_subtree_held [OF assms(1), of "Some k" c] i by simp
  moreover have "represents (without i (ids c) (Some k) t) (prunes i ts)"
    using without_child [OF assms(1), of k q w us c vs A B] pl s cs k(2) i by simp
  moreover have "value_at ts i = Some (r_value c)"
    using value_at_held [OF assms(1) holds_get [OF \<open>holds t (Some k) c\<close>]] i by simp
  ultimately show ?thesis by blast
qed

lemma remove_subtree_cases:
  assumes "represents t ts"
  shows "if i \<in> set (forest_ids ts)
    then \<exists>v t'. remove_subtree i t = (Ok v, t') \<and> value_at ts i = Some v \<and> represents t' (prunes i ts)
    else remove_subtree i t = (Err (NodeNotFound i), t)"
proof (cases "i \<in> set (forest_ids ts)")
  case True
  then show ?thesis using remove_root_case [OF assms] remove_child_case [OF assms True] by (cases "i \<in> set (map r_id ts)") auto
next
  case False
  then have "tree_get t i = None" using representsD(7) [OF assms] by simp
  then show ?thesis using False by (auto simp: remove_subtree_def lookup_def)
qed

section \<open>Clearing and replacing\<close>

lemma place_ids:
  assumes "represents t ts" and "place None i ts q s A B"
  shows "distinct (ids s)" and "tree_contains t i"
proof -
  have "map fst (flats None ts) = map fst A @ ids s @ map fst B" using assms(2) by (simp add: place_def)
  then have f: "forest_ids ts = map fst A @ ids s @ map fst B" by (simp only: map_fst_flats)
  show "distinct (ids s)" using representsD(4) [OF assms(1)] unfolding f by simp
  have "r_id s = i" using assms(2) by (simp add: place_def)
  then have "i \<in> set (forest_ids ts)" unfolding f using r_id_in_ids [of s] by simp
  then show "tree_contains t i" using representsD(8) [OF assms(1)] by simp
qed

lemma clear_children_held:
  assumes "represents t ts" and "place None i ts q (Rose i w cs) A B"
  shows "clear_children i t = (Ok (length (forest_ids cs)),
      t\<lparr>it_nodes := fold bm_remove (forest_ids cs) (bm_update i (\<lambda>n. n\<lparr>tn_children := []\<rparr>) (it_nodes t))\<rparr>)"
proof -
  have h: "tree_get t i = Some \<lparr>tn_id = i, tn_parent = q, tn_value = w, tn_children = map r_id cs\<rparr>"
    and c: "\<forall>c \<in> set cs. holds t (Some i) c" using place_holds [OF assms] by simp_all
  have "distinct (forest_ids cs)" using place_ids(1) [OF assms] by simp
  then have "collect_all t (map r_id cs) [] = Ok (forest_ids cs)" using collect_all_held [OF c] by simp
  then show ?thesis
    using place_ids(2) [OF assms]
    by (simp add: clear_children_def lookup_def tree_children_def map_ok_def h represents_validate [OF assms(1)])
qed

lemma represents_cut:
  assumes "represents t ts" and "place None i ts q (Rose i w cs) A B"
  shows "represents (t\<lparr>it_nodes := fold bm_remove (forest_ids cs)
      (bm_update i (\<lambda>n. n\<lparr>tn_children := []\<rparr>) (it_nodes t))\<rparr>) (map (upd i cut_children) ts)"
proof -
  define n where "n = \<lparr>tn_id = i, tn_parent = q, tn_value = w, tn_children = map r_id cs\<rparr>"
  let ?cut = "\<lambda>n. n\<lparr>tn_children := []\<rparr>"
  have "entries (it_nodes t) (A @ (i, n) # flats (Some i) cs @ B)"
    using representsD(1) [OF assms(1)] assms(2) by (simp add: place_def n_def)
  then have "entries (bm_update i ?cut (it_nodes t)) ((A @ [(i, ?cut n)]) @ flats (Some i) cs @ B)"
    using entries_update by fastforce
  from entries_remove [OF this]
  have "entries (fold bm_remove (forest_ids cs) (bm_update i ?cut (it_nodes t)))
      (A @ flat q (cut_children (Rose i w cs)) @ B)"
    by (simp add: n_def cut_children_def)
  then show ?thesis
    using represents_upd [OF assms, of cut_children] by (simp add: cut_children_def)
qed

lemma tree_replace_held:
  assumes "represents t ts" and "place None i ts q (Rose i w cs) A B"
  shows "tree_replace i v t = (Ok w, t\<lparr>it_nodes := bm_update i (\<lambda>n. n\<lparr>tn_value := v\<rparr>) (it_nodes t)\<rparr>)"
    and "represents (t\<lparr>it_nodes := bm_update i (\<lambda>n. n\<lparr>tn_value := v\<rparr>) (it_nodes t)\<rparr>) (map (upd i (set_value v)) ts)"
proof -
  define n where "n = \<lparr>tn_id = i, tn_parent = q, tn_value = w, tn_children = map r_id cs\<rparr>"
  have h: "tree_get t i = Some n" using place_holds [OF assms] by (simp add: n_def)
  then show "tree_replace i v t = (Ok w, t\<lparr>it_nodes := bm_update i (\<lambda>n. n\<lparr>tn_value := v\<rparr>) (it_nodes t)\<rparr>)"
    by (simp add: tree_replace_def lookup_def n_def)
  have "entries (it_nodes t) (A @ (i, n) # flats (Some i) cs @ B)"
    using representsD(1) [OF assms(1)] assms(2) by (simp add: place_def n_def)
  from entries_update [OF this, of "\<lambda>n. n\<lparr>tn_value := v\<rparr>"]
  have "entries (bm_update i (\<lambda>n. n\<lparr>tn_value := v\<rparr>) (it_nodes t)) (A @ flat q (set_value v (Rose i w cs)) @ B)"
    by (simp add: n_def set_value_def)
  then show "represents (t\<lparr>it_nodes := bm_update i (\<lambda>n. n\<lparr>tn_value := v\<rparr>) (it_nodes t)\<rparr>) (map (upd i (set_value v)) ts)"
    using represents_upd [OF assms, of "set_value v"] by (simp add: set_value_def)
qed

section \<open>Sorting siblings\<close>

fun sort_rose :: "'a rose \<Rightarrow> 'a rose" where
  "sort_rose (Rose i v ts) = Rose i v (sort_key r_id (map sort_rose ts))"

abbreviation sort_forest :: "'a rose list \<Rightarrow> 'a rose list" where
  "sort_forest ts \<equiv> sort_key r_id (map sort_rose ts)"

abbreviation sort_node :: "'a tree_node \<Rightarrow> 'a tree_node" where
  "sort_node n \<equiv> n\<lparr>tn_children := sort (tn_children n)\<rparr>"

lemma r_id_sort_rose [simp]: "r_id (sort_rose t) = r_id t"
  by (cases t) simp

lemma map_r_id_sort: "map r_id (sort_forest ts) = sort (map r_id ts)"
proof (rule properties_for_sort [symmetric])
  show "mset (map r_id (sort_forest ts)) = mset (map r_id ts)" by (simp add: multiset.map_comp comp_def)
  show "sorted (map r_id (sort_forest ts))" by simp
qed

lemma mset_ids_sort: "mset (ids (sort_rose t)) = mset (ids t)"
proof (induction t)
  case (Rose i v ts)
  have "mset (forest_ids (sort_forest ts)) = sum_mset (image_mset (\<lambda>s. mset (ids s)) (mset (map sort_rose ts)))"
    by (simp add: mset_concat comp_def flip: sum_mset_sum_list)
  also have "\<dots> = sum_mset (image_mset (\<lambda>s. mset (ids s)) (mset ts))"
    using Rose.IH by (auto simp: multiset.map_comp comp_def intro!: arg_cong [of _ _ sum_mset] image_mset_cong)
  also have "\<dots> = mset (forest_ids ts)" by (simp add: mset_concat comp_def flip: sum_mset_sum_list)
  finally show ?case by simp
qed

lemma mset_forest_ids_sort: "mset (forest_ids (sort_forest ts)) = mset (forest_ids ts)"
  using mset_ids_sort [of "Rose 0 undefined ts"] by simp

lemma set_flat_sort: "set (flat p (sort_rose t)) = (\<lambda>(i, n). (i, sort_node n)) ` set (flat p t)"
proof (induction t arbitrary: p)
  case (Rose i v ts)
  have "set (flats (Some i) (sort_forest ts)) = (\<Union>t \<in> set ts. set (flat (Some i) (sort_rose t)))" by auto
  also have "\<dots> = (\<lambda>(i, n). (i, sort_node n)) ` set (flats (Some i) ts)" using Rose.IH by (simp add: image_UN)
  finally show ?case using map_r_id_sort [of ts] by simp
qed

lemma sorted_entry: "(i, n) \<in> (\<lambda>(i, n). (i, sort_node n)) ` S \<longleftrightarrow> (\<exists>m. (i, m) \<in> S \<and> n = sort_node m)"
  by force

lemma represents_normalize:
  assumes "represents t ts"
  shows "represents (normalize t) (sort_forest ts)"
proof -
  have s: "set (flats None (sort_forest ts)) = (\<lambda>(i, n). (i, sort_node n)) ` set (flats None ts)"
    by (simp add: set_flat_sort image_UN)
  have d: "distinct (forest_ids (sort_forest ts))"
    using mset_eq_imp_distinct_iff [OF mset_forest_ids_sort] representsD(4) [OF assms] by blast
  have "map_option sort_node (bm_get (it_nodes t) i) = Some n \<longleftrightarrow>
      (i, n) \<in> (\<lambda>(i, n). (i, sort_node n)) ` set (flats None ts)" for i n
    unfolding sorted_entry entriesD(3) [OF representsD(1) [OF assms], of i, symmetric] by auto
  then have "entries (bm_map_values sort_node (it_nodes t)) (flats None (sort_forest ts))"
    using d entriesD(1) [OF representsD(1) [OF assms]]
    by (simp only: entries_def s map_fst_flats bm_ok_map_values bm_get_map_values simp_thms)
  moreover have "allocator_ok (it_next_id t) (forest_ids (sort_forest ts))"
    using allocator_subset [OF representsD(3) [OF assms]] mset_eq_setD [OF mset_forest_ids_sort [of ts]] by simp
  ultimately show ?thesis
    using representsD(2) [OF assms] map_r_id_sort [of ts] by (simp add: represents_def normalize_def)
qed

section \<open>Commands\<close>

text \<open>The mutations as commands, and the specification: the same commands on a forest and a counter.\<close>

datatype 'a tree_cmd =
    InsertNode "node_id option" 'a
  | InsertWithId "node_id option" node_id 'a
  | ReplaceValue node_id 'a
  | ReplaceSubtree node_id 'a
  | RemoveSubtree node_id
  | RemoveLeaf node_id
  | ClearChildren node_id
  | NormalizeOrder

datatype 'a reply = Identity node_id | Returned 'a | Removed usize | Refused tree_error | Finished

fun reply_of :: "('b \<Rightarrow> 'a reply) \<Rightarrow> (tree_error, 'b) result \<times> 'a identity_tree \<Rightarrow> 'a reply \<times> 'a identity_tree" where
  "reply_of f (Ok x, t) = (f x, t)"
| "reply_of f (Err e, t) = (Refused e, t)"

fun run_cmd :: "'a tree_cmd \<Rightarrow> 'a identity_tree \<Rightarrow> 'a reply \<times> 'a identity_tree" where
  "run_cmd (InsertNode p v) t = reply_of Identity (tree_insert p v t)"
| "run_cmd (InsertWithId p i v) t = reply_of Identity (insert_with_id p i v t)"
| "run_cmd (ReplaceValue i v) t = reply_of Returned (tree_replace i v t)"
| "run_cmd (ReplaceSubtree i v) t = reply_of Returned (replace_subtree i v t)"
| "run_cmd (RemoveSubtree i) t = reply_of Returned (remove_subtree i t)"
| "run_cmd (RemoveLeaf i) t = reply_of Returned (remove_leaf i t)"
| "run_cmd (ClearChildren i) t = reply_of Removed (clear_children i t)"
| "run_cmd NormalizeOrder t = (Finished, normalize t)"

type_synonym 'a forest_state = "'a rose list \<times> u64 option"

fun missing_parent :: "node_id option \<Rightarrow> 'a rose list \<Rightarrow> node_id option" where
  "missing_parent None ts = None"
| "missing_parent (Some p) ts = (if p \<in> set (forest_ids ts) then None else Some p)"

definition next_past :: "node_id \<Rightarrow> u64 option \<Rightarrow> u64 option" where
  "next_past i nxt = (case nxt of Some n \<Rightarrow> if n \<le> i then checked_add u64_max i 1 else nxt | None \<Rightarrow> None)"

definition stored :: "'a rose list \<Rightarrow> node_id \<Rightarrow> ('a tree_node \<Rightarrow> 'a reply \<times> 'a rose list) \<Rightarrow> u64 option \<Rightarrow> 'a reply \<times> 'a forest_state" where
  "stored ts i f nxt = (case map_of (flats None ts) i of
     None \<Rightarrow> (Refused (NodeNotFound i), ts, nxt)
   | Some n \<Rightarrow> (case f n of (r, ts') \<Rightarrow> (r, ts', nxt)))"

fun forest_cmd :: "'a tree_cmd \<Rightarrow> 'a forest_state \<Rightarrow> 'a reply \<times> 'a forest_state" where
  "forest_cmd (InsertNode p v) (ts, nxt) =
     (case missing_parent p ts of
        Some k \<Rightarrow> (Refused (ParentNotFound k), ts, nxt)
      | None \<Rightarrow> (case nxt of
          None \<Rightarrow> (Refused NodeIdExhausted, ts, nxt)
        | Some i \<Rightarrow> (Identity i, graft p i v ts, checked_add u64_max i 1)))"
| "forest_cmd (InsertWithId p i v) (ts, nxt) =
     (if i \<in> set (forest_ids ts) then (Refused (DuplicateNodeId i), ts, nxt)
      else (case missing_parent p ts of
          Some k \<Rightarrow> (Refused (ParentNotFound k), ts, nxt)
        | None \<Rightarrow> (Identity i, graft p i v ts, next_past i nxt)))"
| "forest_cmd (ReplaceValue i v) (ts, nxt) =
     stored ts i (\<lambda>n. (Returned (tn_value n), map (upd i (set_value v)) ts)) nxt"
| "forest_cmd (ReplaceSubtree i v) (ts, nxt) =
     stored ts i (\<lambda>n. (Returned (tn_value n), map (upd i (set_value v)) (map (upd i cut_children) ts))) nxt"
| "forest_cmd (RemoveSubtree i) (ts, nxt) = stored ts i (\<lambda>n. (Returned (tn_value n), prunes i ts)) nxt"
| "forest_cmd (RemoveLeaf i) (ts, nxt) =
     stored ts i (\<lambda>n. if tn_children n \<noteq> [] then (Refused (NodeHasChildren i), ts)
       else (Returned (tn_value n), prunes i ts)) nxt"
| "forest_cmd (ClearChildren i) (ts, nxt) =
     stored ts i (\<lambda>n. (Removed (length (forest_ids ts) - length (forest_ids (map (upd i cut_children) ts))),
       map (upd i cut_children) ts)) nxt"
| "forest_cmd NormalizeOrder (ts, nxt) = (Finished, sort_forest ts, nxt)"

text \<open>Identities are 64-bit: a caller-supplied one is in range.\<close>

fun cmd_ok :: "'a tree_cmd \<Rightarrow> bool" where
  "cmd_ok (InsertWithId _ i _) \<longleftrightarrow> i \<le> u64_max"
| "cmd_ok _ \<longleftrightarrow> True"

definition simulates :: "'a reply \<times> 'a identity_tree \<Rightarrow> 'a reply \<times> 'a forest_state \<Rightarrow> bool" where
  "simulates out spec \<longleftrightarrow> fst spec = fst out \<and> represents (snd out) (fst (snd spec)) \<and>
     snd (snd spec) = it_next_id (snd out)"

lemma map_of_represents: "represents t ts \<Longrightarrow> map_of (flats None ts) i = tree_get t i"
proof -
  assume r: "represents t ts"
  have "distinct (map fst (flats None ts))" using representsD(4) [OF r] by simp
  then have "map_of (flats None ts) i = Some n \<longleftrightarrow> tree_get t i = Some n" for n
    using representsD(6) [OF r] by simp
  then show "map_of (flats None ts) i = tree_get t i" by (metis not_None_eq)
qed

lemma stored_eq:
  "represents t ts \<Longrightarrow> stored ts i f nxt = (case tree_get t i of
     None \<Rightarrow> (Refused (NodeNotFound i), ts, nxt)
   | Some n \<Rightarrow> (case f n of (r, ts') \<Rightarrow> (r, ts', nxt)))"
  by (simp add: stored_def map_of_represents)

text \<open>A stored node with its place in the forest.\<close>

lemma stored_place:
  assumes "represents t ts" and "tree_get t i = Some n"
  obtains q cs A B where "place None i ts q (Rose i (tn_value n) cs) A B"
proof -
  have "i \<in> set (forest_ids ts)" using assms representsD(7) [OF assms(1), of i] by auto
  then obtain q s A B where pl: "place None i ts q s A B"
    using place_exists representsD(4) [OF assms(1)] by blast
  then obtain w cs where s: "s = Rose i w cs" by (cases s) (auto simp: place_def)
  then have "n = \<lparr>tn_id = i, tn_parent = q, tn_value = w, tn_children = map r_id cs\<rparr>"
    using place_holds [OF assms(1) pl] assms(2) by simp
  then show thesis using pl s that by simp
qed

lemma not_stored:
  "tree_get t i = None \<Longrightarrow> tree_replace i v t = (Err (NodeNotFound i), t)"
  "tree_get t i = None \<Longrightarrow> replace_subtree i v t = (Err (NodeNotFound i), t)"
  "tree_get t i = None \<Longrightarrow> remove_subtree i t = (Err (NodeNotFound i), t)"
  "tree_get t i = None \<Longrightarrow> remove_leaf i t = (Err (NodeNotFound i), t)"
  "tree_get t i = None \<Longrightarrow> clear_children i t = (Err (NodeNotFound i), t)"
  by (simp_all add: tree_replace_def replace_subtree_def remove_subtree_def remove_leaf_def
      clear_children_def is_leaf_def map_ok_def lookup_def)

lemma forest_ids_cut:
  assumes "place None i ts q (Rose i w cs) A B"
  shows "length (forest_ids ts) - length (forest_ids (map (upd i cut_children) ts)) = length (forest_ids cs)"
proof -
  have "flats None ts = A @ flat q (Rose i w cs) @ B"
    "flats None (map (upd i cut_children) ts) = A @ flat q (cut_children (Rose i w cs)) @ B"
    using assms by (auto simp: place_def cut_children_def)
  from arg_cong [OF this(1), of "\<lambda>L. length (map fst L)"] arg_cong [OF this(2), of "\<lambda>L. length (map fst L)"]
  show ?thesis unfolding map_fst_flats map_append map_fst_flat length_append by (simp add: cut_children_def)
qed

lemma missing_parent_eq_None: "missing_parent p ts = None \<longleftrightarrow> (\<forall>k. p = Some k \<longrightarrow> k \<in> set (forest_ids ts))"
  by (cases p) auto

lemma missing_parent_eq_Some: "missing_parent p ts = Some k \<longleftrightarrow> p = Some k \<and> k \<notin> set (forest_ids ts)"
  by (cases p) auto

lemma simulate_insert:
  assumes "represents t ts"
  shows "simulates (run_cmd (InsertNode p v) t) (forest_cmd (InsertNode p v) (ts, it_next_id t))"
proof (cases "missing_parent p ts")
  case (Some k)
  then have "tree_insert p v t = (Err (ParentNotFound k), t)"
    unfolding missing_parent_eq_Some by (simp add: tree_insert_cases [OF assms])
  then show ?thesis using Some assms by (simp add: simulates_def)
next
  case None
  note par = None
  show ?thesis
  proof (cases "it_next_id t")
    case None
    then have "tree_insert p v t = (Err NodeIdExhausted, t)"
      using par unfolding missing_parent_eq_None by (cases p) (simp_all add: tree_insert_cases [OF assms])
    then show ?thesis using None par assms by (simp add: simulates_def)
  next
    case (Some i)
    let ?t = "advance_allocator_past i (link_node p i v (t\<lparr>it_next_id := checked_add u64_max i 1\<rparr>))"
    have ok: "tree_insert p v t = (Ok i, ?t)"
      using par Some unfolding missing_parent_eq_None by (cases p) (simp_all add: tree_insert_cases [OF assms])
    have "it_next_id ?t = checked_add u64_max i 1"
      by (simp only: advance_allocator_fields) (simp add: advance_allocator_past_def checked_add_def)
    then show ?thesis
      using par Some ok represents_tree_insert(1) [OF assms ok] by (simp add: simulates_def)
  qed
qed

lemma simulate_insert_with_id:
  assumes "represents t ts" and "i \<le> u64_max"
  shows "simulates (run_cmd (InsertWithId p i v) t) (forest_cmd (InsertWithId p i v) (ts, it_next_id t))"
proof (cases "i \<in> set (forest_ids ts)")
  case True
  then show ?thesis using assms(1) by (simp add: insert_with_id_cases [OF assms(1)] simulates_def)
next
  case fresh: False
  show ?thesis
  proof (cases "missing_parent p ts")
    case (Some k)
    then have "insert_with_id p i v t = (Err (ParentNotFound k), t)"
      using fresh unfolding missing_parent_eq_Some by (simp add: insert_with_id_cases [OF assms(1)])
    then show ?thesis using Some fresh assms(1) by (simp add: simulates_def)
  next
    case None
    then have p: "\<And>k. p = Some k \<Longrightarrow> k \<in> set (forest_ids ts)" by (simp only: missing_parent_eq_None)
    then have "insert_with_id p i v t = (Ok i, advance_allocator_past i (link_node p i v t))"
      using fresh by (cases p) (simp_all add: insert_with_id_cases [OF assms(1)])
    moreover have "it_next_id (advance_allocator_past i t) = next_past i (it_next_id t)"
      by (auto simp: advance_allocator_past_def next_past_def split: option.splits)
    ultimately show ?thesis
      using represents_link [OF assms(1) fresh assms(2) p, where v = v] None fresh by (simp add: simulates_def)
  qed
qed

lemma simulate_replace:
  assumes "represents t ts"
  shows "simulates (run_cmd (ReplaceValue i v) t) (forest_cmd (ReplaceValue i v) (ts, it_next_id t))"
proof (cases "tree_get t i")
  case (Some n)
  obtain q cs A B where pl: "place None i ts q (Rose i (tn_value n) cs) A B"
    by (rule stored_place [OF assms Some])
  show ?thesis using tree_replace_held [OF assms pl] Some by (simp add: simulates_def stored_eq [OF assms])
qed (simp add: simulates_def stored_eq [OF assms] not_stored assms)

lemma simulate_clear:
  assumes "represents t ts"
  shows "simulates (run_cmd (ClearChildren i) t) (forest_cmd (ClearChildren i) (ts, it_next_id t))"
proof (cases "tree_get t i")
  case (Some n)
  obtain q cs A B where pl: "place None i ts q (Rose i (tn_value n) cs) A B"
    by (rule stored_place [OF assms Some])
  show ?thesis
    using clear_children_held [OF assms pl] represents_cut [OF assms pl] forest_ids_cut [OF pl] Some
    by (simp add: simulates_def stored_eq [OF assms] del: map_map)
qed (simp add: simulates_def stored_eq [OF assms] not_stored assms)

text \<open>Removal does not touch the allocator.\<close>

definition same_next :: "'a identity_tree \<Rightarrow> 'a identity_tree \<Rightarrow> bool" where
  "same_next t t' \<longleftrightarrow> it_next_id t' = it_next_id t"

interpretation sn: method_relation same_next
  by unfold_locales (simp_all add: same_next_def)

lemma remove_subtree_keeps_next: "keeps same_next (remove_subtree i)"
  unfolding remove_subtree_def unlink_from_def
  by (intro sn.keeps_rules) (auto simp: keeps_def same_next_def split: prod.splits option.splits)

lemma remove_subtree_stored:
  assumes "represents t ts" and "tree_get t i = Some n"
  shows "\<exists>t'. remove_subtree i t = (Ok (tn_value n), t') \<and> represents t' (prunes i ts) \<and> it_next_id t' = it_next_id t"
proof -
  have "i \<in> set (forest_ids ts)" using assms representsD(7) [OF assms(1), of i] by auto
  then obtain v t' where r: "remove_subtree i t = (Ok v, t')" "value_at ts i = Some v" "represents t' (prunes i ts)"
    using remove_subtree_cases [OF assms(1), of i] by auto
  then have "v = tn_value n" using value_at_held [OF assms] by simp
  moreover have "same_next t t'"
    by (rule keepsD [OF remove_subtree_keeps_next r(1)])
  ultimately show ?thesis using r by (simp add: same_next_def)
qed

lemma simulate_remove:
  assumes "represents t ts"
  shows "simulates (run_cmd (RemoveSubtree i) t) (forest_cmd (RemoveSubtree i) (ts, it_next_id t))"
proof (cases "tree_get t i")
  case (Some n)
  then show ?thesis using remove_subtree_stored [OF assms Some] by (auto simp: simulates_def stored_eq [OF assms])
qed (simp add: simulates_def stored_eq [OF assms] not_stored assms)

lemma simulate_remove_leaf:
  assumes "represents t ts"
  shows "simulates (run_cmd (RemoveLeaf i) t) (forest_cmd (RemoveLeaf i) (ts, it_next_id t))"
proof (cases "tree_get t i")
  case (Some n)
  have "remove_leaf i t = (if tn_children n \<noteq> [] then (Err (NodeHasChildren i), t) else remove_subtree i t)"
    using Some by (simp add: remove_leaf_def is_leaf_def map_ok_def lookup_def)
  then show ?thesis using remove_subtree_stored [OF assms Some] Some assms
    by (auto simp: simulates_def stored_eq [OF assms])
qed (simp add: simulates_def stored_eq [OF assms] not_stored assms)

lemma simulate_replace_subtree:
  assumes "represents t ts"
  shows "simulates (run_cmd (ReplaceSubtree i v) t) (forest_cmd (ReplaceSubtree i v) (ts, it_next_id t))"
proof (cases "tree_get t i")
  case (Some n)
  obtain q cs A B where pl: "place None i ts q (Rose i (tn_value n) cs) A B"
    by (rule stored_place [OF assms Some])
  define t1 where "t1 = t\<lparr>it_nodes := fold bm_remove (forest_ids cs)
      (bm_update i (\<lambda>n. n\<lparr>tn_children := []\<rparr>) (it_nodes t))\<rparr>"
  let ?us = "map (upd i cut_children) ts"
  have r1: "represents t1 ?us" unfolding t1_def by (rule represents_cut [OF assms pl])
  have "i \<notin> set (forest_ids cs)" using place_ids(1) [OF assms pl] by simp
  then have g: "tree_get t1 i = Some (n\<lparr>tn_children := []\<rparr>)"
    using Some representsD(5) [OF assms] by (simp add: t1_def tree_get_def bt.get_del_all)
  obtain q' cs' A' B' where pl': "place None i ?us q' (Rose i (tn_value (n\<lparr>tn_children := []\<rparr>)) cs') A' B'"
    by (rule stored_place [OF r1 g])
  have "replace_subtree i v t = tree_replace i v t1"
    using Some clear_children_held [OF assms pl] by (simp add: replace_subtree_def lookup_def t1_def)
  then show ?thesis
    using tree_replace_held [OF r1 pl', of v] Some
    by (simp add: simulates_def stored_eq [OF assms] t1_def del: map_map)
qed (simp add: simulates_def stored_eq [OF assms] not_stored assms)

lemma simulate_cmd:
  assumes "represents t ts" and "cmd_ok c"
  shows "simulates (run_cmd c t) (forest_cmd c (ts, it_next_id t))"
proof (cases c)
  case NormalizeOrder
  then show ?thesis using represents_normalize [OF assms(1)] by (simp add: simulates_def normalize_def)
next
  case (InsertWithId p i v)
  then show ?thesis using simulate_insert_with_id [OF assms(1)] assms(2) by (simp only: cmd_ok.simps)
qed (simp_all only: simulate_insert [OF assms(1)] simulate_replace [OF assms(1)] simulate_clear [OF assms(1)]
    simulate_remove [OF assms(1)] simulate_remove_leaf [OF assms(1)] simulate_replace_subtree [OF assms(1)])

section \<open>Sequences of commands\<close>

fun run_cmds :: "'a tree_cmd list \<Rightarrow> 'a identity_tree \<Rightarrow> 'a reply list \<times> 'a identity_tree" where
  "run_cmds [] t = ([], t)"
| "run_cmds (c # cs) t = (case run_cmd c t of (r, t') \<Rightarrow> case run_cmds cs t' of (rs, t'') \<Rightarrow> (r # rs, t''))"

fun forest_cmds :: "'a tree_cmd list \<Rightarrow> 'a forest_state \<Rightarrow> 'a reply list \<times> 'a forest_state" where
  "forest_cmds [] s = ([], s)"
| "forest_cmds (c # cs) s = (case forest_cmd c s of (r, s') \<Rightarrow> case forest_cmds cs s' of (rs, s'') \<Rightarrow> (r # rs, s''))"

lemma simulate_cmds:
  "represents t ts \<Longrightarrow> (\<forall>c \<in> set cs. cmd_ok c) \<Longrightarrow>
   fst (run_cmds cs t) = fst (forest_cmds cs (ts, it_next_id t)) \<and>
   represents (snd (run_cmds cs t)) (fst (snd (forest_cmds cs (ts, it_next_id t)))) \<and>
   it_next_id (snd (run_cmds cs t)) = snd (snd (forest_cmds cs (ts, it_next_id t)))"
proof (induction cs arbitrary: t ts)
  case (Cons c cs)
  obtain r t' where rc: "run_cmd c t = (r, t')" by fastforce
  obtain r' ts' nx where fc: "forest_cmd c (ts, it_next_id t) = (r', ts', nx)" by (metis prod_cases3)
  have "r' = r" "represents t' ts'" "nx = it_next_id t'"
    using simulate_cmd [of t ts c] Cons.prems rc fc by (auto simp: simulates_def)
  then show ?case using Cons.IH [of t' ts'] Cons.prems(2) rc fc by (auto simp: split_def)
qed simp

lemma represents_unique:
  assumes "represents t ts" and "represents t' ts" and "it_next_id t = it_next_id t'"
  shows "t = t'"
proof -
  have "bm_get (it_nodes t) i = bm_get (it_nodes t') i" for i
    using map_of_represents [OF assms(1), of i] map_of_represents [OF assms(2), of i] by (simp add: tree_get_def)
  then have "it_nodes t = it_nodes t'"
    using bm_ext [OF representsD(5) [OF assms(1)] representsD(5) [OF assms(2)]] by blast
  then show ?thesis using representsD(2) [OF assms(1)] representsD(2) [OF assms(2)] assms(3) by simp
qed

lemma forest_cmd_refused: "forest_cmd c (ts, nx) = (Refused e, s) \<Longrightarrow> s = (ts, nx) \<and> (\<forall>d. e \<noteq> InvariantViolation d)"
  by (cases c) (auto simp: stored_def split: option.splits if_splits)

text \<open>C8: Refinement. Any sequence of mutations of a fresh identity tree replies exactly as the same
  sequence on an ordered forest: insertion appends a leaf under its parent, removal drops the whole
  subtree and returns the value of its root, clearing drops the descendants and counts them,
  replacement changes one value, the hash order sorts siblings; every error is the one the forest
  dictates. The resulting tree is the index of the resulting forest and passes its own validation.\<close>

theorem tree_commands_refine_forest:
  assumes "\<forall>c \<in> set cs. cmd_ok c"
    and "run_cmds cs tree_new = (replies, t)" and "forest_cmds cs ([], Some 1) = (replies', ts, nx)"
  shows "replies = replies' \<and> represents t ts \<and> it_next_id t = nx \<and> validate t = Ok ()"
  using simulate_cmds [OF represents_new assms(1)] assms(2,3) represents_validate [of t ts]
  by (simp add: tree_new_def)

definition example_cmds :: "string tree_cmd list" where
  "example_cmds = [InsertNode None ''plan'', InsertNode (Some 1) ''group'', InsertNode (Some 2) ''a'',
     InsertNode (Some 2) ''b'', RemoveLeaf 2, RemoveSubtree 3, InsertNode (Some 2) ''c'', ClearChildren 2]"

theorem tree_commands_refine_forest_witness:
  "fst (run_cmds example_cmds tree_new) =
     [Identity 1, Identity 2, Identity 3, Identity 4, Refused (NodeHasChildren 2), Returned ''a'',
      Identity 5, Removed 2] \<and>
   represents (snd (run_cmds example_cmds tree_new)) [Rose 1 ''plan'' [Rose 2 ''group'' []]]"
proof -
  have f: "forest_cmds example_cmds ([], Some 1) =
      ([Identity 1, Identity 2, Identity 3, Identity 4, Refused (NodeHasChildren 2), Returned ''a'',
        Identity 5, Removed 2], [Rose 1 ''plan'' [Rose 2 ''group'' []]], Some 6)"
    by (simp add: example_cmds_def stored_def add_child_def cut_children_def checked_add_def u64_max_def)
  obtain rs t where "run_cmds example_cmds tree_new = (rs, t)" by fastforce
  then show ?thesis
    using tree_commands_refine_forest [OF _ _ f, of rs t] by (simp add: example_cmds_def)
qed

text \<open>C9: Mutations are atomic. A refused mutation of a tree that represents a forest leaves every
  field of the tree as it was, the allocator included, and the refusal is never an internal
  invariant violation.\<close>

theorem refused_mutation_changes_nothing:
  assumes "represents t ts" and "cmd_ok c" and "run_cmd c t = (Refused e, t')"
  shows "t' = t \<and> (\<forall>d. e \<noteq> InvariantViolation d)"
proof -
  obtain r ts' nx where fc: "forest_cmd c (ts, it_next_id t) = (r, ts', nx)" by (metis prod_cases3)
  have s: "r = Refused e" "represents t' ts'" "nx = it_next_id t'"
    using simulate_cmd [OF assms(1,2)] unfolding simulates_def assms(3) fc by simp_all
  then have "(ts', nx) = (ts, it_next_id t)" "\<forall>d. e \<noteq> InvariantViolation d"
    using forest_cmd_refused [OF fc [unfolded s(1)]] by blast+
  then have "represents t' ts" "it_next_id t' = it_next_id t" using s by simp_all
  then have "t' = t" using represents_unique assms(1) by blast
  then show ?thesis using \<open>\<forall>d. e \<noteq> InvariantViolation d\<close> by blast
qed

theorem refused_mutation_changes_nothing_witness:
  "\<exists>e. run_cmd (RemoveLeaf 1) (snd (run_cmds [InsertNode None (0::nat), InsertNode (Some 1) 0] tree_new)) =
     (Refused e, snd (run_cmds [InsertNode None 0, InsertNode (Some 1) 0] tree_new)) \<and> e = NodeHasChildren 1"
proof -
  let ?t = "snd (run_cmds [InsertNode None (0::nat), InsertNode (Some 1) 0] tree_new)"
  have f: "forest_cmds [InsertNode None (0::nat), InsertNode (Some 1) 0] ([], Some 1) =
      ([Identity 1, Identity 2], [Rose 1 0 [Rose 2 0 []]], Some 3)"
    by (simp add: add_child_def checked_add_def u64_max_def)
  have r: "represents ?t [Rose 1 0 [Rose 2 0 []]]"
    using simulate_cmds [OF represents_new, of "[InsertNode None (0::nat), InsertNode (Some 1) 0]"] f
    by (simp add: tree_new_def)
  obtain x t' where x: "run_cmd (RemoveLeaf 1) ?t = (x, t')" by fastforce
  then have "x = Refused (NodeHasChildren 1)"
    using simulate_cmd [OF r, of "RemoveLeaf 1"] by (simp add: simulates_def stored_def)
  then show ?thesis using refused_mutation_changes_nothing [OF r _, of "RemoveLeaf 1"] x by simp
qed

lemma forest_cmd_next:
  assumes "forest_cmd c (ts, nx) = (r, ts', nx')"
  shows "\<forall>n'. nx' = Some n' \<longrightarrow> (\<exists>n. nx = Some n \<and> n \<le> n') \<and> (\<forall>i. r = Identity i \<longrightarrow> i < n')"
  using assms
  by (cases c) (auto simp: stored_def next_past_def checked_add_def split: option.splits if_splits)

lemma forest_cmds_next:
  "forest_cmds cs (ts, nx) = (rs, ts', nx') \<Longrightarrow>
   \<forall>n'. nx' = Some n' \<longrightarrow> (\<exists>n. nx = Some n \<and> n \<le> n') \<and> (\<forall>i. Identity i \<in> set rs \<longrightarrow> i < n')"
proof (induction cs arbitrary: ts nx rs)
  case (Cons c cs)
  obtain r ts1 nx1 where c: "forest_cmd c (ts, nx) = (r, ts1, nx1)" by (metis prod_cases3)
  obtain rs1 where cs: "forest_cmds cs (ts1, nx1) = (rs1, ts', nx')" "rs = r # rs1"
    using Cons.prems c by (auto split: prod.splits)
  show ?case using forest_cmd_next [OF c] Cons.IH [OF cs(1)] cs(2) by fastforce
qed auto

text \<open>C10: Automatically allocated identities are never reused: whatever was inserted (with automatic
  or supplied identities) and removed before, an insertion that lets the tree choose gets an
  identity that no earlier command returned.\<close>

theorem allocated_identity_is_new:
  assumes "\<forall>c \<in> set cs. cmd_ok c" and "run_cmds cs tree_new = (replies, t)"
    and "run_cmd (InsertNode p v) t = (Identity i, t')"
  shows "Identity i \<notin> set replies"
proof -
  obtain rs ts nx where f: "forest_cmds cs ([], Some 1) = (rs, ts, nx)" by (metis prod_cases3)
  have s: "rs = replies" "represents t ts" "nx = it_next_id t"
    using simulate_cmds [OF represents_new assms(1)] assms(2) f by (simp_all add: tree_new_def)
  have "\<exists>t'. tree_insert p v t = (Ok i, t')"
    using assms(3) by (cases "tree_insert p v t", cases "fst (tree_insert p v t)") auto
  then have "nx = Some i" using represents_tree_insert(2) [OF s(2)] s(3) by auto
  then show ?thesis using forest_cmds_next [OF f] s(1) by blast
qed

theorem allocated_identity_is_new_witness:
  "Identity 3 \<notin> set (fst (run_cmds [InsertNode None (7::nat), InsertWithId None 2 8, RemoveSubtree 2] tree_new))"
proof -
  let ?cs = "[InsertNode None (7::nat), InsertWithId None 2 8, RemoveSubtree 2]"
  have f: "forest_cmds ?cs ([], Some 1) = ([Identity 1, Identity 2, Returned 8], [Rose 1 7 []], Some 3)"
    by (simp add: stored_def next_past_def checked_add_def u64_max_def)
  obtain rs t where r: "run_cmds ?cs tree_new = (rs, t)" by fastforce
  have ok: "\<forall>c \<in> set ?cs. cmd_ok c" by (simp add: u64_max_def)
  have t: "represents t [Rose 1 7 []]" "it_next_id t = Some 3"
    using simulate_cmds [OF represents_new ok] f r by (simp_all add: tree_new_def)
  obtain x t' where x: "run_cmd (InsertNode None 9) t = (x, t')" by fastforce
  then have "x = Identity 3" using simulate_cmd [OF t(1), of "InsertNode None 9"] t(2) by (simp add: simulates_def)
  then show ?thesis using allocated_identity_is_new [OF ok r, of None 9 3 t'] x r by simp
qed

end
