(* ===== verification/Tree_Traversal.thy ===== *)
theory Tree_Traversal
  imports Tree_Mutation
begin

text \<open>
  The iterative traversals of \<open>crates/model/src/tree.rs\<close> against the forest that a tree represents: the
  preorder iterator, the checked visitor with its limits, and the enter and leave events. Each loop
  with its explicit stack is shown to return, and to visit the nodes in the order of the recursion.
\<close>

section \<open>Nodes of a represented tree\<close>

definition indexes :: "'a identity_tree \<Rightarrow> (node_id \<times> 'a tree_node) list \<Rightarrow> bool" where
  "indexes t L \<longleftrightarrow> (\<forall>(i, n) \<in> set L. tree_get t i = Some n)"

lemma indexes_append [simp]: "indexes t (K @ L) \<longleftrightarrow> indexes t K \<and> indexes t L"
  by (auto simp: indexes_def)

lemma indexes_Cons [simp]: "indexes t ((i, n) # L) \<longleftrightarrow> tree_get t i = Some n \<and> indexes t L"
  by (auto simp: indexes_def)

lemma represents_indexes:
  assumes "represents t ts"
  shows "indexes t (flats None ts)"
proof -
  have "tree_get t i = Some n" if "(i, n) \<in> set (flats None ts)" for i n
    unfolding tree_get_def entriesD(3) [OF representsD(1) [OF assms]] by (rule that)
  then show ?thesis unfolding indexes_def by blast
qed

lemma bump_child_eq: "k < usize_max \<Longrightarrow> bump_child \<lparr>pf_id = i, pf_next_child = k, pf_yielded = y\<rparr> =
    \<lparr>pf_id = i, pf_next_child = Suc k, pf_yielded = y\<rparr>"
  by (simp add: bump_child_def saturating_add_def)

section \<open>The checked visitor\<close>

text \<open>The reference: the nodes are visited one after the other.\<close>

fun visit_nodes ::
  "(string \<times> usize) option \<Rightarrow> ('a, 's) visitor \<Rightarrow> usize \<Rightarrow> 's \<Rightarrow> 'a tree_node list \<Rightarrow> (tree_error, usize \<times> 's) result" where
  "visit_nodes lim v cnt s [] = Ok (cnt, s)"
| "visit_nodes lim v cnt s (n # ns) =
     (case over_limit lim cnt of
        Some e \<Rightarrow> Err e
      | None \<Rightarrow>
          (case v s n of
             Err e \<Rightarrow> Err e
           | Ok s' \<Rightarrow> visit_nodes lim v (saturating_add usize_max cnt 1) s' ns))"

lemma visit_nodes_append:
  "visit_nodes lim v cnt s (xs @ ys) =
     (case visit_nodes lim v cnt s xs of Err e \<Rightarrow> Err e | Ok (cnt', s') \<Rightarrow> visit_nodes lim v cnt' s' ys)"
  by (induction xs arbitrary: cnt s) (auto split: option.splits sum.splits)

abbreviation continue_visit where
  "continue_visit t lim v q r \<equiv>
     (case r of Inl e \<Rightarrow> Some (Inl e) | Inr (cnt, s) \<Rightarrow> iterate (visit_pass t lim v) (q\<lparr>q_count := cnt, q_acc := s\<rparr>))"

lemma visit_step:
  "q_stack q \<noteq> [] \<Longrightarrow> visit_frame t lim v q = Again q' \<Longrightarrow> iterate (visit_pass t lim v) q = iterate (visit_pass t lim v) q'"
  "q_stack q \<noteq> [] \<Longrightarrow> visit_frame t lim v q = Break r \<Longrightarrow> iterate (visit_pass t lim v) q = Some r"
  by (simp_all add: visit_pass_def iterate_Again)

lemma visit_subtree:
  assumes "indexes t (flat p u)" and "distinct (ids u)" and "length (ids u) \<le> usize_max"
    and "q_stack q = preorder_frame_new (r_id u) # rest" and "set (ids u) \<inter> q_visited q = {r_id u}"
  shows "iterate (visit_pass t lim v) q =
    continue_visit t lim v (q\<lparr>q_stack := rest, q_visited := q_visited q \<union> set (ids u)\<rparr>)
      (visit_nodes lim v (q_count q) (q_acc q) (map snd (flat p u)))"
  using assms
proof (induction u arbitrary: p q rest)
  case (Rose i w us)
  let ?n = "\<lparr>tn_id = i, tn_parent = p, tn_value = w, tn_children = map r_id us\<rparr>"
  have get: "tree_get t i = Some ?n" using Rose.prems(1) by simp
  have children: "iterate (visit_pass t lim v) q =
      continue_visit t lim v (q\<lparr>q_stack := rest, q_visited := q_visited q \<union> set (forest_ids ds)\<rparr>)
        (visit_nodes lim v (q_count q) (q_acc q) (map snd (flats (Some i) ds)))"
    if "us = bs @ ds" "q_stack q = \<lparr>pf_id = i, pf_next_child = length bs, pf_yielded = True\<rparr> # rest"
      "set (forest_ids ds) \<inter> q_visited q = {}" for bs ds q
    using that
  proof (induction ds arbitrary: bs q)
    case Nil
    have "visit_frame t lim v q = Again (q\<lparr>q_stack := rest\<rparr>)"
      using Nil.prems get by (simp add: visit_frame_def)
    then show ?case using visit_step(1) [of q] Nil.prems(2) by simp
  next
    case (Cons d ds)
    let ?fr = "\<lparr>pf_id = i, pf_next_child = Suc (length bs), pf_yielded = True\<rparr>"
    let ?q = "q\<lparr>q_visited := insert (r_id d) (q_visited q), q_stack := preorder_frame_new (r_id d) # ?fr # rest\<rparr>"
    have small: "length bs < usize_max"
      using Rose.prems(3) length_roots [of us] Cons.prems(1) by simp
    have child: "vec_get (map r_id us) (length bs) = Some (r_id d)" by (simp add: Cons.prems(1) vec_get_def nth_append)
    have fresh: "set (ids d) \<inter> q_visited q = {}" "set (forest_ids ds) \<inter> q_visited q = {}" using Cons.prems(3) by auto
    then have "r_id d \<notin> q_visited q" using r_id_in_ids [of d] by blast
    then have "visit_frame t lim v q = Again ?q"
      using child Cons.prems(2) get small by (simp add: visit_frame_def bump_child_eq)
    then have 1: "iterate (visit_pass t lim v) q = iterate (visit_pass t lim v) ?q"
      using visit_step(1) [of q] Cons.prems(2) by simp
    have d: "d \<in> set us" using Cons.prems(1) by simp
    have "distinct (forest_ids us)" using Rose.prems(2) by simp
    then have "distinct (forest_ids bs @ ids d @ forest_ids ds)"
      unfolding Cons.prems(1) by (simp only: map_append concat_append list.map concat.simps)
    then have dist: "distinct (ids d)" "set (ids d) \<inter> set (forest_ids ds) = {}"
      unfolding distinct_append by blast+
    have 2: "iterate (visit_pass t lim v) ?q =
        continue_visit t lim v (?q\<lparr>q_stack := ?fr # rest, q_visited := q_visited ?q \<union> set (ids d)\<rparr>)
          (visit_nodes lim v (q_count ?q) (q_acc ?q) (map snd (flat (Some i) d)))"
    proof (rule Rose.IH [OF d])
      show "indexes t (flat (Some i) d)" using Rose.prems(1) Cons.prems(1) by simp
      show "length (ids d) \<le> usize_max" using Rose.prems(3) Cons.prems(1) by simp
      show "set (ids d) \<inter> q_visited ?q = {r_id d}" using fresh(1) r_id_in_ids [of d] by auto
    qed (simp_all add: dist)
    let ?V = "q_visited q \<union> set (ids d)"
    let ?q2 = "\<lambda>cnt s. q\<lparr>q_stack := ?fr # rest, q_visited := ?V, q_count := cnt, q_acc := s\<rparr>"
    have 3: "iterate (visit_pass t lim v) (?q2 cnt s) =
        continue_visit t lim v (q\<lparr>q_stack := rest, q_visited := ?V \<union> set (forest_ids ds)\<rparr>)
          (visit_nodes lim v cnt s (map snd (flats (Some i) ds)))" for cnt s
    proof -
      have "iterate (visit_pass t lim v) (?q2 cnt s) =
          continue_visit t lim v ((?q2 cnt s)\<lparr>q_stack := rest, q_visited := q_visited (?q2 cnt s) \<union> set (forest_ids ds)\<rparr>)
            (visit_nodes lim v (q_count (?q2 cnt s)) (q_acc (?q2 cnt s)) (map snd (flats (Some i) ds)))"
      proof (rule Cons.IH)
        show "us = (bs @ [d]) @ ds" using Cons.prems(1) by simp
        show "set (forest_ids ds) \<inter> q_visited (?q2 cnt s) = {}" using fresh(2) dist(2) by auto
      qed simp
      then show ?thesis by (simp split: sum.splits)
    qed
    have vis: "insert (r_id d) (q_visited q) \<union> set (ids d) = q_visited q \<union> set (ids d)" using r_id_in_ids [of d] by auto
    show ?case
      unfolding 1 2 using vis by (simp add: 3 visit_nodes_append Un_assoc split: sum.split)
  qed
  show ?case
  proof (cases "over_limit lim (q_count q)")
    case (Some e)
    then have "visit_frame t lim v q = Break (Err e)"
      using Rose.prems(4) get by (simp add: visit_frame_def preorder_frame_new_def)
    then show ?thesis using Some visit_step(2) [of q] Rose.prems(4) by simp
  next
    case None
    show ?thesis
    proof (cases "v (q_acc q) ?n")
      case (Inl e)
      then have "visit_frame t lim v q = Break (Err e)"
        using None Rose.prems(4) get by (simp add: visit_frame_def preorder_frame_new_def)
      then show ?thesis using None Inl visit_step(2) [of q] Rose.prems(4) by simp
    next
      case (Inr s)
      let ?q = "q\<lparr>q_stack := \<lparr>pf_id = i, pf_next_child = 0, pf_yielded = True\<rparr> # rest,
          q_count := saturating_add usize_max (q_count q) 1, q_acc := s\<rparr>"
      have "visit_frame t lim v q = Again ?q"
        using None Inr Rose.prems(4) get by (simp add: visit_frame_def preorder_frame_new_def)
      then have 1: "iterate (visit_pass t lim v) q = iterate (visit_pass t lim v) ?q"
        using visit_step(1) [of q] Rose.prems(4) by simp
      have vis: "q_visited q \<union> set (forest_ids us) = q_visited q \<union> set (ids (Rose i w us))" using Rose.prems(5) by auto
      have dis: "set (forest_ids us) \<inter> q_visited q = {}" using Rose.prems(2,5) by auto
      show ?thesis
        unfolding 1 using children [of "[]" us ?q] dis None Inr vis by (simp split: sum.splits)
    qed
  qed
qed


lemma visit_roots:
  assumes "indexes t (flats None ts)" and "distinct (forest_ids ts)" and "length (forest_ids ts) \<le> usize_max"
    and "it_roots t = map r_id (bs @ ts)" and "length (it_roots t) \<le> usize_max"
    and "q_stack q = []" and "q_next_root q = length bs" and "set (forest_ids ts) \<inter> q_visited q = {}"
  shows "iterate (visit_pass t lim v) q = Some (visit_nodes lim v (q_count q) (q_acc q) (map snd (flats None ts)))"
  using assms
proof (induction ts arbitrary: bs q)
  case Nil
  then have "visit_pass t lim v q = Break (Ok (q_count q, q_acc q))" by (simp add: visit_pass_def)
  then show ?case by simp
next
  case (Cons u ts)
  let ?q = "q\<lparr>q_next_root := Suc (length bs), q_visited := insert (r_id u) (q_visited q), q_stack := [preorder_frame_new (r_id u)]\<rparr>"
  have d: "distinct (ids u)" "set (ids u) \<inter> set (forest_ids ts) = {}" "distinct (forest_ids ts)"
    using Cons.prems(2) unfolding list.map concat.simps distinct_append by blast+
  have fresh: "set (ids u) \<inter> q_visited q = {}" "set (forest_ids ts) \<inter> q_visited q = {}" using Cons.prems(8) by auto
  then have new: "r_id u \<notin> q_visited q" using r_id_in_ids [of u] by blast
  have small: "length bs < usize_max" using Cons.prems(4,5) by simp
  have "vec_get (it_roots t) (q_next_root q) = Some (r_id u)"
    unfolding Cons.prems(4,7) by (simp add: vec_get_def nth_append)
  then have "visit_pass t lim v q = visit_pass t lim v ?q"
    using Cons.prems(6,7) new small by (simp add: visit_pass_def saturating_add_def)
  then have 1: "iterate (visit_pass t lim v) q = iterate (visit_pass t lim v) ?q" by (subst (1 2) iterate.simps) simp
  let ?V = "q_visited q \<union> set (ids u)"
  have 2: "iterate (visit_pass t lim v) ?q = continue_visit t lim v (?q\<lparr>q_stack := [], q_visited := q_visited ?q \<union> set (ids u)\<rparr>)
      (visit_nodes lim v (q_count ?q) (q_acc ?q) (map snd (flat None u)))"
  proof (rule visit_subtree)
    show "indexes t (flat None u)" "length (ids u) \<le> usize_max" using Cons.prems(1,3) by simp_all
    show "set (ids u) \<inter> q_visited ?q = {r_id u}" using fresh(1) r_id_in_ids [of u] by auto
  qed (simp_all add: d)
  have 3: "iterate (visit_pass t lim v) (q\<lparr>q_next_root := Suc (length bs), q_stack := [], q_visited := ?V, q_count := cnt, q_acc := s\<rparr>) =
      Some (visit_nodes lim v cnt s (map snd (flats None ts)))" for cnt s
    using Cons.IH [of "bs @ [u]" "q\<lparr>q_next_root := Suc (length bs), q_stack := [], q_visited := ?V, q_count := cnt, q_acc := s\<rparr>"]
      Cons.prems(1,3,4,5,6) d fresh(2) by (simp add: Int_Un_distrib Int_Un_distrib2 Int_commute)
  have vis: "insert (r_id u) (q_visited q \<union> set (ids u)) = ?V" using r_id_in_ids [of u] by auto
  show ?case unfolding 1 2 by (simp add: 3 vis visit_nodes_append split: sum.split)
qed

lemma represents_len:
  assumes "represents t ts"
  shows "tree_len t = length (forest_ids ts)"
  using entries_perm [OF representsD(1) [OF assms(1)]] map_fst_flats [of None ts]
  by (metis length_map size_mset tree_len_def)

lemma represented_len:
  assumes "represents t ts" and "tree_len t \<le> usize_max"
  shows "length (forest_ids ts) \<le> usize_max" and "length (it_roots t) \<le> usize_max"
proof -
  have "length (forest_ids ts) = tree_len t" using represents_len [OF assms(1)] by (rule sym)
  then show "length (forest_ids ts) \<le> usize_max" "length (it_roots t) \<le> usize_max"
    using assms(2) representsD(2) [OF assms(1)] length_roots [of ts] by simp_all
qed

lemma visit_is_preorder:
  assumes "represents t ts" and "tree_len t \<le> usize_max"
  shows "visit_preorder_checked t lim v s = Some (visit_nodes lim v 0 s (map snd (flats None ts)))"
proof -
  note len = represented_len [OF assms]
  let ?q = "\<lparr>q_next_root = 0, q_stack = [], q_visited = {}, q_count = 0, q_acc = s\<rparr>"
  have "iterate (visit_pass t lim v) ?q = Some (visit_nodes lim v (q_count ?q) (q_acc ?q) (map snd (flats None ts)))"
    by (rule visit_roots [where bs = "[]", OF represents_indexes [OF assms(1)] representsD(4) [OF assms(1)] len(1)])
      (use len(2) representsD(2) [OF assms(1)] in simp_all)
  then show ?thesis by (simp add: visit_preorder_checked_def)
qed

section \<open>The preorder iterator\<close>

abbreviation prepend :: "'a list \<Rightarrow> 'a list option \<Rightarrow> 'a list option" where
  "prepend xs \<equiv> map_option (\<lambda>ys. xs @ ys)"

lemma collect_step:
  "iter_pass t it = Again it' \<Longrightarrow> iter_collect t it = iter_collect t it'"
  "iter_pass t it = Break (Some n, it') \<Longrightarrow> iter_collect t it = prepend [n] (iter_collect t it')"
  "iter_pass t it = Break (None, it') \<Longrightarrow> iter_collect t it = Some []"
proof -
  show "iter_collect t it = iter_collect t it'" if "iter_pass t it = Again it'"
  proof -
    have "iter_next t it = iter_next t it'" using that by (simp add: iter_next_def iterate_Again)
    then show ?thesis by (subst (1 2) iter_collect.simps) simp
  qed
  show "iter_collect t it = prepend [n] (iter_collect t it')" if "iter_pass t it = Break (Some n, it')"
  proof -
    have "iter_next t it = Some (Some n, it')" using that by (simp add: iter_next_def)
    then show ?thesis by (subst iter_collect.simps) (cases "iter_collect t it'", simp_all)
  qed
  show "iter_collect t it = Some []" if "iter_pass t it = Break (None, it')"
  proof -
    have "iter_next t it = Some (None, it')" using that by (simp add: iter_next_def)
    then show ?thesis by (subst iter_collect.simps) simp
  qed
qed

lemma prepend_prepend [simp]: "prepend xs (prepend ys m) = prepend (xs @ ys) m"
  by (cases m) simp_all

lemma collect_subtree:
  assumes "indexes t (flat p u)" and "distinct (ids u)" and "length (ids u) \<le> usize_max"
    and "pi_stack it = preorder_frame_new (r_id u) # rest" and "set (ids u) \<inter> pi_visited it = {r_id u}"
  shows "iter_collect t it =
    prepend (map snd (flat p u)) (iter_collect t (it\<lparr>pi_stack := rest, pi_visited := pi_visited it \<union> set (ids u)\<rparr>))"
  using assms
proof (induction u arbitrary: p it rest)
  case (Rose i w us)
  let ?n = "\<lparr>tn_id = i, tn_parent = p, tn_value = w, tn_children = map r_id us\<rparr>"
  have get: "tree_get t i = Some ?n" using Rose.prems(1) by simp
  have children: "iter_collect t it = prepend (map snd (flats (Some i) ds))
      (iter_collect t (it\<lparr>pi_stack := rest, pi_visited := pi_visited it \<union> set (forest_ids ds)\<rparr>))"
    if "us = bs @ ds" "pi_stack it = \<lparr>pf_id = i, pf_next_child = length bs, pf_yielded = True\<rparr> # rest"
      "set (forest_ids ds) \<inter> pi_visited it = {}" for bs ds it
    using that
  proof (induction ds arbitrary: bs it)
    case Nil
    have "iter_pass t it = Again (it\<lparr>pi_stack := rest\<rparr>)"
      using Nil.prems get by (simp add: iter_pass_def iter_frame_def)
    then show ?case by (simp add: collect_step(1) option.map_ident)
  next
    case (Cons d ds)
    let ?fr = "\<lparr>pf_id = i, pf_next_child = Suc (length bs), pf_yielded = True\<rparr>"
    let ?it = "it\<lparr>pi_visited := insert (r_id d) (pi_visited it), pi_stack := preorder_frame_new (r_id d) # ?fr # rest\<rparr>"
    have small: "length bs < usize_max"
      using Rose.prems(3) length_roots [of us] Cons.prems(1) by simp
    have child: "vec_get (map r_id us) (length bs) = Some (r_id d)" by (simp add: Cons.prems(1) vec_get_def nth_append)
    have fresh: "set (ids d) \<inter> pi_visited it = {}" "set (forest_ids ds) \<inter> pi_visited it = {}" using Cons.prems(3) by auto
    then have "r_id d \<notin> pi_visited it" using r_id_in_ids [of d] by blast
    then have "iter_pass t it = Again ?it"
      using child Cons.prems(2) get small by (simp add: iter_pass_def iter_frame_def bump_child_eq)
    then have 1: "iter_collect t it = iter_collect t ?it" by (rule collect_step(1))
    have d: "d \<in> set us" using Cons.prems(1) by simp
    have "distinct (forest_ids us)" using Rose.prems(2) by simp
    then have "distinct (forest_ids bs @ ids d @ forest_ids ds)"
      unfolding Cons.prems(1) by (simp only: map_append concat_append list.map concat.simps)
    then have dist: "distinct (ids d)" "set (ids d) \<inter> set (forest_ids ds) = {}"
      unfolding distinct_append by blast+
    let ?it2 = "it\<lparr>pi_stack := ?fr # rest, pi_visited := pi_visited it \<union> set (ids d)\<rparr>"
    have 2: "iter_collect t ?it = prepend (map snd (flat (Some i) d))
        (iter_collect t (?it\<lparr>pi_stack := ?fr # rest, pi_visited := pi_visited ?it \<union> set (ids d)\<rparr>))"
    proof (rule Rose.IH [OF d])
      show "indexes t (flat (Some i) d)" "length (ids d) \<le> usize_max" using Rose.prems(1,3) Cons.prems(1) by simp_all
      show "set (ids d) \<inter> pi_visited ?it = {r_id d}" using fresh(1) r_id_in_ids [of d] by auto
    qed (simp_all add: dist)
    have 3: "iter_collect t ?it2 = prepend (map snd (flats (Some i) ds))
        (iter_collect t (?it2\<lparr>pi_stack := rest, pi_visited := pi_visited ?it2 \<union> set (forest_ids ds)\<rparr>))"
    proof (rule Cons.IH)
      show "us = (bs @ [d]) @ ds" using Cons.prems(1) by simp
      show "set (forest_ids ds) \<inter> pi_visited ?it2 = {}" using fresh(2) dist(2) by auto
    qed simp
    have vis: "insert (r_id d) (pi_visited it \<union> set (ids d)) = pi_visited it \<union> set (ids d)" using r_id_in_ids [of d] by auto
    show ?case unfolding 1 2 using 3 vis by (simp add: Un_assoc)
  qed
  let ?it = "it\<lparr>pi_stack := \<lparr>pf_id = i, pf_next_child = 0, pf_yielded = True\<rparr> # rest\<rparr>"
  have "iter_pass t it = Break (Some ?n, ?it)"
    using Rose.prems(4) get by (simp add: iter_pass_def iter_frame_def preorder_frame_new_def)
  then have 1: "iter_collect t it = prepend [?n] (iter_collect t ?it)" by (rule collect_step(2))
  have vis: "pi_visited it \<union> set (forest_ids us) = pi_visited it \<union> set (ids (Rose i w us))" using Rose.prems(5) by auto
  have dis: "set (forest_ids us) \<inter> pi_visited it = {}" using Rose.prems(2,5) by auto
  show ?case unfolding 1 using children [of "[]" us ?it] dis vis by simp
qed

lemma collect_roots:
  assumes "indexes t (flats None ts)" and "distinct (forest_ids ts)" and "length (forest_ids ts) \<le> usize_max"
    and "it_roots t = map r_id (bs @ ts)" and "length (it_roots t) \<le> usize_max"
    and "pi_stack it = []" and "pi_next_root it = length bs" and "set (forest_ids ts) \<inter> pi_visited it = {}"
  shows "iter_collect t it = Some (map snd (flats None ts))"
  using assms
proof (induction ts arbitrary: bs it)
  case Nil
  then have "iter_pass t it = Break (None, it)" by (simp add: iter_pass_def)
  then show ?case by (simp add: collect_step(3))
next
  case (Cons u ts)
  let ?it = "it\<lparr>pi_next_root := Suc (length bs), pi_visited := insert (r_id u) (pi_visited it), pi_stack := [preorder_frame_new (r_id u)]\<rparr>"
  have d: "distinct (ids u)" "set (ids u) \<inter> set (forest_ids ts) = {}" "distinct (forest_ids ts)"
    using Cons.prems(2) unfolding list.map concat.simps distinct_append by blast+
  have fresh: "set (ids u) \<inter> pi_visited it = {}" "set (forest_ids ts) \<inter> pi_visited it = {}" using Cons.prems(8) by auto
  then have new: "r_id u \<notin> pi_visited it" using r_id_in_ids [of u] by blast
  have small: "length bs < usize_max" using Cons.prems(4,5) by simp
  have "vec_get (it_roots t) (pi_next_root it) = Some (r_id u)"
    unfolding Cons.prems(4,7) by (simp add: vec_get_def nth_append)
  then have "iter_pass t it = iter_pass t ?it"
    using Cons.prems(6,7) new small by (simp add: iter_pass_def saturating_add_def)
  then have "iter_next t it = iter_next t ?it" unfolding iter_next_def by (subst (1 2) iterate.simps) simp
  then have 1: "iter_collect t it = iter_collect t ?it" by (subst (1 2) iter_collect.simps) simp
  have 2: "iter_collect t ?it = prepend (map snd (flat None u))
      (iter_collect t (?it\<lparr>pi_stack := [], pi_visited := pi_visited ?it \<union> set (ids u)\<rparr>))"
  proof (rule collect_subtree)
    show "indexes t (flat None u)" "length (ids u) \<le> usize_max" using Cons.prems(1,3) by simp_all
    show "set (ids u) \<inter> pi_visited ?it = {r_id u}" using fresh(1) r_id_in_ids [of u] by auto
  qed (simp_all add: d)
  have "iter_collect t (?it\<lparr>pi_stack := [], pi_visited := pi_visited ?it \<union> set (ids u)\<rparr>) = Some (map snd (flats None ts))"
  proof (rule Cons.IH)
    show "it_roots t = map r_id ((bs @ [u]) @ ts)" using Cons.prems(4) by simp
    show "set (forest_ids ts) \<inter> pi_visited (?it\<lparr>pi_stack := [], pi_visited := pi_visited ?it \<union> set (ids u)\<rparr>) = {}"
    proof -
      have "pi_visited (?it\<lparr>pi_stack := [], pi_visited := pi_visited ?it \<union> set (ids u)\<rparr>) = pi_visited it \<union> set (ids u)"
        using r_id_in_ids [of u] by auto
      then show ?thesis using fresh(2) d(2) by blast
    qed
  qed (use Cons.prems d in simp_all)
  then show ?case unfolding 1 2 by simp
qed

lemma collect_is_preorder:
  assumes "represents t ts" and "tree_len t \<le> usize_max"
  shows "iter_collect t iter_preorder = Some (map snd (flats None ts))"
  by (rule collect_roots [where bs = "[]", OF represents_indexes [OF assms(1)] representsD(4) [OF assms(1)]
        represented_len(1) [OF assms]])
    (use represented_len(2) [OF assms] representsD(2) [OF assms(1)] in \<open>simp_all add: iter_preorder_def\<close>)

section \<open>Enter and leave events\<close>

fun euler :: "usize \<Rightarrow> 'a rose \<Rightarrow> visit_event list" where
  "euler d (Rose i v us) = EnterNode i d # concat (map (euler (Suc d)) us) @ [LeaveNode i d]"

text \<open>The reference: the events are delivered one after the other; \<open>Inl\<close> ends the traversal.\<close>

fun play ::
  "usize \<Rightarrow> 's event_visitor \<Rightarrow> usize \<Rightarrow> usize \<Rightarrow> 's \<Rightarrow> visit_event list \<Rightarrow> 's traversal_result + usize \<times> usize \<times> 's" where
  "play m v ev en s [] = Inr (ev, en, s)"
| "play m v ev en s (e # es) =
     (if m \<le> ev then Inl (Err (TraversalLimitExceeded m), s)
      else (let en' = (if is_enter e then en + 1 else en)
        in case v s e of
             (s', StopTraversal) \<Rightarrow> Inl (Ok \<lparr>to_events = ev + 1, to_entered = en', to_stopped = True\<rparr>, s')
           | (s', GoOn) \<Rightarrow> play m v (ev + 1) en' s' es))"

lemma play_append:
  "play m v ev en s (xs @ ys) = (case play m v ev en s xs of Inl r \<Rightarrow> Inl r | Inr (ev', en', s') \<Rightarrow> play m v ev' en' s' ys)"
  by (induction xs arbitrary: ev en s) (auto simp: Let_def split: prod.splits traversal_control.splits)

abbreviation continue_events where
  "continue_events t m v q r \<equiv>
     (case r of Inl x \<Rightarrow> Some x
      | Inr (ev, en, s) \<Rightarrow> iterate (traverse_pass t m v) (q\<lparr>tr_events := ev, tr_entered := en, tr_acc := s\<rparr>))"

lemma deliver_step:
  assumes "traverse_pass t m v q = deliver m v e (q\<lparr>tr_stack := st\<rparr>)"
  shows "iterate (traverse_pass t m v) q =
    continue_events t m v (q\<lparr>tr_stack := st\<rparr>) (play m v (tr_events q) (tr_entered q) (tr_acc q) [e])"
proof (cases "m \<le> tr_events q")
  case True
  then show ?thesis using assms by (simp add: deliver_def)
next
  case False
  obtain s c where v: "v (tr_acc q) e = (s, c)" by fastforce
  show ?thesis
  proof (cases c)
    case GoOn
    then show ?thesis using assms False v by (simp add: deliver_def Let_def iterate_Again)
  next
    case StopTraversal
    then show ?thesis using assms False v by (simp add: deliver_def Let_def)
  qed
qed

lemma play_seq:
  "continue_events t m v q (play m v ev en s (xs @ ys)) =
   (case play m v ev en s xs of Inl x \<Rightarrow> Some x
    | Inr (ev', en', s') \<Rightarrow> continue_events t m v q (play m v ev' en' s' ys))"
  by (simp add: play_append split: sum.split)

lemma traverse_subtree:
  assumes "indexes t (flat p u)" and "distinct (ids u)" and "d + length (ids u) \<le> usize_max"
    and "tr_stack q = traversal_frame_new (r_id u) d # rest" and "set (ids u) \<inter> tr_visited q = {r_id u}"
  shows "iterate (traverse_pass t m v) q =
    continue_events t m v (q\<lparr>tr_stack := rest, tr_visited := tr_visited q \<union> set (ids u)\<rparr>)
      (play m v (tr_events q) (tr_entered q) (tr_acc q) (euler d u))"
  using assms
proof (induction u arbitrary: p q d rest)
  case (Rose i w us)
  let ?n = "\<lparr>tn_id = i, tn_parent = p, tn_value = w, tn_children = map r_id us\<rparr>"
  let ?fr = "\<lambda>k. \<lparr>tf_id = i, tf_depth = d, tf_next_child = k, tf_entered = True\<rparr>"
  have get: "tree_get t i = Some ?n" using Rose.prems(1) by simp
  have children: "iterate (traverse_pass t m v) q =
      continue_events t m v (q\<lparr>tr_stack := ?fr (length us) # rest, tr_visited := tr_visited q \<union> set (forest_ids ds)\<rparr>)
        (play m v (tr_events q) (tr_entered q) (tr_acc q) (concat (map (euler (Suc d)) ds)))"
    if "us = bs @ ds" "tr_stack q = ?fr (length bs) # rest" "set (forest_ids ds) \<inter> tr_visited q = {}" for bs ds q
    using that
  proof (induction ds arbitrary: bs q)
    case Nil
    then have "q\<lparr>tr_stack := ?fr (length us) # rest\<rparr> = q" by simp
    then show ?case by simp
  next
    case (Cons c ds)
    let ?fr' = "?fr (Suc (length bs))"
    let ?q = "q\<lparr>tr_stack := traversal_frame_new (r_id c) (Suc d) # ?fr' # rest, tr_visited := insert (r_id c) (tr_visited q)\<rparr>"
    have "length us < length (ids (Rose i w us))" using length_roots [of us] by simp
    then have small: "length bs < usize_max" "d < usize_max" using Rose.prems(3) Cons.prems(1) by simp_all
    have child: "vec_get (map r_id us) (length bs) = Some (r_id c)" by (simp add: Cons.prems(1) vec_get_def nth_append)
    have fresh: "set (ids c) \<inter> tr_visited q = {}" "set (forest_ids ds) \<inter> tr_visited q = {}" using Cons.prems(3) by auto
    then have "r_id c \<notin> tr_visited q" using r_id_in_ids [of c] by blast
    then have "traverse_pass t m v q = Again ?q"
      using child Cons.prems(2) get small by (simp add: traverse_pass_def traverse_frame_def saturating_add_def)
    then have 1: "iterate (traverse_pass t m v) q = iterate (traverse_pass t m v) ?q" by (rule iterate_Again)
    have cs: "c \<in> set us" using Cons.prems(1) by simp
    have "distinct (forest_ids us)" using Rose.prems(2) by simp
    then have "distinct (forest_ids bs @ ids c @ forest_ids ds)"
      unfolding Cons.prems(1) by (simp only: map_append concat_append list.map concat.simps)
    then have dist: "distinct (ids c)" "set (ids c) \<inter> set (forest_ids ds) = {}"
      unfolding distinct_append by blast+
    have 2: "iterate (traverse_pass t m v) ?q =
        continue_events t m v (?q\<lparr>tr_stack := ?fr' # rest, tr_visited := tr_visited ?q \<union> set (ids c)\<rparr>)
          (play m v (tr_events ?q) (tr_entered ?q) (tr_acc ?q) (euler (Suc d) c))"
    proof (rule Rose.IH [OF cs])
      show "indexes t (flat (Some i) c)" "Suc d + length (ids c) \<le> usize_max" using Rose.prems(1,3) Cons.prems(1) by simp_all
      show "set (ids c) \<inter> tr_visited ?q = {r_id c}" using fresh(1) r_id_in_ids [of c] by auto
    qed (simp_all add: dist)
    let ?V = "tr_visited q \<union> set (ids c)"
    let ?q2 = "\<lambda>ev en s. q\<lparr>tr_stack := ?fr' # rest, tr_visited := ?V, tr_events := ev, tr_entered := en, tr_acc := s\<rparr>"
    have 3: "iterate (traverse_pass t m v) (?q2 ev en s) =
        continue_events t m v (q\<lparr>tr_stack := ?fr (length us) # rest, tr_visited := ?V \<union> set (forest_ids ds)\<rparr>)
          (play m v ev en s (concat (map (euler (Suc d)) ds)))" for ev en s
    proof -
      have "iterate (traverse_pass t m v) (?q2 ev en s) =
          continue_events t m v ((?q2 ev en s)\<lparr>tr_stack := ?fr (length us) # rest, tr_visited := tr_visited (?q2 ev en s) \<union> set (forest_ids ds)\<rparr>)
            (play m v (tr_events (?q2 ev en s)) (tr_entered (?q2 ev en s)) (tr_acc (?q2 ev en s)) (concat (map (euler (Suc d)) ds)))"
      proof (rule Cons.IH)
        show "us = (bs @ [c]) @ ds" using Cons.prems(1) by simp
        show "set (forest_ids ds) \<inter> tr_visited (?q2 ev en s) = {}" using fresh(2) dist(2) by auto
      qed simp
      then show ?thesis by (simp split: sum.splits)
    qed
    have vis: "insert (r_id c) (tr_visited q \<union> set (ids c)) = ?V" using r_id_in_ids [of c] by auto
    show ?case
      unfolding 1 2 list.map concat.simps play_seq by (simp add: 3 vis Un_assoc split: sum.split)
  qed
  have enter: "traverse_pass t m v q = deliver m v (EnterNode i d) (q\<lparr>tr_stack := ?fr 0 # rest\<rparr>)"
    using Rose.prems(4) get by (simp add: traverse_pass_def traverse_frame_def traversal_frame_new_def)
  have leave: "traverse_pass t m v q' = deliver m v (LeaveNode i d) (q'\<lparr>tr_stack := rest\<rparr>)"
    if "tr_stack q' = ?fr (length us) # rest" for q'
    using that get by (simp add: traverse_pass_def traverse_frame_def)
  let ?V = "tr_visited q \<union> set (ids (Rose i w us))"
  have vis: "tr_visited q \<union> set (forest_ids us) = ?V" using Rose.prems(5) by auto
  have dis: "set (forest_ids us) \<inter> tr_visited q = {}" using Rose.prems(2,5) by auto
  have body: "iterate (traverse_pass t m v) (q\<lparr>tr_stack := ?fr 0 # rest, tr_events := ev, tr_entered := en, tr_acc := s\<rparr>) =
      continue_events t m v (q\<lparr>tr_stack := ?fr (length us) # rest, tr_visited := ?V\<rparr>)
        (play m v ev en s (concat (map (euler (Suc d)) us)))" for ev en s
    using children [of "[]" us "q\<lparr>tr_stack := ?fr 0 # rest, tr_events := ev, tr_entered := en, tr_acc := s\<rparr>"] dis vis
    by (simp split: sum.splits)
  have tail: "iterate (traverse_pass t m v) (q\<lparr>tr_stack := ?fr (length us) # rest, tr_visited := ?V, tr_events := ev, tr_entered := en, tr_acc := s\<rparr>) =
      continue_events t m v (q\<lparr>tr_stack := rest, tr_visited := ?V\<rparr>) (play m v ev en s [LeaveNode i d])" for ev en s
  proof -
    let ?q = "q\<lparr>tr_stack := ?fr (length us) # rest, tr_visited := ?V, tr_events := ev, tr_entered := en, tr_acc := s\<rparr>"
    have "traverse_pass t m v ?q = deliver m v (LeaveNode i d) (?q\<lparr>tr_stack := rest\<rparr>)" by (rule leave) simp
    from deliver_step [OF this] show ?thesis by (cases q) (simp del: play.simps split: sum.splits)
  qed
  have e: "euler d (Rose i w us) = [EnterNode i d] @ concat (map (euler (Suc d)) us) @ [LeaveNode i d]" by simp
  show ?case
    unfolding deliver_step [OF enter] e play_seq
    by (simp only: body tail split: sum.split)
qed

lemma traverse_roots:
  assumes "indexes t (flats None ts)" and "distinct (forest_ids ts)" and "length (forest_ids ts) \<le> usize_max"
    and "it_roots t = map r_id (bs @ ts)" and "length (it_roots t) \<le> usize_max"
    and "tr_stack q = []" and "tr_next_root q = length bs" and "set (forest_ids ts) \<inter> tr_visited q = {}"
  shows "iterate (traverse_pass t m v) q =
    Some (case play m v (tr_events q) (tr_entered q) (tr_acc q) (concat (map (euler 0) ts)) of
        Inl r \<Rightarrow> r | Inr (ev, en, s) \<Rightarrow> (Ok \<lparr>to_events = ev, to_entered = en, to_stopped = False\<rparr>, s))"
  using assms
proof (induction ts arbitrary: bs q)
  case Nil
  then have "traverse_pass t m v q = Break (Ok \<lparr>to_events = tr_events q, to_entered = tr_entered q, to_stopped = False\<rparr>, tr_acc q)"
    by (simp add: traverse_pass_def)
  then show ?case by simp
next
  case (Cons u ts)
  let ?q = "q\<lparr>tr_next_root := Suc (length bs), tr_visited := insert (r_id u) (tr_visited q), tr_stack := [traversal_frame_new (r_id u) 0]\<rparr>"
  have d: "distinct (ids u)" "set (ids u) \<inter> set (forest_ids ts) = {}" "distinct (forest_ids ts)"
    using Cons.prems(2) unfolding list.map concat.simps distinct_append by blast+
  have fresh: "set (ids u) \<inter> tr_visited q = {}" "set (forest_ids ts) \<inter> tr_visited q = {}" using Cons.prems(8) by auto
  then have new: "r_id u \<notin> tr_visited q" using r_id_in_ids [of u] by blast
  have small: "length bs < usize_max" using Cons.prems(4,5) by simp
  have "vec_get (it_roots t) (tr_next_root q) = Some (r_id u)"
    unfolding Cons.prems(4,7) by (simp add: vec_get_def nth_append)
  then have "traverse_pass t m v q = traverse_pass t m v ?q"
    using Cons.prems(6,7) new small by (simp add: traverse_pass_def saturating_add_def)
  then have 1: "iterate (traverse_pass t m v) q = iterate (traverse_pass t m v) ?q" by (subst (1 2) iterate.simps) simp
  let ?V = "tr_visited q \<union> set (ids u)"
  have 2: "iterate (traverse_pass t m v) ?q = continue_events t m v (?q\<lparr>tr_stack := [], tr_visited := tr_visited ?q \<union> set (ids u)\<rparr>)
      (play m v (tr_events ?q) (tr_entered ?q) (tr_acc ?q) (euler 0 u))"
  proof (rule traverse_subtree)
    show "indexes t (flat None u)" "0 + length (ids u) \<le> usize_max" using Cons.prems(1,3) by simp_all
    show "set (ids u) \<inter> tr_visited ?q = {r_id u}" using fresh(1) r_id_in_ids [of u] by auto
  qed (simp_all add: d)
  let ?q2 = "\<lambda>ev en s. q\<lparr>tr_next_root := Suc (length bs), tr_stack := [], tr_visited := ?V, tr_events := ev, tr_entered := en, tr_acc := s\<rparr>"
  have 3: "iterate (traverse_pass t m v) (?q2 ev en s) =
      Some (case play m v ev en s (concat (map (euler 0) ts)) of
        Inl r \<Rightarrow> r | Inr (ev, en, s) \<Rightarrow> (Ok \<lparr>to_events = ev, to_entered = en, to_stopped = False\<rparr>, s))" for ev en s
  proof -
    have "iterate (traverse_pass t m v) (?q2 ev en s) =
        Some (case play m v (tr_events (?q2 ev en s)) (tr_entered (?q2 ev en s)) (tr_acc (?q2 ev en s)) (concat (map (euler 0) ts)) of
          Inl r \<Rightarrow> r | Inr (ev, en, s) \<Rightarrow> (Ok \<lparr>to_events = ev, to_entered = en, to_stopped = False\<rparr>, s))"
    proof (rule Cons.IH)
      show "it_roots t = map r_id ((bs @ [u]) @ ts)" using Cons.prems(4) by simp
      show "set (forest_ids ts) \<inter> tr_visited (?q2 ev en s) = {}" using fresh(2) d(2) by auto
    qed (use Cons.prems d in simp_all)
    then show ?thesis by simp
  qed
  have vis: "insert (r_id u) (tr_visited q \<union> set (ids u)) = ?V" using r_id_in_ids [of u] by auto
  show ?case unfolding 1 2 by (simp add: 3 vis play_append split: sum.split)
qed

lemma traverse_is_euler:
  assumes "represents t ts" and "tree_len t \<le> usize_max"
  shows "traverse_bounded t m v s =
    Some (case play m v 0 0 s (concat (map (euler 0) ts)) of
        Inl r \<Rightarrow> r | Inr (ev, en, s) \<Rightarrow> (Ok \<lparr>to_events = ev, to_entered = en, to_stopped = False\<rparr>, s))"
proof -
  note len = represented_len [OF assms]
  let ?q = "\<lparr>tr_next_root = 0, tr_stack = [], tr_visited = {}, tr_events = 0, tr_entered = 0, tr_acc = s\<rparr>"
  have "iterate (traverse_pass t m v) ?q = Some (case play m v (tr_events ?q) (tr_entered ?q) (tr_acc ?q) (concat (map (euler 0) ts)) of
        Inl r \<Rightarrow> r | Inr (ev, en, s) \<Rightarrow> (Ok \<lparr>to_events = ev, to_entered = en, to_stopped = False\<rparr>, s))"
    by (rule traverse_roots [where bs = "[]", OF represents_indexes [OF assms(1)] representsD(4) [OF assms(1)] len(1)])
      (use len(2) representsD(2) [OF assms(1)] in simp_all)
  then show ?thesis by (simp add: traverse_bounded_def)
qed

section \<open>Properties\<close>

lemma visit_ids:
  assumes "cnt \<le> k" and "cnt + length ns \<le> usize_max"
  shows "visit_nodes (Some (op, k)) (\<lambda>ids n. Ok (ids @ [tn_id n])) cnt acc ns =
    (if k < cnt + length ns then Err (QueryLimitExceeded op k) else Ok (cnt + length ns, acc @ map tn_id ns))"
  using assms by (induction ns arbitrary: cnt acc) (auto simp: over_limit_def saturating_add_def)

lemma visit_matches:
  assumes "length acc \<le> k"
  shows "map_ok snd (visit_nodes None (find_all_visitor k P) cnt acc ns) =
    (if k < length acc + length (filter P ns) then Err (QueryLimitExceeded ''find_all'' k)
     else Ok (acc @ map tn_id (filter P ns)))"
  using assms by (induction ns arbitrary: cnt acc) (auto simp: over_limit_def find_all_visitor_def map_ok_def)

definition example_nodes :: "(node_id \<times> string tree_node) list" where
  "example_nodes = flats None [Rose 1 ''plan'' [Rose 2 ''group'' [], Rose 3 ''report'' []]]"

definition example_stored :: "string identity_tree" where
  "example_stored = \<lparr>it_nodes = example_nodes, it_roots = [1], it_next_id = Some 4\<rparr>"

lemma example_represents: "represents example_stored [Rose 1 ''plan'' [Rose 2 ''group'' [], Rose 3 ''report'' []]]"
  by (auto simp: represents_def example_stored_def example_nodes_def entries_def allocator_ok_def bm_ok_def u64_max_def)

lemma example_small: "tree_len example_stored \<le> usize_max"
  by (simp add: tree_len_def example_stored_def example_nodes_def usize_max_def)

text \<open>C15: All preorder queries agree with the recursive order. On a tree that represents a forest, the lazy
  iterator with its visited set and the checked visitor with its limits end, and return the identities
  of the forest in preorder and the matching ones among them; the bounded variants fail exactly when
  the answer is longer than the caller's bound.\<close>

theorem preorder_queries_agree:
  assumes "represents t ts" and "tree_len t \<le> usize_max"
  shows "preorder_ids t = Some (forest_ids ts) \<and>
    preorder_ids_bounded t k = Some (if k < length (forest_ids ts) then Err (QueryLimitExceeded ''preorder_ids'' k) else Ok (forest_ids ts)) \<and>
    find_all t P = Some (map tn_id (filter P (map snd (flats None ts)))) \<and>
    find_all_bounded t k P =
      Some (if k < length (filter P (map snd (flats None ts))) then Err (QueryLimitExceeded ''find_all'' k)
            else Ok (map tn_id (filter P (map snd (flats None ts)))))"
proof -
  have "tn_id n = i" if "(i, n) \<in> set (flat p u)" for i p and u :: "'a rose" and n
    using flat_parents [OF that] by simp
  then have "map (\<lambda>e. tn_id (snd e)) (flats None ts) = map fst (flats None ts)" by (intro map_cong refl) force
  then have idn: "map tn_id (map snd (flats None ts)) = forest_ids ts" unfolding map_map comp_def map_fst_flats .
  have "length (map snd (flats None ts)) = length (forest_ids ts)" unfolding length_map by (metis length_map map_fst_flats)
  then have len: "0 + length (map snd (flats None ts)) \<le> usize_max" using represented_len(1) [OF assms] by (simp only: add_0)
  have "preorder_ids t = Some (forest_ids ts)"
    unfolding preorder_ids_def collect_is_preorder [OF assms] option.map idn ..
  moreover have "find_all t P = Some (map tn_id (filter P (map snd (flats None ts))))"
    unfolding find_all_def collect_is_preorder [OF assms] option.map ..
  moreover have "preorder_ids_bounded t k = Some (if k < length (forest_ids ts) then Err (QueryLimitExceeded ''preorder_ids'' k) else Ok (forest_ids ts))"
    unfolding preorder_ids_bounded_def visit_is_preorder [OF assms] visit_ids [OF le0 len] idn
    using \<open>length (map snd (flats None ts)) = length (forest_ids ts)\<close> by (simp add: map_ok_def del: length_concat length_map map_map)
  moreover have "find_all_bounded t k P =
      Some (if k < length (filter P (map snd (flats None ts))) then Err (QueryLimitExceeded ''find_all'' k)
            else Ok (map tn_id (filter P (map snd (flats None ts)))))"
    unfolding find_all_bounded_def visit_is_preorder [OF assms] option.map using visit_matches [of "[]" k P 0 "map snd (flats None ts)"] by simp
  ultimately show ?thesis by blast
qed

theorem preorder_queries_agree_witness:
  "preorder_ids_bounded example_stored 2 = Some (Err (QueryLimitExceeded ''preorder_ids'' 2)) \<and>
   find_all_bounded example_stored 2 (\<lambda>n. tn_children n = []) = Some (Ok [2, 3])"
  using preorder_queries_agree [OF example_represents example_small, of 2 "\<lambda>n. tn_children n = []"]
  by simp

text \<open>The visitor that records every event and stops after the first one with \<open>P\<close>.\<close>

definition recorder :: "(visit_event \<Rightarrow> bool) \<Rightarrow> visit_event list event_visitor" where
  "recorder P es e = (es @ [e], if P e then StopTraversal else GoOn)"

definition stop_at :: "(visit_event \<Rightarrow> bool) \<Rightarrow> visit_event list \<Rightarrow> nat" where
  "stop_at P es = length (takeWhile (\<lambda>e. \<not> P e) es)"

lemma stop_at_simps [simp]:
  "stop_at P [] = 0" "stop_at P (e # es) = (if P e then 0 else Suc (stop_at P es))"
  by (simp_all add: stop_at_def)

lemma stop_at_le: "stop_at P es \<le> length es"
  unfolding stop_at_def by (rule length_takeWhile_le)

lemma play_recorder:
  assumes "ev \<le> m"
  shows "play m (recorder P) ev en acc es =
    (if stop_at P es < length es \<and> ev + stop_at P es < m then
       Inl (Ok \<lparr>to_events = ev + stop_at P es + 1,
                to_entered = en + length (filter is_enter (take (stop_at P es + 1) es)), to_stopped = True\<rparr>,
            acc @ take (stop_at P es + 1) es)
     else if m < ev + length es then Inl (Err (TraversalLimitExceeded m), acc @ take (m - ev) es)
     else Inr (ev + length es, en + length (filter is_enter es), acc @ es))"
  using assms
proof (induction es arbitrary: ev en acc)
  case (Cons e es)
  show ?case
  proof (cases "ev = m")
    case False
    then have "m - ev = Suc (m - Suc ev)" "Suc ev \<le> m" using Cons.prems by simp_all
    then show ?thesis using Cons.IH [of "Suc ev"] False by (simp add: recorder_def)
  qed (simp add: recorder_def)
qed simp

lemma euler_enters: "map event_id (filter is_enter (euler d u)) = ids u"
proof (induction d u rule: euler.induct)
  case (1 d i v us)
  then show ?case by (simp add: filter_concat map_concat comp_def cong: map_cong)
qed

lemma euler_leaves: "length (filter (\<lambda>e. \<not> is_enter e) (euler d u)) = length (ids u)"
proof (induction d u rule: euler.induct)
  case (1 d i v us)
  then show ?case by (simp add: filter_concat length_concat comp_def cong: map_cong)
qed

abbreviation tour :: "'a rose list \<Rightarrow> visit_event list" where
  "tour ts \<equiv> concat (map (euler 0) ts)"

lemma tour_enters: "map event_id (filter is_enter (tour ts)) = forest_ids ts"
  by (simp add: filter_concat map_concat comp_def euler_enters)

lemma length_tour: "length (tour ts) = 2 * length (forest_ids ts)"
proof -
  have "length (filter (\<lambda>e. \<not> is_enter e) (tour ts)) = length (forest_ids ts)"
    by (simp add: filter_concat length_concat comp_def euler_leaves)
  moreover have "length (filter is_enter (tour ts)) = length (forest_ids ts)"
    unfolding tour_enters [symmetric] by (rule length_map [symmetric])
  ultimately show ?thesis using sum_length_filter_compl [of is_enter "tour ts"] by linarith
qed

text \<open>C16: The event traversal walks the Euler tour. On a tree that represents a forest the loop with its
  frame stack ends. Its visitor sees a prefix of the recursive tour, which enters the nodes in
  preorder and has two events for each node. The prefix ends with the event at which the visitor asks
  to stop, or the limit error is returned after exactly that many events, or the whole tour is
  delivered; the outcome counts the delivered events and the entered nodes.\<close>

theorem traversal_events_are_euler_tour:
  assumes "represents t ts" and "tree_len t \<le> usize_max"
  shows "traverse_bounded t m (recorder P) [] = Some
      (let k = stop_at P (tour ts); n = tree_len t
       in if k < 2 * n \<and> k < m then
            (Ok \<lparr>to_events = k + 1, to_entered = length (filter is_enter (take (k + 1) (tour ts))), to_stopped = True\<rparr>,
             take (k + 1) (tour ts))
          else if m < 2 * n then (Err (TraversalLimitExceeded m), take m (tour ts))
          else (Ok \<lparr>to_events = 2 * n, to_entered = n, to_stopped = False\<rparr>, tour ts)) \<and>
    map event_id (filter is_enter (tour ts)) = forest_ids ts"
proof -
  note n = represents_len [OF assms(1)]
  have "length (filter is_enter (tour ts)) = length (forest_ids ts)"
    unfolding tour_enters [symmetric] by (rule length_map [symmetric])
  then show ?thesis
    unfolding traverse_is_euler [OF assms] play_recorder [OF le0] length_tour n Let_def tour_enters by (simp del: length_concat)
qed

theorem traversal_events_are_euler_tour_witness:
  "traverse_bounded example_stored 9 (recorder is_leave) [] =
     Some (Ok \<lparr>to_events = 3, to_entered = 2, to_stopped = True\<rparr>, [EnterNode 1 0, EnterNode 2 1, LeaveNode 2 1])"
  using traversal_events_are_euler_tour [OF example_represents example_small, of 9 is_leave]
  by (simp add: tree_len_def example_stored_def example_nodes_def Let_def numeral_3_eq_3 numeral_2_eq_2)

end
