(* ===== verification/Model_Errors.thy ===== *)
theory Model_Errors
  imports Identity_Tree
begin

text \<open>
  The errors of the semantic model (\<open>crates/model/src/error.rs\<close>): their variants, the stable code of each,
  and the bounded diagnostic context that wraps an error without changing its code.
\<close>

section \<open>Errors\<close>

datatype property_kind =
    KNull | KString | KBoolean | KInteger | KLong | KFloat | KDouble | KCollection | KNamedCollection
  | KMap | KObject | KElement | KOpaque

datatype property_error = DuplicateName string | NameNotFound string

datatype property_type_error = PropertyTypeError (expected_kind: property_kind) (actual_kind: property_kind)

datatype validation_limit_kind = Nodes | TreeDepth | PropertyCount | PropertyDepth | OpaqueBytes | StringBytes

fun limit_code :: "validation_limit_kind \<Rightarrow> string" where
  "limit_code Nodes = ''model.validation.limit-nodes''"
| "limit_code TreeDepth = ''model.validation.limit-tree-depth''"
| "limit_code PropertyCount = ''model.validation.limit-properties''"
| "limit_code PropertyDepth = ''model.validation.limit-property-depth''"
| "limit_code OpaqueBytes = ''model.validation.limit-opaque-bytes''"
| "limit_code StringBytes = ''model.validation.limit-string-bytes''"

datatype metadata_field = TestClass | GuiClass | ElementName

datatype source_location_error =
    InvalidLine nat
  | InvalidColumn nat
  | EmptySource
  | SourceTooLong usize usize
  | SourceTooManyComponents usize usize
  | SourceContainsNul usize
  | SourceContainsControl usize
  | InvalidUtf8 usize
  | ByteOffsetTooLarge u64 u64
  | ByteOffsetOutOfBounds u64 u64
  | ByteOffsetNotCharBoundary u64

datatype model_validation_error =
    LimitExceeded validation_limit_kind usize usize
  | EmptyMetadata metadata_field
  | InvalidSourceLocation source_location_error
  | DuplicatePropertyName string

record source_location =
  sl_source :: "string option"
  sl_byte_offset :: "u64 option"
  sl_line :: "nat option"
  sl_column :: "nat option"

datatype model_capability_error = UnsupportedLosslessWire string

text \<open>\<open>ModelError\<close>. \<open>ErrorContext\<close> is the variant \<open>Context\<close>.\<close>

datatype model_error =
    TreeFailure tree_error
  | PropertyFailure property_error
  | PropertyTypeFailure property_type_error
  | ValidationFailure model_validation_error
  | CapabilityFailure model_capability_error
  | ErrorContext model_error "source_location option" "node_id option"

section \<open>Codes\<close>

datatype model_error_code =
    CodeTreeNodeNotFound | CodeTreeParentNotFound | CodeTreeDuplicateNodeId
  | CodeTreeNodeIdExhausted | CodeTreeNodeHasChildren | CodeTreeTraversalLimitExceeded
  | CodeTreeQueryLimitExceeded | CodeTreeParentMismatch | CodeTreeInvariantViolation
  | CodePropertyDuplicateName | CodePropertyNameNotFound | CodePropertyTypeMismatch
  | CodeValidationLimitNodes | CodeValidationLimitTreeDepth | CodeValidationLimitProperties
  | CodeValidationLimitPropertyDepth | CodeValidationLimitOpaqueBytes
  | CodeValidationLimitStringBytes | CodeValidationEmptyMetadata
  | CodeValidationInvalidSourceLocation | CodeValidationDuplicatePropertyName
  | CodeSourceInvalidLine | CodeSourceInvalidColumn | CodeSourceEmpty | CodeSourceTooLong
  | CodeSourceTooManyComponents | CodeSourceContainsNul | CodeSourceContainsControl
  | CodeSourceInvalidUtf8 | CodeSourceByteOffsetTooLarge | CodeSourceByteOffsetOutOfBounds
  | CodeSourceByteOffsetNotCharBoundary | CodeCapabilityUnsupportedLosslessWire | CodeContextLimit

fun code_as_str :: "model_error_code \<Rightarrow> string" where
  "code_as_str CodeTreeNodeNotFound = ''model.tree.node-not-found''"
| "code_as_str CodeTreeParentNotFound = ''model.tree.parent-not-found''"
| "code_as_str CodeTreeDuplicateNodeId = ''model.tree.duplicate-node-id''"
| "code_as_str CodeTreeNodeIdExhausted = ''model.tree.node-id-exhausted''"
| "code_as_str CodeTreeNodeHasChildren = ''model.tree.node-has-children''"
| "code_as_str CodeTreeTraversalLimitExceeded = ''model.tree.traversal-limit-exceeded''"
| "code_as_str CodeTreeQueryLimitExceeded = ''model.tree.query-limit-exceeded''"
| "code_as_str CodeTreeParentMismatch = ''model.tree.parent-mismatch''"
| "code_as_str CodeTreeInvariantViolation = ''model.tree.invariant-violation''"
| "code_as_str CodePropertyDuplicateName = ''model.property.duplicate-name''"
| "code_as_str CodePropertyNameNotFound = ''model.property.name-not-found''"
| "code_as_str CodePropertyTypeMismatch = ''model.property.type-mismatch''"
| "code_as_str CodeValidationLimitNodes = ''model.validation.limit-nodes''"
| "code_as_str CodeValidationLimitTreeDepth = ''model.validation.limit-tree-depth''"
| "code_as_str CodeValidationLimitProperties = ''model.validation.limit-properties''"
| "code_as_str CodeValidationLimitPropertyDepth = ''model.validation.limit-property-depth''"
| "code_as_str CodeValidationLimitOpaqueBytes = ''model.validation.limit-opaque-bytes''"
| "code_as_str CodeValidationLimitStringBytes = ''model.validation.limit-string-bytes''"
| "code_as_str CodeValidationEmptyMetadata = ''model.validation.empty-metadata''"
| "code_as_str CodeValidationInvalidSourceLocation = ''model.validation.invalid-source-location''"
| "code_as_str CodeValidationDuplicatePropertyName = ''model.validation.duplicate-property-name''"
| "code_as_str CodeSourceInvalidLine = ''model.source.invalid-line''"
| "code_as_str CodeSourceInvalidColumn = ''model.source.invalid-column''"
| "code_as_str CodeSourceEmpty = ''model.source.empty''"
| "code_as_str CodeSourceTooLong = ''model.source.too-long''"
| "code_as_str CodeSourceTooManyComponents = ''model.source.too-many-components''"
| "code_as_str CodeSourceContainsNul = ''model.source.contains-nul''"
| "code_as_str CodeSourceContainsControl = ''model.source.contains-control''"
| "code_as_str CodeSourceInvalidUtf8 = ''model.source.invalid-utf8''"
| "code_as_str CodeSourceByteOffsetTooLarge = ''model.source.byte-offset-too-large''"
| "code_as_str CodeSourceByteOffsetOutOfBounds = ''model.source.byte-offset-out-of-bounds''"
| "code_as_str CodeSourceByteOffsetNotCharBoundary = ''model.source.byte-offset-not-char-boundary''"
| "code_as_str CodeCapabilityUnsupportedLosslessWire = ''model.capability.unsupported-lossless-wire''"
| "code_as_str CodeContextLimit = ''model.error.context-limit''"

definition code_is_limit :: "model_error_code \<Rightarrow> bool" where
  "code_is_limit c \<longleftrightarrow> c \<in>
     {CodeTreeTraversalLimitExceeded,
      CodeTreeQueryLimitExceeded,
      CodeValidationLimitNodes,
      CodeValidationLimitTreeDepth,
      CodeValidationLimitProperties,
      CodeValidationLimitPropertyDepth,
      CodeValidationLimitOpaqueBytes,
      CodeValidationLimitStringBytes,
      CodeSourceTooLong,
      CodeSourceTooManyComponents,
      CodeSourceByteOffsetTooLarge,
      CodeSourceByteOffsetOutOfBounds,
      CodeContextLimit}"

fun tree_code_kind :: "tree_error \<Rightarrow> model_error_code" where
  "tree_code_kind (NodeNotFound _) = CodeTreeNodeNotFound"
| "tree_code_kind (ParentNotFound _) = CodeTreeParentNotFound"
| "tree_code_kind (DuplicateNodeId _) = CodeTreeDuplicateNodeId"
| "tree_code_kind NodeIdExhausted = CodeTreeNodeIdExhausted"
| "tree_code_kind (NodeHasChildren _) = CodeTreeNodeHasChildren"
| "tree_code_kind (TraversalLimitExceeded _) = CodeTreeTraversalLimitExceeded"
| "tree_code_kind (QueryLimitExceeded _ _) = CodeTreeQueryLimitExceeded"
| "tree_code_kind (ParentMismatch _ _ _) = CodeTreeParentMismatch"
| "tree_code_kind (InvariantViolation _) = CodeTreeInvariantViolation"

fun property_code_kind :: "property_error \<Rightarrow> model_error_code" where
  "property_code_kind (DuplicateName _) = CodePropertyDuplicateName"
| "property_code_kind (NameNotFound _) = CodePropertyNameNotFound"

fun limit_code_kind :: "validation_limit_kind \<Rightarrow> model_error_code" where
  "limit_code_kind Nodes = CodeValidationLimitNodes"
| "limit_code_kind TreeDepth = CodeValidationLimitTreeDepth"
| "limit_code_kind PropertyCount = CodeValidationLimitProperties"
| "limit_code_kind PropertyDepth = CodeValidationLimitPropertyDepth"
| "limit_code_kind OpaqueBytes = CodeValidationLimitOpaqueBytes"
| "limit_code_kind StringBytes = CodeValidationLimitStringBytes"

fun source_code_kind :: "source_location_error \<Rightarrow> model_error_code" where
  "source_code_kind (InvalidLine _) = CodeSourceInvalidLine"
| "source_code_kind (InvalidColumn _) = CodeSourceInvalidColumn"
| "source_code_kind EmptySource = CodeSourceEmpty"
| "source_code_kind (SourceTooLong _ _) = CodeSourceTooLong"
| "source_code_kind (SourceTooManyComponents _ _) = CodeSourceTooManyComponents"
| "source_code_kind (SourceContainsNul _) = CodeSourceContainsNul"
| "source_code_kind (SourceContainsControl _) = CodeSourceContainsControl"
| "source_code_kind (InvalidUtf8 _) = CodeSourceInvalidUtf8"
| "source_code_kind (ByteOffsetTooLarge _ _) = CodeSourceByteOffsetTooLarge"
| "source_code_kind (ByteOffsetOutOfBounds _ _) = CodeSourceByteOffsetOutOfBounds"
| "source_code_kind (ByteOffsetNotCharBoundary _) = CodeSourceByteOffsetNotCharBoundary"

fun validation_code_kind :: "model_validation_error \<Rightarrow> model_error_code" where
  "validation_code_kind (LimitExceeded k _ _) = limit_code_kind k"
| "validation_code_kind (EmptyMetadata _) = CodeValidationEmptyMetadata"
| "validation_code_kind (InvalidSourceLocation e) = source_code_kind e"
| "validation_code_kind (DuplicatePropertyName _) = CodeValidationDuplicatePropertyName"

fun base_code_kind :: "model_error \<Rightarrow> model_error_code" where
  "base_code_kind (TreeFailure e) = tree_code_kind e"
| "base_code_kind (PropertyFailure e) = property_code_kind e"
| "base_code_kind (PropertyTypeFailure _) = CodePropertyTypeMismatch"
| "base_code_kind (ValidationFailure e) = validation_code_kind e"
| "base_code_kind (CapabilityFailure _) = CodeCapabilityUnsupportedLosslessWire"
| "base_code_kind (ErrorContext _ _ _) = CodeContextLimit"

definition MAX_ERROR_CONTEXT_DEPTH :: nat where
  "MAX_ERROR_CONTEXT_DEPTH = 16"

text \<open>The bounded descents through the context: the first argument is what is left of the bound.\<close>

fun code_descent :: "nat \<Rightarrow> model_error \<Rightarrow> model_error_code" where
  "code_descent 0 e = CodeContextLimit"
| "code_descent (Suc n) (ErrorContext e _ _) = code_descent n e"
| "code_descent (Suc n) e = base_code_kind e"

definition code_kind :: "model_error \<Rightarrow> model_error_code" where
  "code_kind e = code_descent MAX_ERROR_CONTEXT_DEPTH e"

fun source_descent :: "nat \<Rightarrow> model_error \<Rightarrow> source_location option" where
  "source_descent 0 e = None"
| "source_descent (Suc n) (ErrorContext e source _) = (if source \<noteq> None then source else source_descent n e)"
| "source_descent (Suc n) e = None"

definition error_source_location :: "model_error \<Rightarrow> source_location option" where
  "error_source_location e = source_descent MAX_ERROR_CONTEXT_DEPTH e"

fun node_descent :: "nat \<Rightarrow> model_error \<Rightarrow> node_id option" where
  "node_descent 0 e = None"
| "node_descent (Suc n) (ErrorContext e _ node) = (if node \<noteq> None then node else node_descent n e)"
| "node_descent (Suc n) e = None"

definition error_node_id :: "model_error \<Rightarrow> node_id option" where
  "error_node_id e = node_descent MAX_ERROR_CONTEXT_DEPTH e"

definition option_or :: "'a option \<Rightarrow> 'a option \<Rightarrow> 'a option" where
  "option_or a b = (case a of Some _ \<Rightarrow> a | None \<Rightarrow> b)"

definition with_context :: "source_location option \<Rightarrow> node_id option \<Rightarrow> model_error \<Rightarrow> model_error" where
  "with_context source node e =
     (if source = None \<and> node = None then e
      else case e of
          ErrorContext inner old_source old_node \<Rightarrow> ErrorContext inner (option_or source old_source) (option_or node old_node)
        | _ \<Rightarrow> ErrorContext e source node)"

definition error_with_source :: "source_location \<Rightarrow> model_error \<Rightarrow> model_error" where
  "error_with_source source = with_context (Some source) None"

definition error_with_node_id :: "node_id \<Rightarrow> model_error \<Rightarrow> model_error" where
  "error_with_node_id node = with_context None (Some node)"

section \<open>Context changes no code\<close>

lemma depth_bound: obtains n where "MAX_ERROR_CONTEXT_DEPTH = Suc (Suc n)"
  using that [of 14] by (simp add: MAX_ERROR_CONTEXT_DEPTH_def)

lemma with_context_code: "code_kind (with_context source node e) = code_kind e"
proof -
  obtain n where n: "MAX_ERROR_CONTEXT_DEPTH = Suc (Suc n)" by (rule depth_bound)
  show ?thesis by (cases e) (simp_all add: with_context_def code_kind_def n)
qed

lemma with_context_lookup:
  "error_source_location (with_context source node e) = option_or source (error_source_location e)"
  "error_node_id (with_context source node e) = option_or node (error_node_id e)"
proof -
  obtain n where n: "MAX_ERROR_CONTEXT_DEPTH = Suc (Suc n)" by (rule depth_bound)
  show "error_source_location (with_context source node e) = option_or source (error_source_location e)"
    "error_node_id (with_context source node e) = option_or node (error_node_id e)"
    by (cases e; cases source; cases node; simp add: with_context_def error_source_location_def error_node_id_def option_or_def n)+
qed

definition all_codes :: "model_error_code list" where
  "all_codes = [CodeTreeNodeNotFound, CodeTreeParentNotFound, CodeTreeDuplicateNodeId,
     CodeTreeNodeIdExhausted, CodeTreeNodeHasChildren, CodeTreeTraversalLimitExceeded,
     CodeTreeQueryLimitExceeded, CodeTreeParentMismatch, CodeTreeInvariantViolation,
     CodePropertyDuplicateName, CodePropertyNameNotFound, CodePropertyTypeMismatch,
     CodeValidationLimitNodes, CodeValidationLimitTreeDepth, CodeValidationLimitProperties,
     CodeValidationLimitPropertyDepth, CodeValidationLimitOpaqueBytes, CodeValidationLimitStringBytes,
     CodeValidationEmptyMetadata, CodeValidationInvalidSourceLocation,
     CodeValidationDuplicatePropertyName, CodeSourceInvalidLine, CodeSourceInvalidColumn,
     CodeSourceEmpty, CodeSourceTooLong, CodeSourceTooManyComponents, CodeSourceContainsNul,
     CodeSourceContainsControl, CodeSourceInvalidUtf8, CodeSourceByteOffsetTooLarge,
     CodeSourceByteOffsetOutOfBounds, CodeSourceByteOffsetNotCharBoundary,
     CodeCapabilityUnsupportedLosslessWire, CodeContextLimit]"

lemma codes_distinct: "code_as_str a = code_as_str b \<longleftrightarrow> a = b"
proof -
  have "distinct (map code_as_str all_codes)" by (simp add: all_codes_def)
  moreover have "c \<in> set all_codes" for c by (cases c) (simp_all add: all_codes_def)
  ultimately have "inj code_as_str" by (metis distinct_map inj_onI inj_on_eq_iff)
  then show ?thesis by (rule inj_eq)
qed

lemma validation_limit_codes: "code_as_str (limit_code_kind k) = limit_code k"
  by (cases k) simp_all

lemma limit_errors_are_limits: "code_is_limit (validation_code_kind (LimitExceeded k lim a))"
  by (cases k) (simp_all add: code_is_limit_def)

text \<open>No error has the code \<open>model.validation.invalid-source-location\<close>: location errors keep their own.\<close>

lemma base_code_used: "base_code_kind e \<noteq> CodeValidationInvalidSourceLocation"
proof -
  have "tree_code_kind a \<noteq> CodeValidationInvalidSourceLocation" for a by (cases a) simp_all
  moreover have "property_code_kind a \<noteq> CodeValidationInvalidSourceLocation" for a by (cases a) simp_all
  moreover have "source_code_kind a \<noteq> CodeValidationInvalidSourceLocation" for a by (cases a) simp_all
  moreover have "limit_code_kind a \<noteq> CodeValidationInvalidSourceLocation" for a by (cases a) simp_all
  moreover from this calculation have "validation_code_kind a \<noteq> CodeValidationInvalidSourceLocation" for a by (cases a) simp_all
  ultimately show ?thesis by (cases e) simp_all
qed

lemma invalid_source_location_unused: "code_kind e \<noteq> CodeValidationInvalidSourceLocation"
proof -
  have "code_descent n e \<noteq> CodeValidationInvalidSourceLocation" for n
    by (induction n e rule: code_descent.induct) (simp_all only: code_descent.simps base_code_used model_error_code.distinct not_False_eq_True)
  then show ?thesis by (simp add: code_kind_def)
qed

end
