(* ===== verification/Model_Limits.thy ===== *)
theory Model_Limits
  imports Tree_Traversal Model_Errors
begin

text \<open>
  The resource limits of directly constructed models (\<open>crates/model/src/limits.rs\<close>) and the bounded
  validation of the identity tree: policies and their intersection, the accounting state that every
  validation threads through, and the walk that bounds the depth of a tree.
\<close>

named_theorems account_simps \<open>evaluation of the accounting operations\<close>

section \<open>Limits\<close>

record validation_limits =
  max_nodes :: usize
  max_tree_depth :: usize
  max_properties :: usize
  max_property_depth :: usize
  max_opaque_bytes :: usize
  max_string_bytes :: usize

definition validation_limits_default :: validation_limits where
  "validation_limits_default =
     \<lparr>max_nodes = 100000, max_tree_depth = 256, max_properties = 500000, max_property_depth = 256,
      max_opaque_bytes = 8 * 1024 * 1024, max_string_bytes = 16 * 1024 * 1024\<rparr>"

definition limits_valid :: "validation_limits \<Rightarrow> bool" where
  "limits_valid l \<longleftrightarrow>
     max_nodes l \<noteq> 0 \<and> max_tree_depth l \<noteq> 0 \<and> max_properties l \<noteq> 0 \<and>
     max_property_depth l \<noteq> 0 \<and> max_opaque_bytes l \<noteq> 0 \<and> max_string_bytes l \<noteq> 0"

definition validation_limits_new ::
  "usize \<Rightarrow> usize \<Rightarrow> usize \<Rightarrow> usize \<Rightarrow> usize \<Rightarrow> usize \<Rightarrow> validation_limits option" where
  "validation_limits_new nodes tree_depth properties property_depth opaque_bytes string_bytes =
     (let l = \<lparr>max_nodes = nodes, max_tree_depth = tree_depth, max_properties = properties,
               max_property_depth = property_depth, max_opaque_bytes = opaque_bytes, max_string_bytes = string_bytes\<rparr>
      in if limits_valid l then Some l else None)"

definition const_min :: "usize \<Rightarrow> usize \<Rightarrow> usize" where
  "const_min left right = (if left < right then left else right)"

definition intersect :: "validation_limits \<Rightarrow> validation_limits \<Rightarrow> validation_limits option" where
  "intersect l peer =
     (let r = \<lparr>max_nodes = const_min (max_nodes l) (max_nodes peer),
               max_tree_depth = const_min (max_tree_depth l) (max_tree_depth peer),
               max_properties = const_min (max_properties l) (max_properties peer),
               max_property_depth = const_min (max_property_depth l) (max_property_depth peer),
               max_opaque_bytes = const_min (max_opaque_bytes l) (max_opaque_bytes peer),
               max_string_bytes = const_min (max_string_bytes l) (max_string_bytes peer)\<rparr>
      in if limits_valid r then Some r else None)"

definition tighten :: "validation_limits \<Rightarrow> validation_limits \<Rightarrow> bool \<times> validation_limits" where
  "tighten peer l = (case intersect l peer of None \<Rightarrow> (False, l) | Some narrowed \<Rightarrow> (True, narrowed))"

definition is_at_least_as_tight_as :: "validation_limits \<Rightarrow> validation_limits \<Rightarrow> bool" where
  "is_at_least_as_tight_as l other \<longleftrightarrow>
     max_nodes l \<le> max_nodes other \<and> max_tree_depth l \<le> max_tree_depth other \<and>
     max_properties l \<le> max_properties other \<and> max_property_depth l \<le> max_property_depth other \<and>
     max_opaque_bytes l \<le> max_opaque_bytes other \<and> max_string_bytes l \<le> max_string_bytes other"

definition validation_limits_small :: validation_limits where
  "validation_limits_small =
     \<lparr>max_nodes = 1000, max_tree_depth = 64, max_properties = 10000, max_property_depth = 64,
      max_opaque_bytes = 512 * 1024, max_string_bytes = 2 * 1024 * 1024\<rparr>"

section \<open>Accounting\<close>

record validation_state =
  vs_limits :: validation_limits
  vs_properties :: usize
  vs_opaque_bytes :: usize
  vs_string_bytes :: usize

type_synonym 'a accounting = "(validation_state, model_validation_error, 'a) routine"

definition validation_state_new :: "validation_limits \<Rightarrow> validation_state" where
  "validation_state_new l = \<lparr>vs_limits = l, vs_properties = 0, vs_opaque_bytes = 0, vs_string_bytes = 0\<rparr>"

definition checked_total ::
  "usize \<Rightarrow> usize \<Rightarrow> usize \<Rightarrow> validation_limit_kind \<Rightarrow> (model_validation_error, usize) result" where
  "checked_total current additional lim kind =
     (case checked_add usize_max current additional of
        None \<Rightarrow> Err (LimitExceeded kind lim usize_max)
      | Some actual \<Rightarrow> if lim < actual then Err (LimitExceeded kind lim actual) else Ok actual)"

definition add_properties :: "usize \<Rightarrow> unit accounting" where
  "add_properties additional = reading (\<lambda>st.
     and_then (lift_result (checked_total (vs_properties st) additional (max_properties (vs_limits st)) PropertyCount)) (\<lambda>n.
     modify (\<lambda>st. st\<lparr>vs_properties := n\<rparr>)))"

definition add_property :: "unit accounting" where
  "add_property = add_properties 1"

definition add_opaque_bytes :: "usize \<Rightarrow> unit accounting" where
  "add_opaque_bytes bytes = reading (\<lambda>st.
     and_then (lift_result (checked_total (vs_opaque_bytes st) bytes (max_opaque_bytes (vs_limits st)) OpaqueBytes)) (\<lambda>n.
     modify (\<lambda>st. st\<lparr>vs_opaque_bytes := n\<rparr>)))"

definition add_string_bytes :: "usize \<Rightarrow> unit accounting" where
  "add_string_bytes bytes = reading (\<lambda>st.
     and_then (lift_result (checked_total (vs_string_bytes st) bytes (max_string_bytes (vs_limits st)) StringBytes)) (\<lambda>n.
     modify (\<lambda>st. st\<lparr>vs_string_bytes := n\<rparr>)))"

section \<open>Bounded validation of the tree\<close>

text \<open>
  \<open>validate_tree_depth\<close>: the head of the list is the end of the vector \<open>pending\<close>, so pushing the
  children in reverse order puts the first child on top.
\<close>

definition depth_pass ::
  "'a identity_tree \<Rightarrow> usize \<Rightarrow> (node_id \<times> usize) list \<Rightarrow> ((node_id \<times> usize) list, (model_error, unit) result) pass" where
  "depth_pass t max_depth pending =
     (case pending of
        [] \<Rightarrow> Break (Ok ())
      | (i, d) # pending' \<Rightarrow>
          if max_depth < d then Break (Err (ValidationFailure (LimitExceeded TreeDepth max_depth d)))
          else (case tree_get t i of
              None \<Rightarrow> Break (Err (TreeFailure (InvariantViolation
                ''ordered link points to a missing node during depth validation'')))
            | Some n \<Rightarrow> Again (fold (\<lambda>c p. (c, saturating_add usize_max d 1) # p) (rev (tn_children n)) pending')))"

definition validate_tree_depth :: "'a identity_tree \<Rightarrow> usize \<Rightarrow> (model_error, unit) result option" where
  "validate_tree_depth t max_depth =
     iterate (depth_pass t max_depth) (rev (map (\<lambda>i. (i, 0)) (rev (it_roots t))))"

definition validate_bounded :: "'a identity_tree \<Rightarrow> validation_limits \<Rightarrow> (model_error, unit) result option" where
  "validate_bounded t l =
     (if max_nodes l < tree_len t then
        Some (Err (ValidationFailure (LimitExceeded Nodes (max_nodes l) (tree_len t))))
      else (case validate t of
          Err e \<Rightarrow> Some (Err (TreeFailure e))
        | Ok _ \<Rightarrow> validate_tree_depth t (max_tree_depth l)))"

section \<open>Intersection is the meet of the valid policies\<close>

lemma const_min_eq: "const_min a b = min a b"
  by (simp add: const_min_def min_def)

lemma tight_valid: "limits_valid x \<Longrightarrow> is_at_least_as_tight_as x y \<Longrightarrow> limits_valid y"
  by (simp add: limits_valid_def is_at_least_as_tight_as_def)

lemma intersect_meet:
  assumes "limits_valid x"
  shows "(\<exists>r. intersect l peer = Some r \<and> is_at_least_as_tight_as x r) \<longleftrightarrow>
    is_at_least_as_tight_as x l \<and> is_at_least_as_tight_as x peer"
proof -
  define r where "r = \<lparr>max_nodes = min (max_nodes l) (max_nodes peer),
    max_tree_depth = min (max_tree_depth l) (max_tree_depth peer),
    max_properties = min (max_properties l) (max_properties peer),
    max_property_depth = min (max_property_depth l) (max_property_depth peer),
    max_opaque_bytes = min (max_opaque_bytes l) (max_opaque_bytes peer),
    max_string_bytes = min (max_string_bytes l) (max_string_bytes peer)\<rparr>"
  have "intersect l peer = (if limits_valid r then Some r else None)"
    by (simp add: intersect_def Let_def const_min_eq r_def)
  moreover have "is_at_least_as_tight_as x r \<longleftrightarrow> is_at_least_as_tight_as x l \<and> is_at_least_as_tight_as x peer"
    unfolding is_at_least_as_tight_as_def r_def by simp blast
  ultimately show ?thesis using tight_valid [OF assms, of r] by auto
qed

lemma intersect_tight:
  "intersect l peer = Some r \<Longrightarrow> limits_valid r \<and> is_at_least_as_tight_as r l \<and> is_at_least_as_tight_as r peer"
  by (simp add: intersect_def Let_def const_min_eq split: if_splits) (auto simp: is_at_least_as_tight_as_def)

lemma tighten_only_narrows:
  "tighten peer l = (b, l') \<Longrightarrow>
    (if b then limits_valid l' \<and> is_at_least_as_tight_as l' l \<and> is_at_least_as_tight_as l' peer else l' = l)"
  by (auto simp: tighten_def dest: intersect_tight split: option.splits)

lemma new_limits_valid: "validation_limits_new a b c d e f = Some l \<Longrightarrow> limits_valid l"
  by (auto simp: validation_limits_new_def Let_def split: if_splits)

section \<open>Accounting is exact\<close>

text \<open>A counter below a machine-sized limit never wraps: the check is the comparison of natural numbers.\<close>

lemma checked_total_eq:
  assumes "lim \<le> usize_max"
  shows "checked_total a b lim k =
    (if a + b \<le> lim then Ok (a + b) else Err (LimitExceeded k lim (min usize_max (a + b))))"
  using assms by (auto simp: checked_total_def split: option.splits)

definition limits_sized :: "validation_limits \<Rightarrow> bool" where
  "limits_sized l \<longleftrightarrow> max_nodes l \<le> usize_max \<and> max_tree_depth l \<le> usize_max \<and> max_properties l \<le> usize_max \<and>
     max_property_depth l \<le> usize_max \<and> max_opaque_bytes l \<le> usize_max \<and> max_string_bytes l \<le> usize_max"

lemma add_properties_eq [account_simps]:
  assumes "limits_sized (vs_limits st)"
  shows "add_properties n st =
    (if vs_properties st + n \<le> max_properties (vs_limits st) then (Ok (), st\<lparr>vs_properties := vs_properties st + n\<rparr>)
     else (Err (LimitExceeded PropertyCount (max_properties (vs_limits st)) (min usize_max (vs_properties st + n))), st))"
  using assms by (simp add: add_properties_def checked_total_eq limits_sized_def and_then_def)

lemma add_opaque_bytes_eq [account_simps]:
  assumes "limits_sized (vs_limits st)"
  shows "add_opaque_bytes n st =
    (if vs_opaque_bytes st + n \<le> max_opaque_bytes (vs_limits st) then (Ok (), st\<lparr>vs_opaque_bytes := vs_opaque_bytes st + n\<rparr>)
     else (Err (LimitExceeded OpaqueBytes (max_opaque_bytes (vs_limits st)) (min usize_max (vs_opaque_bytes st + n))), st))"
  using assms by (simp add: add_opaque_bytes_def checked_total_eq limits_sized_def and_then_def)

lemma add_string_bytes_eq [account_simps]:
  assumes "limits_sized (vs_limits st)"
  shows "add_string_bytes n st =
    (if vs_string_bytes st + n \<le> max_string_bytes (vs_limits st) then (Ok (), st\<lparr>vs_string_bytes := vs_string_bytes st + n\<rparr>)
     else (Err (LimitExceeded StringBytes (max_string_bytes (vs_limits st)) (min usize_max (vs_string_bytes st + n))), st))"
  using assms by (simp add: add_string_bytes_def checked_total_eq limits_sized_def and_then_def)

section \<open>Depth of a tree\<close>

text \<open>The number of levels of a forest: a root alone has one.\<close>

fun levels :: "'a rose \<Rightarrow> nat" where
  "levels (Rose i v us) = Suc (foldr max (map levels us) 0)"

abbreviation forest_levels :: "'a rose list \<Rightarrow> nat" where
  "forest_levels ts \<equiv> foldr max (map levels ts) 0"

lemma fold_push: "fold (\<lambda>c p. f c # p) xs p = rev (map f xs) @ p"
  by (induction xs arbitrary: p) simp_all

lemma levels_le_ids: "levels u \<le> length (ids u)"
proof (induction u)
  case (Rose i v us)
  have "foldr max (map levels ws) 0 \<le> length (forest_ids ws)" if "set ws \<subseteq> set us" for ws
    using that
  proof (induction ws)
    case (Cons w ws)
    then have "levels w \<le> length (ids w)" using Rose.IH by auto
    then show ?case using Cons by simp
  qed simp
  then show ?case by simp
qed

lemma le_max_list: "x \<in> set xs \<Longrightarrow> f x \<le> foldr max (map f xs) (0 :: nat)"
  by (induction xs) auto

lemma indexes_flats: "indexes t (flats p us) \<Longrightarrow> u \<in> set us \<Longrightarrow> indexes t (flat p u)"
  by (auto simp: indexes_def)

lemma levels_pos [simp]: "0 < levels u"
  by (cases u) simp

text \<open>The loop goes through the subtrees on the stack one after the other.\<close>

lemma depth_walks:
  assumes "\<And>u rest. u \<in> set us \<Longrightarrow> d \<le> m \<Longrightarrow> iterate (depth_pass t m) ((r_id u, d) # rest) =
      (if Suc m < d + levels u then Some (Err (ValidationFailure (LimitExceeded TreeDepth m (Suc m))))
       else iterate (depth_pass t m) rest)"
    and "d \<le> Suc m"
  shows "iterate (depth_pass t m) (map (\<lambda>u. (r_id u, d)) us @ rest) =
    (if Suc m < d + forest_levels us then Some (Err (ValidationFailure (LimitExceeded TreeDepth m (Suc m))))
     else iterate (depth_pass t m) rest)"
  using assms(1)
proof (induction us)
  case (Cons u us)
  show ?case
  proof (cases "d \<le> m")
    case True
    then show ?thesis using Cons by (auto simp: max_def)
  next
    case False
    then have "d = Suc m" using assms(2) by simp
    moreover have "0 < forest_levels (u # us)" by (simp add: less_max_iff_disj)
    ultimately show ?thesis by (simp add: depth_pass_def)
  qed
qed (use assms(2) in simp)

lemma depth_walk:
  assumes "indexes t (flat p u)" and "d \<le> m" and "d + levels u \<le> usize_max"
  shows "iterate (depth_pass t m) ((r_id u, d) # rest) =
    (if Suc m < d + levels u then Some (Err (ValidationFailure (LimitExceeded TreeDepth m (Suc m))))
     else iterate (depth_pass t m) rest)"
  using assms
proof (induction u arbitrary: p d rest)
  case (Rose i v us)
  have sat: "saturating_add usize_max d 1 = Suc d" using Rose.prems(3) by (simp add: saturating_add_def)
  have "depth_pass t m ((i, d) # rest) = Again (map (\<lambda>u. (r_id u, Suc d)) us @ rest)"
    using Rose.prems by (simp add: depth_pass_def fold_push sat [simplified] rev_map comp_def)
  then have "iterate (depth_pass t m) ((i, d) # rest) = iterate (depth_pass t m) (map (\<lambda>u. (r_id u, Suc d)) us @ rest)"
    by (rule iterate_Again)
  also have "\<dots> = (if Suc m < Suc d + forest_levels us then Some (Err (ValidationFailure (LimitExceeded TreeDepth m (Suc m))))
      else iterate (depth_pass t m) rest)"
  proof (rule depth_walks)
    fix u rest assume u: "u \<in> set us" "Suc d \<le> m"
    have "levels u \<le> forest_levels us" using u(1) by (rule le_max_list)
    then show "iterate (depth_pass t m) ((r_id u, Suc d) # rest) =
      (if Suc m < Suc d + levels u then Some (Err (ValidationFailure (LimitExceeded TreeDepth m (Suc m))))
       else iterate (depth_pass t m) rest)"
      using Rose.prems u by (intro Rose.IH [of u "Some i"]) (auto intro: indexes_flats)
  qed (use Rose.prems in simp)
  finally show ?case by simp
qed

lemma forest_levels_le: "forest_levels ts \<le> length (forest_ids ts)"
proof (induction ts)
  case (Cons u ts)
  then show ?case using levels_le_ids [of u] by simp
qed simp

lemma validate_tree_depth_eq:
  assumes "represents t ts" and "tree_len t \<le> usize_max"
  shows "validate_tree_depth t m =
    Some (if Suc m < forest_levels ts then Err (ValidationFailure (LimitExceeded TreeDepth m (Suc m))) else Ok ())"
proof -
  have "iterate (depth_pass t m) (map (\<lambda>u. (r_id u, 0)) ts @ []) =
      (if Suc m < 0 + forest_levels ts then Some (Err (ValidationFailure (LimitExceeded TreeDepth m (Suc m))))
       else iterate (depth_pass t m) [])"
  proof (rule depth_walks)
    fix u rest assume u: "u \<in> set ts"
    have "levels u \<le> forest_levels ts" using u by (rule le_max_list)
    then have "levels u \<le> usize_max"
      using forest_levels_le [of ts] represented_len(1) [OF assms] by linarith
    then show "iterate (depth_pass t m) ((r_id u, 0) # rest) =
      (if Suc m < 0 + levels u then Some (Err (ValidationFailure (LimitExceeded TreeDepth m (Suc m))))
       else iterate (depth_pass t m) rest)"
      using u indexes_flats [OF represents_indexes [OF assms(1)]] by (intro depth_walk) auto
  qed simp
  moreover have "rev (map (\<lambda>i. (i, 0 :: usize)) (rev (it_roots t))) = map (\<lambda>u. (r_id u, 0)) ts"
    using representsD(2) [OF assms(1)] by (simp add: rev_map comp_def)
  moreover have "depth_pass t m [] = Break (Ok ())" by (simp add: depth_pass_def)
  ultimately show ?thesis by (simp add: validate_tree_depth_def)
qed

text \<open>The structural check counts links only, so a cycle that no root reaches passes it.\<close>

definition detached_cycle :: "string identity_tree" where
  "detached_cycle =
     \<lparr>it_nodes = [(1, \<lparr>tn_id = 1, tn_parent = Some 2, tn_value = ''a'', tn_children = [2]\<rparr>),
                  (2, \<lparr>tn_id = 2, tn_parent = Some 1, tn_value = ''b'', tn_children = [1]\<rparr>)],
      it_roots = [], it_next_id = Some 3\<rparr>"

lemma detached_cycle_accepted:
  "validate detached_cycle = Ok () \<and> validate_bounded detached_cycle validation_limits_small = Some (Ok ()) \<and>
   preorder_ids detached_cycle = Some []"
proof -
  have v: "validate detached_cycle = Ok ()"
    by (simp add: validate_def detached_cycle_def bm_get_def)
  have "iter_next detached_cycle iter_preorder = Some (None, iter_preorder)"
    by (simp add: iter_next_def iter_pass_def iter_preorder_def detached_cycle_def)
  then have "preorder_ids detached_cycle = Some []"
    by (simp add: preorder_ids_def iter_collect.simps)
  moreover have "validate_tree_depth detached_cycle d = Some (Ok ())" for d
    by (simp add: validate_tree_depth_def detached_cycle_def depth_pass_def)
  moreover have "tree_len detached_cycle = 2" by (simp add: detached_cycle_def tree_len_def)
  ultimately show ?thesis using v by (simp add: validate_bounded_def validation_limits_small_def)
qed

end
