(* ===== verification/Property_Value.thy ===== *)
theory Property_Value
  imports Model_Limits
begin

text \<open>
  The typed property values of test elements (\<open>crates/model/src/property.rs\<close>, \<open>opaque.rs\<close>): nested
  values, serialized objects, opaque payloads, and the insertion-ordered property collection with
  unique names.

  A \<open>String\<close> is its list of UTF-8 bytes, so its length is the number of bytes that the source counts.
  Floating-point values are their bits: the source compares them by \<open>to_bits\<close> and \<open>is_nan\<close> only.
\<close>

unbundle bit_operations_syntax

named_theorems property_simps \<open>evaluation of the property operations\<close>

section \<open>Opaque payloads\<close>

type_synonym bytes = "8 word list"

record opaque_value =
  ov_type_name :: string
  ov_raw :: bytes
  ov_type_name_present :: bool
  ov_raw_present :: bool

datatype opaque_value_error = PayloadTooLarge usize usize

definition DEFAULT_MAX_OPAQUE_VALUE_BYTES :: usize where
  "DEFAULT_MAX_OPAQUE_VALUE_BYTES = 8 * 1024 * 1024"

definition opaque_new :: "string \<Rightarrow> bytes \<Rightarrow> opaque_value" where
  "opaque_new type_name raw =
     \<lparr>ov_type_name = type_name, ov_raw = raw, ov_type_name_present = True, ov_raw_present = True\<rparr>"

text \<open>An optional field of the source is a value together with its presence.\<close>

fun presence :: "'a list option \<Rightarrow> 'a list \<times> bool" where
  "presence (Some x) = (x, True)"
| "presence None = ([], False)"

definition from_optional_fields :: "string option \<Rightarrow> bytes option \<Rightarrow> opaque_value" where
  "from_optional_fields type_name raw =
     (case presence type_name of (n, n_present) \<Rightarrow>
      case presence raw of (r, r_present) \<Rightarrow>
        \<lparr>ov_type_name = n, ov_raw = r, ov_type_name_present = n_present, ov_raw_present = r_present\<rparr>)"

definition from_optional_type_name :: "string option \<Rightarrow> bytes \<Rightarrow> opaque_value" where
  "from_optional_type_name type_name raw =
     (case presence type_name of (n, n_present) \<Rightarrow>
        \<lparr>ov_type_name = n, ov_raw = raw, ov_type_name_present = n_present, ov_raw_present = True\<rparr>)"

definition from_optional_raw :: "string \<Rightarrow> bytes option \<Rightarrow> opaque_value" where
  "from_optional_raw type_name raw =
     (case presence raw of (r, r_present) \<Rightarrow>
        \<lparr>ov_type_name = type_name, ov_raw = r, ov_type_name_present = True, ov_raw_present = r_present\<rparr>)"

definition try_new_with_limit :: "string \<Rightarrow> bytes \<Rightarrow> usize \<Rightarrow> (opaque_value_error, opaque_value) result" where
  "try_new_with_limit type_name raw max_payload_bytes =
     (if max_payload_bytes < length raw then Err (PayloadTooLarge max_payload_bytes (length raw))
      else Ok (opaque_new type_name raw))"

definition try_from_slice :: "string \<Rightarrow> bytes \<Rightarrow> usize \<Rightarrow> (opaque_value_error, opaque_value) result" where
  "try_from_slice type_name raw max_payload_bytes =
     (if max_payload_bytes < length raw then Err (PayloadTooLarge max_payload_bytes (length raw))
      else Ok (opaque_new type_name raw))"

definition opaque_try_new :: "string \<Rightarrow> bytes \<Rightarrow> (opaque_value_error, opaque_value) result" where
  "opaque_try_new type_name raw = try_new_with_limit type_name raw DEFAULT_MAX_OPAQUE_VALUE_BYTES"

definition optional_type_name :: "opaque_value \<Rightarrow> string option" where
  "optional_type_name v = (if ov_type_name_present v then Some (ov_type_name v) else None)"

definition optional_raw :: "opaque_value \<Rightarrow> bytes option" where
  "optional_raw v = (if ov_raw_present v then Some (ov_raw v) else None)"

definition with_optional_type_name :: "string option \<Rightarrow> opaque_value \<Rightarrow> opaque_value" where
  "with_optional_type_name type_name v =
     (case presence type_name of (n, n_present) \<Rightarrow> v\<lparr>ov_type_name := n, ov_type_name_present := n_present\<rparr>)"

definition with_optional_raw :: "bytes option \<Rightarrow> opaque_value \<Rightarrow> opaque_value" where
  "with_optional_raw raw v = (case presence raw of (r, r_present) \<Rightarrow> v\<lparr>ov_raw := r, ov_raw_present := r_present\<rparr>)"

definition opaque_into_optional_raw :: "opaque_value \<Rightarrow> bytes option" where
  "opaque_into_optional_raw v = (if ov_raw_present v then Some (ov_raw v) else None)"

definition opaque_validate_with_limits :: "opaque_value \<Rightarrow> validation_limits \<Rightarrow> (model_validation_error, unit) result" where
  "opaque_validate_with_limits v l =
     fst (and_then (add_string_bytes (length (ov_type_name v))) (\<lambda>_. add_opaque_bytes (length (ov_raw v)))
       (validation_state_new l))"

section \<open>Serialized objects\<close>

datatype object_payload_kind = TextPayload | OpaqueXml

record object_property_attribute =
  oa_name :: string
  oa_value :: string

record object_property =
  op_class_name :: "string option"
  op_raw :: bytes
  op_payload_kind :: object_payload_kind
  op_attributes :: "object_property_attribute list"

definition object_new :: "string \<Rightarrow> bytes \<Rightarrow> object_property" where
  "object_new class_name raw =
     \<lparr>op_class_name = Some class_name, op_raw = raw, op_payload_kind = TextPayload, op_attributes = []\<rparr>"

definition object_from_optional_class_name :: "string option \<Rightarrow> bytes \<Rightarrow> object_property" where
  "object_from_optional_class_name class_name raw =
     \<lparr>op_class_name = class_name, op_raw = raw, op_payload_kind = TextPayload, op_attributes = []\<rparr>"

definition object_opaque_xml :: "string \<Rightarrow> bytes \<Rightarrow> object_property_attribute list \<Rightarrow> object_property" where
  "object_opaque_xml class_name raw attributes =
     \<lparr>op_class_name = Some class_name, op_raw = raw, op_payload_kind = OpaqueXml, op_attributes = attributes\<rparr>"

definition object_opaque_xml_optional ::
  "string option \<Rightarrow> bytes \<Rightarrow> object_property_attribute list \<Rightarrow> object_property" where
  "object_opaque_xml_optional class_name raw attributes =
     \<lparr>op_class_name = class_name, op_raw = raw, op_payload_kind = OpaqueXml, op_attributes = attributes\<rparr>"

definition object_with_class_name :: "string option \<Rightarrow> object_property \<Rightarrow> object_property" where
  "object_with_class_name class_name obj = obj\<lparr>op_class_name := class_name\<rparr>"

definition with_payload_kind :: "object_payload_kind \<Rightarrow> object_property \<Rightarrow> object_property" where
  "with_payload_kind k obj = obj\<lparr>op_payload_kind := k\<rparr>"

definition with_attributes :: "object_property_attribute list \<Rightarrow> object_property \<Rightarrow> object_property" where
  "with_attributes attributes obj = obj\<lparr>op_attributes := attributes\<rparr>"

definition is_opaque_xml :: "object_property \<Rightarrow> bool" where
  "is_opaque_xml obj \<longleftrightarrow> op_payload_kind obj = OpaqueXml"

section \<open>Values\<close>

datatype property_value =
    PNull
  | PString string
  | PBoolean bool
  | PInteger "32 word"
  | PLong "64 word"
  | PFloat "32 word"
  | PDouble "64 word"
  | PCollection "property_value list"
  | PNamedCollection "property_entry list"
  | PMap "property_entry list"
  | PObject object_property
  | PElement element_property
  | POpaque opaque_value
and property_entry = PropertyEntry (pe_name: string) (pe_value: property_value)
and element_property =
    ElementProperty (ep_name: string) (ep_class_name: "string option") (ep_properties: properties)
      (ep_opaque_extensions: "opaque_value list")
and properties = Properties (ps_entries: "property_entry list")

fun kind :: "property_value \<Rightarrow> property_kind" where
  "kind PNull = KNull"
| "kind (PString _) = KString"
| "kind (PBoolean _) = KBoolean"
| "kind (PInteger _) = KInteger"
| "kind (PLong _) = KLong"
| "kind (PFloat _) = KFloat"
| "kind (PDouble _) = KDouble"
| "kind (PCollection _) = KCollection"
| "kind (PNamedCollection _) = KNamedCollection"
| "kind (PMap _) = KMap"
| "kind (PObject _) = KObject"
| "kind (PElement _) = KElement"
| "kind (POpaque _) = KOpaque"

definition type_error :: "property_value \<Rightarrow> property_kind \<Rightarrow> property_type_error" where
  "type_error v k = PropertyTypeError k (kind v)"

definition as_string :: "property_value \<Rightarrow> (property_type_error, string) result" where
  "as_string v = (case v of PString x \<Rightarrow> Ok x | _ \<Rightarrow> Err (type_error v KString))"

definition as_boolean :: "property_value \<Rightarrow> (property_type_error, bool) result" where
  "as_boolean v = (case v of PBoolean x \<Rightarrow> Ok x | _ \<Rightarrow> Err (type_error v KBoolean))"

definition as_integer :: "property_value \<Rightarrow> (property_type_error, 32 word) result" where
  "as_integer v = (case v of PInteger x \<Rightarrow> Ok x | _ \<Rightarrow> Err (type_error v KInteger))"

definition as_long :: "property_value \<Rightarrow> (property_type_error, 64 word) result" where
  "as_long v = (case v of PLong x \<Rightarrow> Ok x | _ \<Rightarrow> Err (type_error v KLong))"

definition as_float :: "property_value \<Rightarrow> (property_type_error, 32 word) result" where
  "as_float v = (case v of PFloat x \<Rightarrow> Ok x | _ \<Rightarrow> Err (type_error v KFloat))"

definition as_double :: "property_value \<Rightarrow> (property_type_error, 64 word) result" where
  "as_double v = (case v of PDouble x \<Rightarrow> Ok x | _ \<Rightarrow> Err (type_error v KDouble))"

definition as_null :: "property_value \<Rightarrow> (property_type_error, unit) result" where
  "as_null v = (case v of PNull \<Rightarrow> Ok () | _ \<Rightarrow> Err (type_error v KNull))"

definition as_collection :: "property_value \<Rightarrow> (property_type_error, property_value list) result" where
  "as_collection v = (case v of PCollection x \<Rightarrow> Ok x | _ \<Rightarrow> Err (type_error v KCollection))"

definition as_named_collection :: "property_value \<Rightarrow> (property_type_error, property_entry list) result" where
  "as_named_collection v = (case v of PNamedCollection x \<Rightarrow> Ok x | _ \<Rightarrow> Err (type_error v KNamedCollection))"

definition as_map :: "property_value \<Rightarrow> (property_type_error, property_entry list) result" where
  "as_map v = (case v of PMap x \<Rightarrow> Ok x | _ \<Rightarrow> Err (type_error v KMap))"

definition as_object :: "property_value \<Rightarrow> (property_type_error, object_property) result" where
  "as_object v = (case v of PObject x \<Rightarrow> Ok x | _ \<Rightarrow> Err (type_error v KObject))"

definition as_element :: "property_value \<Rightarrow> (property_type_error, element_property) result" where
  "as_element v = (case v of PElement x \<Rightarrow> Ok x | _ \<Rightarrow> Err (type_error v KElement))"

definition as_opaque :: "property_value \<Rightarrow> (property_type_error, opaque_value) result" where
  "as_opaque v = (case v of POpaque x \<Rightarrow> Ok x | _ \<Rightarrow> Err (type_error v KOpaque))"

section \<open>Ordered properties\<close>

type_synonym 'a props_op = "(properties, property_error, 'a) routine"

definition props_new :: properties where
  "props_new = Properties []"

definition props_len :: "properties \<Rightarrow> usize" where
  "props_len ps = length (ps_entries ps)"

text \<open>\<open>iter().position\<close>.\<close>

fun position :: "('a \<Rightarrow> bool) \<Rightarrow> 'a list \<Rightarrow> usize option" where
  "position P [] = None"
| "position P (x # xs) = (if P x then Some 0 else map_option Suc (position P xs))"

definition props_position :: "properties \<Rightarrow> string \<Rightarrow> usize option" where
  "props_position ps name = position (\<lambda>e. pe_name e = name) (ps_entries ps)"

definition props_contains :: "properties \<Rightarrow> string \<Rightarrow> bool" where
  "props_contains ps name \<longleftrightarrow> props_position ps name \<noteq> None"

definition props_get_entry :: "properties \<Rightarrow> string \<Rightarrow> property_entry option" where
  "props_get_entry ps name = List.find (\<lambda>e. pe_name e = name) (ps_entries ps)"

definition props_get :: "properties \<Rightarrow> string \<Rightarrow> property_value option" where
  "props_get ps name = map_option pe_value (props_get_entry ps name)"

definition props_keys :: "properties \<Rightarrow> string list" where
  "props_keys ps = map pe_name (ps_entries ps)"

definition props_values :: "properties \<Rightarrow> property_value list" where
  "props_values ps = map pe_value (ps_entries ps)"

text \<open>\<open>std::mem::replace\<close> of the value of the first entry with the name.\<close>

fun replace_value :: "string \<Rightarrow> property_value \<Rightarrow> property_entry list \<Rightarrow> (property_value \<times> property_entry list) option" where
  "replace_value name v [] = None"
| "replace_value name v (e # es) =
     (if pe_name e = name then Some (pe_value e, PropertyEntry (pe_name e) v # es)
      else map_option (\<lambda>(old, es'). (old, e # es')) (replace_value name v es))"

definition props_insert :: "string \<Rightarrow> property_value \<Rightarrow> properties \<Rightarrow> property_value option \<times> properties" where
  "props_insert name v ps =
     (case replace_value name v (ps_entries ps) of
        Some (old, es) \<Rightarrow> (Some old, Properties es)
      | None \<Rightarrow> (None, Properties (ps_entries ps @ [PropertyEntry name v])))"

definition try_insert_entry :: "property_entry \<Rightarrow> unit props_op" where
  "try_insert_entry e ps =
     (if props_contains ps (pe_name e) then (Err (DuplicateName (pe_name e)), ps)
      else (Ok (), Properties (ps_entries ps @ [e])))"

definition try_insert :: "string \<Rightarrow> property_value \<Rightarrow> unit props_op" where
  "try_insert name v = try_insert_entry (PropertyEntry name v)"

fun insert_all :: "property_entry list \<Rightarrow> unit props_op" where
  "insert_all [] ps = (Ok (), ps)"
| "insert_all (e # es) ps = and_then (try_insert_entry e) (\<lambda>_. insert_all es) ps"

definition from_entries :: "property_entry list \<Rightarrow> (property_error, properties) result" where
  "from_entries es = (case insert_all es props_new of (Err e, _) \<Rightarrow> Err e | (Ok _, ps) \<Rightarrow> Ok ps)"

definition vec_remove :: "usize \<Rightarrow> 'a list \<Rightarrow> 'a list" where
  "vec_remove i xs = take i xs @ drop (Suc i) xs"

definition props_remove :: "string \<Rightarrow> properties \<Rightarrow> property_value option \<times> properties" where
  "props_remove name ps =
     (case props_position ps name of
        None \<Rightarrow> (None, ps)
      | Some i \<Rightarrow> (Some (pe_value (ps_entries ps ! i)), Properties (vec_remove i (ps_entries ps))))"

definition try_remove :: "string \<Rightarrow> property_value props_op" where
  "try_remove name ps = (case props_remove name ps of (v, ps') \<Rightarrow> (ok_or v (NameNotFound name), ps'))"

text \<open>\<open>edit\<close>: the closure works on a copy of the entries, which is kept only when its names are unique.\<close>

fun first_duplicate :: "string set \<Rightarrow> property_entry list \<Rightarrow> string option" where
  "first_duplicate names [] = None"
| "first_duplicate names (e # es) =
     (if pe_name e \<in> names then Some (pe_name e) else first_duplicate (insert (pe_name e) names) es)"

definition props_edit :: "(property_entry list \<Rightarrow> property_entry list) \<Rightarrow> unit props_op" where
  "props_edit f ps =
     (let candidate = f (ps_entries ps)
      in case first_duplicate {} candidate of
           Some name \<Rightarrow> (Err (DuplicateName name), ps)
         | None \<Rightarrow> (Ok (), Properties candidate))"

text \<open>\<open>values_mut\<close>: the caller changes values through the mutable references, names stay.\<close>

definition props_values_mut :: "(property_value \<Rightarrow> property_value) \<Rightarrow> properties \<Rightarrow> properties" where
  "props_values_mut f ps = Properties (map (\<lambda>e. PropertyEntry (pe_name e) (f (pe_value e))) (ps_entries ps))"

text \<open>\<open>get_mut\<close>: the caller changes the first value with the name, if there is one.\<close>

fun update_value :: "string \<Rightarrow> (property_value \<Rightarrow> property_value) \<Rightarrow> property_entry list \<Rightarrow> property_entry list" where
  "update_value name f [] = []"
| "update_value name f (e # es) =
     (if pe_name e = name then PropertyEntry (pe_name e) (f (pe_value e)) # es else e # update_value name f es)"

definition props_get_mut :: "string \<Rightarrow> (property_value \<Rightarrow> property_value) \<Rightarrow> properties \<Rightarrow> properties" where
  "props_get_mut name f ps = Properties (update_value name f (ps_entries ps))"

text \<open>\<open>ElementProperty\<close> constructors.\<close>

definition element_from_optional_class_name :: "string \<Rightarrow> string option \<Rightarrow> element_property" where
  "element_from_optional_class_name name class_name = ElementProperty name class_name props_new []"

definition element_with_class_name :: "string option \<Rightarrow> element_property \<Rightarrow> element_property" where
  "element_with_class_name class_name e =
     ElementProperty (ep_name e) class_name (ep_properties e) (ep_opaque_extensions e)"

definition element_push_opaque :: "opaque_value \<Rightarrow> element_property \<Rightarrow> element_property" where
  "element_push_opaque v e =
     ElementProperty (ep_name e) (ep_class_name e) (ep_properties e) (ep_opaque_extensions e @ [v])"

section \<open>Laws of the payload and the accessors\<close>

lemma optional_fields_round_trip:
  "optional_type_name (from_optional_fields n r) = n" "optional_raw (from_optional_fields n r) = r"
  by (cases n; cases r; simp add: from_optional_fields_def optional_type_name_def optional_raw_def)+

lemma with_optional_fields:
  "optional_type_name (with_optional_type_name n v) = n" "optional_raw (with_optional_type_name n v) = optional_raw v"
  "optional_raw (with_optional_raw r v) = r" "optional_type_name (with_optional_raw r v) = optional_type_name v"
  by (cases n; cases r; simp add: with_optional_type_name_def with_optional_raw_def optional_type_name_def optional_raw_def)+

lemma bounded_payload: "try_new_with_limit n r m = Ok v \<longleftrightarrow> length r \<le> m \<and> v = opaque_new n r"
  by (auto simp: try_new_with_limit_def)

section \<open>Lookup after insertion and removal\<close>

text \<open>
  The contract of a name-indexed store that keeps positions: what a lookup returns after an insertion
  or a removal, and that undoing an insertion by its reported previous value restores the store.
\<close>

locale named_store =
  fixes get :: "'m \<Rightarrow> string \<Rightarrow> 'v option"
    and put :: "string \<Rightarrow> 'v \<Rightarrow> 'm \<Rightarrow> 'v option \<times> 'm"
    and del :: "string \<Rightarrow> 'm \<Rightarrow> 'v option \<times> 'm"
    and inv :: "'m \<Rightarrow> bool"
  assumes put_old: "fst (put k v m) = get m k"
    and get_put: "get (snd (put k v m)) j = (if j = k then Some v else get m j)"
    and put_inv: "inv m \<Longrightarrow> inv (snd (put k v m))"
    and del_old: "fst (del k m) = get m k"
    and get_del: "inv m \<Longrightarrow> get (snd (del k m)) j = (if j = k then None else get m j)"
    and del_inv: "inv m \<Longrightarrow> inv (snd (del k m))"
    and put_back: "get m k = Some w \<Longrightarrow> snd (put k w (snd (put k v m))) = m"
    and del_back: "get m k = None \<Longrightarrow> snd (del k (snd (put k v m))) = m"
begin

text \<open>What a transactional caller does after a failed check.\<close>

definition rollback :: "string \<Rightarrow> 'v option \<Rightarrow> 'm \<Rightarrow> 'm" where
  "rollback k old m = (case old of Some w \<Rightarrow> snd (put k w m) | None \<Rightarrow> snd (del k m))"

lemma rollback_put: "put k v m = (old, m') \<Longrightarrow> rollback k old m' = m"
  using put_old [of k v m] put_back [of m k _ v] del_back [of m k v] by (auto simp: rollback_def split: option.splits)

end

lemma position_eq_None [simp]: "position P xs = None \<longleftrightarrow> (\<forall>x \<in> set xs. \<not> P x)"
  by (induction xs) auto

lemma position_Some: "position P xs = Some i \<Longrightarrow> i < length xs \<and> P (xs ! i)"
  by (induction xs arbitrary: i) (auto split: if_splits)

lemma position_snoc: "\<forall>x \<in> set xs. \<not> P x \<Longrightarrow> P y \<Longrightarrow> position P (xs @ [y]) = Some (length xs)"
  by (induction xs) auto

abbreviation find_name :: "string \<Rightarrow> property_entry list \<Rightarrow> property_entry option" where
  "find_name name \<equiv> List.find (\<lambda>e. pe_name e = name)"

definition names_unique :: "properties \<Rightarrow> bool" where
  "names_unique ps \<longleftrightarrow> distinct (props_keys ps)"

lemma replace_value_None: "replace_value name v es = None \<longleftrightarrow> (\<forall>e \<in> set es. pe_name e \<noteq> name)"
  by (induction es) auto

lemma replace_value_Some:
  assumes "replace_value name v es = Some (old, fs)"
  shows "map_option pe_value (find_name name es) = Some old" and "map pe_name fs = map pe_name es"
    and "map_option pe_value (find_name j fs) = (if j = name then Some v else map_option pe_value (find_name j es))"
    and "replace_value name old fs = Some (v, es)"
  using assms by (induction es arbitrary: fs) (auto split: if_splits)

lemma find_name_snoc: "\<forall>e \<in> set es. pe_name e \<noteq> name \<Longrightarrow>
  map_option pe_value (find_name j (es @ [PropertyEntry name v])) =
    (if j = name then Some v else map_option pe_value (find_name j es))"
  by (induction es) auto

lemma position_find: "position (\<lambda>e. pe_name e = name) es = Some i \<Longrightarrow> find_name name es = Some (es ! i)"
  by (induction es arbitrary: i) (auto split: if_splits)

lemma find_name_absent: "\<forall>e \<in> set es. pe_name e \<noteq> name \<Longrightarrow> find_name name es = None"
  by (induction es) auto

lemma distinct_vec_remove: "distinct (map f xs) \<Longrightarrow> distinct (map f (vec_remove i xs))"
  using set_take_disj_set_drop_if_distinct [of "map f xs" i "Suc i"]
  by (simp add: vec_remove_def take_map [symmetric] drop_map [symmetric] del: set_map)

lemma find_name_remove:
  assumes "position (\<lambda>e. pe_name e = name) es = Some i" and "distinct (map pe_name es)"
  shows "find_name j (vec_remove i es) = (if j = name then None else find_name j es)"
  using assms
proof (induction es arbitrary: i)
  case (Cons e es)
  then have "\<forall>x \<in> set es. pe_name x \<noteq> pe_name e" by (metis distinct.simps(2) image_eqI list.set_map list.simps(9))
  then show ?case using Cons find_name_absent [of es "pe_name e"]
    by (auto simp: vec_remove_def split: if_splits)
qed simp

interpretation ps: named_store props_get props_insert props_remove names_unique
proof
  fix k v and m :: properties and j w
  obtain es where m: "m = Properties es" by (cases m)
  show "fst (props_insert k v m) = props_get m k"
    by (auto simp: m props_insert_def replace_value_None props_get_def props_get_entry_def find_name_absent dest: replace_value_Some(1)
        split: option.splits)
  show "props_get (snd (props_insert k v m)) j = (if j = k then Some v else props_get m j)"
    using replace_value_Some(3) [of k v es _ _ j] find_name_snoc [of es k j v]
    by (auto simp: m props_insert_def replace_value_None props_get_def props_get_entry_def simp del: map_option_eq_Some split: option.splits)
  show "names_unique m \<Longrightarrow> names_unique (snd (props_insert k v m))"
    by (auto simp: m props_insert_def replace_value_None names_unique_def props_keys_def dest: replace_value_Some(2) split: option.splits)
  show "fst (props_remove k m) = props_get m k"
    by (auto simp: m props_remove_def props_get_def props_get_entry_def props_position_def find_name_absent
        dest: position_find split: option.splits)
  show "names_unique m \<Longrightarrow> props_get (snd (props_remove k m)) j = (if j = k then None else props_get m j)"
    by (auto simp: m props_remove_def props_get_def props_get_entry_def props_position_def names_unique_def props_keys_def
        find_name_absent find_name_remove split: option.splits)
  show "names_unique m \<Longrightarrow> names_unique (snd (props_remove k m))"
    by (auto simp: m props_remove_def props_position_def names_unique_def props_keys_def
        distinct_vec_remove split: option.splits)
  show "snd (props_insert k w (snd (props_insert k v m))) = m" if "props_get m k = Some w"
  proof (cases "replace_value k v es")
    case None
    then show ?thesis using that by (simp add: m props_get_def props_get_entry_def find_name_absent replace_value_None)
  next
    case (Some r)
    then obtain old fs where r: "replace_value k v es = Some (old, fs)" by (cases r) simp
    then have "old = w" using replace_value_Some(1) [OF r] that by (auto simp: m props_get_def props_get_entry_def)
    then show ?thesis using r replace_value_Some(4) [OF r] by (simp add: m props_insert_def)
  qed
  show "snd (props_remove k (snd (props_insert k v m))) = m" if "props_get m k = None"
  proof -
    have new: "\<forall>e \<in> set es. pe_name e \<noteq> k"
      using that by (auto simp: m props_get_def props_get_entry_def find_None_iff)
    then have "replace_value k v es = None" by (rule replace_value_None [THEN iffD2])
    then have "props_insert k v m = (None, Properties (es @ [PropertyEntry k v]))" by (simp only: m props_insert_def properties.sel option.case)
    then show ?thesis using position_snoc [of es "\<lambda>e. pe_name e = k"] new
      by (simp add: m props_remove_def props_position_def vec_remove_def)
  qed
qed

text \<open>An insertion of a present name keeps the order of the names, a new name goes to the end.\<close>

lemma insert_keeps_order:
  "props_keys (snd (props_insert name v ps)) = (if props_contains ps name then props_keys ps else props_keys ps @ [name])"
proof -
  obtain es where "ps = Properties es" by (cases ps)
  moreover have "replace_value name v es = None \<longleftrightarrow> \<not> props_contains (Properties es) name"
    by (simp add: props_contains_def props_position_def replace_value_None)
  ultimately show ?thesis
    by (auto simp: props_insert_def props_keys_def dest: replace_value_Some(2) split: option.splits)
qed

lemma first_duplicate_None: "first_duplicate S es = None \<longleftrightarrow> distinct (map pe_name es) \<and> S \<inter> pe_name ` set es = {}"
  by (induction es arbitrary: S) auto

text \<open>Every operation keeps the names unique, and the fallible ones change nothing when they fail.\<close>

lemma try_insert_entry_unique:
  "names_unique ps \<Longrightarrow> names_unique (snd (try_insert_entry e ps))"
  by (cases ps) (auto simp: try_insert_entry_def names_unique_def props_keys_def props_contains_def props_position_def)

lemma insert_all_unique: "names_unique ps \<Longrightarrow> names_unique (snd (insert_all es ps))"
proof (induction es arbitrary: ps)
  case (Cons e es)
  then show ?case using try_insert_entry_unique [OF Cons.prems, of e]
    by (cases "try_insert_entry e ps") (auto simp: and_then_def split: sum.splits)
qed simp

lemma contains_iff: "props_contains ps name \<longleftrightarrow> name \<in> set (props_keys ps)"
  by (auto simp: props_contains_def props_position_def props_keys_def)

lemma insert_all_eq:
  "distinct (map pe_name (ps_entries ps @ es)) \<Longrightarrow> insert_all es ps = (Ok (), Properties (ps_entries ps @ es))"
proof (induction es arbitrary: ps)
  case (Cons e es)
  then have "try_insert_entry e ps = (Ok (), Properties (ps_entries ps @ [e]))"
    by (simp add: try_insert_entry_def contains_iff props_keys_def)
  then show ?case using Cons by simp
qed (cases ps, simp)

lemma insert_all_Ok: "insert_all es ps = (Ok x, ps') \<Longrightarrow> ps_entries ps' = ps_entries ps @ es"
proof (induction es arbitrary: ps)
  case (Cons e es)
  then show ?case by (auto simp: and_then_eq_Ok try_insert_entry_def split: if_splits)
qed simp

lemma from_entries_iff: "from_entries es = Ok ps \<longleftrightarrow> ps = Properties es \<and> distinct (map pe_name es)"
proof
  assume "from_entries es = Ok ps"
  then have r: "insert_all es props_new = (Ok (), ps)" by (auto simp: from_entries_def split: prod.splits sum.splits)
  then have "ps_entries ps = es" using insert_all_Ok by (fastforce simp: props_new_def)
  moreover have "names_unique ps"
    using insert_all_unique [of props_new es] r by (simp add: names_unique_def props_new_def props_keys_def)
  ultimately show "ps = Properties es \<and> distinct (map pe_name es)"
    by (cases ps) (simp add: names_unique_def props_keys_def)
qed (simp add: from_entries_def insert_all_eq props_new_def)

lemma edit_cases:
  "props_edit f ps = (if distinct (map pe_name (f (ps_entries ps))) then (Ok (), Properties (f (ps_entries ps)))
    else (Err (DuplicateName (the (first_duplicate {} (f (ps_entries ps))))), ps))"
  using first_duplicate_None [of "{}" "f (ps_entries ps)"] by (auto simp: props_edit_def split: option.splits)

lemma update_value_names: "map pe_name (update_value name f es) = map pe_name es"
  by (induction es) auto

lemma get_mut_unique: "names_unique (props_get_mut name f ps) = names_unique ps"
  by (simp add: names_unique_def props_keys_def props_get_mut_def update_value_names)

lemma get_mut_get: "props_get (props_get_mut name f ps) j = (if j = name then map_option f (props_get ps j) else props_get ps j)"
proof -
  have "map_option pe_value (find_name j (update_value name f es)) =
      (if j = name then map_option f (map_option pe_value (find_name j es)) else map_option pe_value (find_name j es))" for es
    by (induction es) auto
  then show ?thesis by (simp add: props_get_def props_get_entry_def props_get_mut_def)
qed

lemma values_mut_unique: "names_unique (props_values_mut f ps) = names_unique ps"
  by (simp add: names_unique_def props_keys_def props_values_mut_def comp_def)

end
