(* ===== verification/Property_Equality.thy ===== *)
theory Property_Equality
  imports Property_Value
begin

text \<open>
  Semantic equality of property values (\<open>semantic_eq_tasks\<close> of \<open>crates/model/src/property.rs\<close>): an
  explicit stack of comparison tasks with one index per collection, so that nesting cannot exhaust
  the call stack. It decides equality of canonical forms, in which all NaN payloads are one value.
\<close>

section \<open>Comparison tasks\<close>

text \<open>\<open>is_nan\<close> on the bits: the exponent is all ones and the fraction is not zero.\<close>

definition is_nan32 :: "32 word \<Rightarrow> bool" where
  "is_nan32 w \<longleftrightarrow> 0x7F800000 < w AND 0x7FFFFFFF"

definition is_nan64 :: "64 word \<Rightarrow> bool" where
  "is_nan64 w \<longleftrightarrow> 0x7FF0000000000000 < w AND 0x7FFFFFFFFFFFFFFF"

datatype compare_task =
    CompareValue property_value property_value
  | CompareElement element_property element_property
  | CompareProperties properties properties usize
  | CompareValues "property_value list" "property_value list" usize
  | CompareEntries "property_entry list" "property_entry list" usize
  | CompareExtensions "opaque_value list" "opaque_value list" usize

text \<open>
  The match on two values: \<open>None\<close> is \<open>return false\<close>, otherwise the tasks that are pushed. The head of a
  task list is the end of the vector.
\<close>

definition compare_values :: "property_value \<Rightarrow> property_value \<Rightarrow> compare_task list option" where
  "compare_values l r =
     (case l of
        PNull \<Rightarrow> (case r of PNull \<Rightarrow> Some [] | _ \<Rightarrow> None)
      | PBoolean a \<Rightarrow> (case r of PBoolean b \<Rightarrow> if a \<noteq> b then None else Some [] | _ \<Rightarrow> None)
      | PInteger a \<Rightarrow> (case r of PInteger b \<Rightarrow> if a \<noteq> b then None else Some [] | _ \<Rightarrow> None)
      | PLong a \<Rightarrow> (case r of PLong b \<Rightarrow> if a \<noteq> b then None else Some [] | _ \<Rightarrow> None)
      | PString a \<Rightarrow> (case r of PString b \<Rightarrow> if a \<noteq> b then None else Some [] | _ \<Rightarrow> None)
      | POpaque a \<Rightarrow> (case r of POpaque b \<Rightarrow> if a \<noteq> b then None else Some [] | _ \<Rightarrow> None)
      | PFloat a \<Rightarrow>
          (case r of PFloat b \<Rightarrow> if \<not> (is_nan32 a \<and> is_nan32 b \<or> a = b) then None else Some [] | _ \<Rightarrow> None)
      | PDouble a \<Rightarrow>
          (case r of PDouble b \<Rightarrow> if \<not> (is_nan64 a \<and> is_nan64 b \<or> a = b) then None else Some [] | _ \<Rightarrow> None)
      | PCollection xs \<Rightarrow>
          (case r of PCollection ys \<Rightarrow> if length xs \<noteq> length ys then None else Some [CompareValues xs ys 0] | _ \<Rightarrow> None)
      | PNamedCollection xs \<Rightarrow>
          (case r of PNamedCollection ys \<Rightarrow> if length xs \<noteq> length ys then None else Some [CompareEntries xs ys 0]
           | _ \<Rightarrow> None)
      | PMap xs \<Rightarrow>
          (case r of PMap ys \<Rightarrow> if length xs \<noteq> length ys then None else Some [CompareEntries xs ys 0] | _ \<Rightarrow> None)
      | PObject a \<Rightarrow> (case r of PObject b \<Rightarrow> if a \<noteq> b then None else Some [] | _ \<Rightarrow> None)
      | PElement a \<Rightarrow> (case r of PElement b \<Rightarrow> Some [CompareElement a b] | _ \<Rightarrow> None))"

definition compare_entries_at ::
  "property_entry list \<Rightarrow> property_entry list \<Rightarrow> usize \<Rightarrow> (usize \<Rightarrow> compare_task) \<Rightarrow> compare_task list option" where
  "compare_entries_at ls rs i again =
     (if length ls \<noteq> length rs then None
      else if i < length ls then
        (if pe_name (ls ! i) \<noteq> pe_name (rs ! i) then None
         else Some [CompareValue (pe_value (ls ! i)) (pe_value (rs ! i)), again (saturating_add usize_max i 1)])
      else Some [])"

fun compare_step :: "compare_task \<Rightarrow> compare_task list option" where
  "compare_step (CompareValue l r) = compare_values l r"
| "compare_step (CompareElement l r) =
     (if ep_name l \<noteq> ep_name r \<or> ep_class_name l \<noteq> ep_class_name r then None
      else if length (ep_opaque_extensions l) \<noteq> length (ep_opaque_extensions r) then None
      else Some [CompareProperties (ep_properties l) (ep_properties r) 0,
                 CompareExtensions (ep_opaque_extensions l) (ep_opaque_extensions r) 0])"
| "compare_step (CompareProperties l r i) =
     compare_entries_at (ps_entries l) (ps_entries r) i (CompareProperties l r)"
| "compare_step (CompareValues ls rs i) =
     (if length ls \<noteq> length rs then None
      else if i < length ls then
        Some [CompareValue (ls ! i) (rs ! i), CompareValues ls rs (saturating_add usize_max i 1)]
      else Some [])"
| "compare_step (CompareEntries ls rs i) = compare_entries_at ls rs i (CompareEntries ls rs)"
| "compare_step (CompareExtensions ls rs i) =
     (if length ls \<noteq> length rs then None
      else if i < length ls then
        (if ls ! i \<noteq> rs ! i then None else Some [CompareExtensions ls rs (saturating_add usize_max i 1)])
      else Some [])"

definition compare_pass :: "compare_task list \<Rightarrow> (compare_task list, bool) pass" where
  "compare_pass tasks =
     (case tasks of
        [] \<Rightarrow> Break True
      | task # rest \<Rightarrow> (case compare_step task of None \<Rightarrow> Break False | Some pushed \<Rightarrow> Again (pushed @ rest)))"

definition semantic_eq_tasks :: "compare_task list \<Rightarrow> bool option" where
  "semantic_eq_tasks tasks = iterate compare_pass tasks"

definition value_semantic_eq :: "property_value \<Rightarrow> property_value \<Rightarrow> bool option" where
  "value_semantic_eq l r = semantic_eq_tasks [CompareValue l r]"

definition element_property_semantic_eq :: "element_property \<Rightarrow> element_property \<Rightarrow> bool option" where
  "element_property_semantic_eq l r = semantic_eq_tasks [CompareElement l r]"

definition properties_semantic_eq :: "properties \<Rightarrow> properties \<Rightarrow> bool option" where
  "properties_semantic_eq l r = semantic_eq_tasks [CompareProperties l r 0]"

section \<open>Canonical forms\<close>

definition canon32 :: "32 word \<Rightarrow> 32 word" where
  "canon32 w = (if is_nan32 w then 0x7FC00000 else w)"

definition canon64 :: "64 word \<Rightarrow> 64 word" where
  "canon64 w = (if is_nan64 w then 0x7FF8000000000000 else w)"

fun canon :: "property_value \<Rightarrow> property_value"
  and canon_entry :: "property_entry \<Rightarrow> property_entry"
  and canon_element :: "element_property \<Rightarrow> element_property"
  and canon_properties :: "properties \<Rightarrow> properties" where
  "canon (PFloat w) = PFloat (canon32 w)"
| "canon (PDouble w) = PDouble (canon64 w)"
| "canon (PCollection xs) = PCollection (map canon xs)"
| "canon (PNamedCollection es) = PNamedCollection (map canon_entry es)"
| "canon (PMap es) = PMap (map canon_entry es)"
| "canon (PElement e) = PElement (canon_element e)"
| "canon PNull = PNull"
| "canon (PString s) = PString s"
| "canon (PBoolean b) = PBoolean b"
| "canon (PInteger w) = PInteger w"
| "canon (PLong w) = PLong w"
| "canon (PObject ob) = PObject ob"
| "canon (POpaque ov) = POpaque ov"
| "canon_entry (PropertyEntry n v) = PropertyEntry n (canon v)"
| "canon_element (ElementProperty n c ps xs) = ElementProperty n c (canon_properties ps) xs"
| "canon_properties (Properties es) = Properties (map canon_entry es)"

text \<open>Every vector has at most \<open>usize::MAX\<close> entries.\<close>

fun value_sized :: "property_value \<Rightarrow> bool"
  and entry_sized :: "property_entry \<Rightarrow> bool"
  and element_sized :: "element_property \<Rightarrow> bool"
  and properties_sized :: "properties \<Rightarrow> bool" where
  "value_sized (PCollection xs) \<longleftrightarrow> length xs \<le> usize_max \<and> (\<forall>x \<in> set xs. value_sized x)"
| "value_sized (PNamedCollection es) \<longleftrightarrow> length es \<le> usize_max \<and> (\<forall>e \<in> set es. entry_sized e)"
| "value_sized (PMap es) \<longleftrightarrow> length es \<le> usize_max \<and> (\<forall>e \<in> set es. entry_sized e)"
| "value_sized (PElement e) \<longleftrightarrow> element_sized e"
| "value_sized _ \<longleftrightarrow> True"
| "entry_sized (PropertyEntry n v) \<longleftrightarrow> value_sized v"
| "element_sized (ElementProperty n c ps xs) \<longleftrightarrow> properties_sized ps \<and> length xs \<le> usize_max"
| "properties_sized (Properties es) \<longleftrightarrow> length es \<le> usize_max \<and> (\<forall>e \<in> set es. entry_sized e)"

lemma canon32_eq: "canon32 a = canon32 b \<longleftrightarrow> is_nan32 a \<and> is_nan32 b \<or> a = b"
proof -
  have "is_nan32 0x7FC00000" by (simp add: is_nan32_def)
  then show ?thesis by (auto simp: canon32_def)
qed

lemma canon64_eq: "canon64 a = canon64 b \<longleftrightarrow> is_nan64 a \<and> is_nan64 b \<or> a = b"
proof -
  have "is_nan64 0x7FF8000000000000" by (simp add: is_nan64_def)
  then show ?thesis by (auto simp: canon64_def)
qed

lemma canon_entry_eq: "canon_entry e = canon_entry f \<longleftrightarrow> pe_name e = pe_name f \<and> canon (pe_value e) = canon (pe_value f)"
  by (cases e; cases f) simp

lemma map_eq_nth: "map f xs = map g ys \<longleftrightarrow> length xs = length ys \<and> (\<forall>i < length xs. f (xs ! i) = g (ys ! i))"
  by (auto simp: list_eq_iff_nth_eq)

section \<open>The task loop\<close>

abbreviation after :: "bool \<Rightarrow> compare_task list \<Rightarrow> bool option" where
  "after b rest \<equiv> (if b then semantic_eq_tasks rest else Some False)"

text \<open>What a task decides: popping it goes on with the rest, or ends with \<open>false\<close>.\<close>

definition decides :: "compare_task \<Rightarrow> bool \<Rightarrow> bool" where
  "decides task b \<longleftrightarrow> (\<forall>rest. semantic_eq_tasks (task # rest) = after b rest)"

lemma step_None: "compare_step task = None \<Longrightarrow> decides task False"
  by (simp add: decides_def semantic_eq_tasks_def compare_pass_def)

lemma step_Some:
  assumes "compare_step task = Some pushed"
  shows "semantic_eq_tasks (task # rest) = semantic_eq_tasks (pushed @ rest)"
proof -
  have "compare_pass (task # rest) = Again (pushed @ rest)" using assms by (simp add: compare_pass_def)
  then show ?thesis unfolding semantic_eq_tasks_def by (rule iterate_Again)
qed

lemma decides_Nil: "compare_step task = Some [] \<Longrightarrow> decides task True"
  by (simp add: decides_def step_Some)

lemma decides_one: "compare_step task = Some [a] \<Longrightarrow> decides a b \<Longrightarrow> decides task b"
  by (simp add: decides_def step_Some)

lemma decides_two: "compare_step task = Some [a, c] \<Longrightarrow> decides a b \<Longrightarrow> decides c d \<Longrightarrow> decides task (b \<and> d)"
  by (simp add: decides_def step_Some)

text \<open>A task with an index goes through its collection.\<close>

lemma decides_walk:
  assumes stop: "decides (T n) True"
    and go: "\<And>i b. i < n \<Longrightarrow> decides (T (Suc i)) b \<Longrightarrow> decides (T i) (P i \<and> b)"
    and "i \<le> n"
  shows "decides (T i) (\<forall>j. i \<le> j \<and> j < n \<longrightarrow> P j)"
  using \<open>i \<le> n\<close>
proof (induction "n - i" arbitrary: i)
  case 0
  then have "i = n" by simp
  moreover have "(\<forall>j. n \<le> j \<and> j < n \<longrightarrow> P j) = True" by auto
  ultimately show ?case using stop by simp
next
  case (Suc k)
  then have "decides (T (Suc i)) (\<forall>j. Suc i \<le> j \<and> j < n \<longrightarrow> P j)" by simp
  then have "decides (T i) (P i \<and> (\<forall>j. Suc i \<le> j \<and> j < n \<longrightarrow> P j))" using go Suc by simp
  moreover have "i < n" using Suc by simp
  then have "(P i \<and> (\<forall>j. Suc i \<le> j \<and> j < n \<longrightarrow> P j)) = (\<forall>j. i \<le> j \<and> j < n \<longrightarrow> P j)"
    by (metis Suc_leD Suc_leI le_neq_implies_less le_refl)
  ultimately show ?case by simp
qed

lemma sat_Suc: "i < n \<Longrightarrow> n \<le> usize_max \<Longrightarrow> saturating_add usize_max i 1 = Suc i"
  by (simp add: saturating_add_def)

lemma decides_values:
  assumes "\<And>x y. x \<in> set xs \<Longrightarrow> decides (CompareValue x y) (canon x = canon y)" and "length xs \<le> usize_max"
    and "length xs = length ys"
  shows "decides (CompareValues xs ys 0) (map canon xs = map canon ys)"
proof -
  have "decides (CompareValues xs ys 0) (\<forall>j. 0 \<le> j \<and> j < length xs \<longrightarrow> canon (xs ! j) = canon (ys ! j))"
  proof (rule decides_walk)
    fix i b assume i: "i < length xs" and b: "decides (CompareValues xs ys (Suc i)) b"
    have "compare_step (CompareValues xs ys i) = Some [CompareValue (xs ! i) (ys ! i), CompareValues xs ys (Suc i)]"
      using assms(2,3) i sat_Suc [of i "length xs"] by simp
    then show "decides (CompareValues xs ys i) (canon (xs ! i) = canon (ys ! i) \<and> b)"
      using assms(1) [OF nth_mem [OF i]] b by (rule decides_two)
  qed (use assms in \<open>simp_all add: decides_Nil\<close>)
  then show ?thesis using assms(3) by (simp add: map_eq_nth)
qed

lemma decides_extensions:
  assumes "length xs \<le> usize_max" and "length xs = length ys"
  shows "decides (CompareExtensions xs ys 0) (xs = ys)"
proof -
  have "decides (CompareExtensions xs ys 0) (\<forall>j. 0 \<le> j \<and> j < length xs \<longrightarrow> xs ! j = ys ! j)"
  proof (rule decides_walk)
    fix i b assume i: "i < length xs" and b: "decides (CompareExtensions xs ys (Suc i)) b"
    then show "decides (CompareExtensions xs ys i) (xs ! i = ys ! i \<and> b)"
      using assms sat_Suc [of i "length xs"] by (cases "xs ! i = ys ! i") (simp_all add: step_None decides_one)
  qed (use assms in \<open>simp_all add: decides_Nil\<close>)
  then show ?thesis using assms(2) by (simp add: list_eq_iff_nth_eq)
qed

lemma decides_entries:
  assumes "\<And>x y. x \<in> set xs \<Longrightarrow> decides (CompareValue (pe_value x) y) (canon (pe_value x) = canon y)"
    and "length xs \<le> usize_max" and "length xs = length ys"
    and "\<And>i. compare_step (T i) = compare_entries_at xs ys i T"
  shows "decides (T 0) (map canon_entry xs = map canon_entry ys)"
proof -
  have "decides (T 0) (\<forall>j. 0 \<le> j \<and> j < length xs \<longrightarrow> canon_entry (xs ! j) = canon_entry (ys ! j))"
  proof (rule decides_walk)
    fix i b assume i: "i < length xs" and b: "decides (T (Suc i)) b"
    show "decides (T i) (canon_entry (xs ! i) = canon_entry (ys ! i) \<and> b)"
    proof (cases "pe_name (xs ! i) = pe_name (ys ! i)")
      case True
      then have "compare_step (T i) = Some [CompareValue (pe_value (xs ! i)) (pe_value (ys ! i)), T (Suc i)]"
        using assms i sat_Suc [of i "length xs"] by (simp add: compare_entries_at_def)
      then show ?thesis using decides_two [OF _ assms(1) [of "xs ! i"] b] i True by (simp add: canon_entry_eq)
    next
      case False
      then have "compare_step (T i) = None" using assms i by (simp add: compare_entries_at_def)
      then show ?thesis using step_None [of "T i"] False by (simp add: canon_entry_eq)
    qed
  qed (use assms in \<open>simp_all add: decides_Nil compare_entries_at_def\<close>)
  then show ?thesis using assms(3) by (simp add: map_eq_nth)
qed

text \<open>A leaf value: no task is pushed, and the match is equality of canonical forms.\<close>

lemma decides_leaf:
  assumes "compare_values v w = (if canon v = canon w then Some [] else None)"
  shows "decides (CompareValue v w) (canon v = canon w)"
  using assms by (cases "canon v = canon w") (simp_all add: step_None decides_Nil)

lemma decides_scalar:
  assumes "kind v \<in> {KNull, KString, KBoolean, KInteger, KLong, KObject, KOpaque}"
  shows "decides (CompareValue v w) (canon v = canon w)"
  by (rule decides_leaf) (use assms in \<open>cases v; cases w; simp add: compare_values_def\<close>)

lemma decides_nested:
  assumes "compare_values v w = (if length xs = length ys then Some [task] else None)"
    and "length xs = length ys \<Longrightarrow> decides task (map f xs = map f ys)"
    and "canon v = canon w \<longleftrightarrow> map f xs = map f ys"
  shows "decides (CompareValue v w) (canon v = canon w)"
proof (cases "length xs = length ys")
  case False
  then have "map f xs \<noteq> map f ys" using map_eq_imp_length_eq by blast
  then show ?thesis using assms(1,3) False step_None [of "CompareValue v w"] by simp
qed (use assms in \<open>simp add: decides_one\<close>)

lemma compare_tasks:
  "value_sized v \<Longrightarrow> decides (CompareValue v w) (canon v = canon w)"
  "entry_sized e \<Longrightarrow> decides (CompareValue (pe_value e) w) (canon (pe_value e) = canon w)"
  "element_sized el \<Longrightarrow> decides (CompareElement el el') (canon_element el = canon_element el')"
  "properties_sized ps \<Longrightarrow> decides (CompareProperties ps ps' 0) (canon_properties ps = canon_properties ps')"
proof (induction v and e and el and ps arbitrary: w and w and el' and ps'
    rule: property_value.induct property_entry.induct element_property.induct properties.induct)
  case (PFloat x)
  then show ?case by (intro decides_leaf) (cases w; simp add: compare_values_def canon32_eq)
next
  case (PDouble x)
  then show ?case by (intro decides_leaf) (cases w; simp add: compare_values_def canon64_eq)
next
  case (PCollection xs)
  show ?case
  proof (cases "\<exists>ys. w = PCollection ys")
    case True
    then obtain ys where w: "w = PCollection ys" by blast
    have "decides (CompareValues xs ys 0) (map canon xs = map canon ys)" if "length xs = length ys"
      by (rule decides_values) (use PCollection that in auto)
    then show ?thesis unfolding w
      by (rule decides_nested [of _ _ xs ys, rotated]) (simp_all add: compare_values_def)
  qed (intro decides_leaf, cases w; simp add: compare_values_def)
next
  case (PNamedCollection xs)
  show ?case
  proof (cases "\<exists>ys. w = PNamedCollection ys")
    case True
    then obtain ys where w: "w = PNamedCollection ys" by blast
    have "decides (CompareEntries xs ys 0) (map canon_entry xs = map canon_entry ys)" if "length xs = length ys"
      by (rule decides_entries [where T = "CompareEntries xs ys"]) (use PNamedCollection that in auto)
    then show ?thesis unfolding w
      by (rule decides_nested [of _ _ xs ys, rotated]) (simp_all add: compare_values_def)
  qed (intro decides_leaf, cases w; simp add: compare_values_def)
next
  case (PMap xs)
  show ?case
  proof (cases "\<exists>ys. w = PMap ys")
    case True
    then obtain ys where w: "w = PMap ys" by blast
    have "decides (CompareEntries xs ys 0) (map canon_entry xs = map canon_entry ys)" if "length xs = length ys"
      by (rule decides_entries [where T = "CompareEntries xs ys"]) (use PMap that in auto)
    then show ?thesis unfolding w
      by (rule decides_nested [of _ _ xs ys, rotated]) (simp_all add: compare_values_def)
  qed (intro decides_leaf, cases w; simp add: compare_values_def)
next
  case (PElement el)
  show ?case
  proof (cases "\<exists>el'. w = PElement el'")
    case True
    then obtain el' where "w = PElement el'" by blast
    then show ?thesis using PElement by (simp add: compare_values_def decides_one)
  qed (intro decides_leaf, cases w; simp add: compare_values_def)
next
  case (ElementProperty n c ps xs)
  obtain n' c' ps' xs' where el': "el' = ElementProperty n' c' ps' xs'" by (cases el')
  show ?case
  proof (cases "n = n' \<and> c = c' \<and> length xs = length xs'")
    case True
    then have "decides (CompareElement (ElementProperty n c ps xs) el') (canon_properties ps = canon_properties ps' \<and> xs = xs')"
      using ElementProperty el' decides_extensions [of xs xs'] by (auto intro!: decides_two)
    then show ?thesis using True el' by simp
  next
    case False
    then have "compare_step (CompareElement (ElementProperty n c ps xs) el') = None" using el' by auto
    moreover have "canon_element (ElementProperty n c ps xs) \<noteq> canon_element el'" using False el' by auto
    ultimately show ?thesis using step_None by simp
  qed
next
  case (Properties xs)
  obtain ys where ps': "ps' = Properties ys" by (cases ps')
  show ?case
  proof (cases "length xs = length ys")
    case True
    have "decides (CompareProperties (Properties xs) ps' 0) (map canon_entry xs = map canon_entry ys)"
      by (rule decides_entries [where T = "CompareProperties (Properties xs) ps'"]) (use Properties ps' True in auto)
    then show ?thesis using ps' by simp
  next
    case False
    then have "map canon_entry xs \<noteq> map canon_entry ys" using map_eq_imp_length_eq by blast
    then show ?thesis using step_None [of "CompareProperties (Properties xs) ps' 0"] False ps'
      by (simp add: compare_entries_at_def)
  qed
qed (simp_all only: decides_scalar kind.simps insert_iff simp_thms property_entry.sel entry_sized.simps)

lemma semantic_eq_end [simp]: "semantic_eq_tasks [] = Some True"
  by (simp add: semantic_eq_tasks_def compare_pass_def)

lemma properties_semantic_eq_canon:
  "properties_sized l \<Longrightarrow> properties_semantic_eq l r = Some (canon_properties l = canon_properties r)"
  using compare_tasks(4) [of l r] by (simp add: properties_semantic_eq_def decides_def)

section \<open>Properties\<close>

definition nan_example :: "32 word \<Rightarrow> property_value" where
  "nan_example w = PCollection [PFloat w, PElement (ElementProperty ''e'' None (Properties [PropertyEntry ''n'' PNull]) [])]"

text \<open>C13: Semantic equality is equality of canonical forms. On values whose vectors fit in memory the
  comparison loop ends, and it answers whether the two values become equal when every NaN is replaced
  by one fixed NaN. The answer is therefore an equivalence relation that identifies all NaN payloads
  and keeps every other distinction: names, order, absent and empty fields, and the sign of zero.\<close>

theorem semantic_eq_is_canonical_equality:
  assumes "value_sized l"
  shows "value_semantic_eq l r = Some (canon l = canon r)"
  using compare_tasks(1) [OF assms, of r] by (simp add: value_semantic_eq_def decides_def)

theorem semantic_eq_is_canonical_equality_witness:
  "value_semantic_eq (nan_example 0x7FC00001) (nan_example 0xFFFFFFFF) = Some True \<and>
   value_semantic_eq (PFloat 0) (PFloat 0x80000000) = Some False"
proof -
  have "value_sized (nan_example w)" for w by (simp add: nan_example_def usize_max_def)
  moreover have "canon32 0x7FC00001 = 0x7FC00000" "canon32 0xFFFFFFFF = 0x7FC00000" "canon32 0 = 0"
    "canon32 0x80000000 = 0x80000000"
    by (simp_all add: canon32_def is_nan32_def)
  ultimately show ?thesis
    using semantic_eq_is_canonical_equality [of "nan_example 0x7FC00001" "nan_example 0xFFFFFFFF"]
      semantic_eq_is_canonical_equality [of "PFloat 0" "PFloat 0x80000000"]
    by (simp add: nan_example_def)
qed

end
