(* ===== verification/Property_Validation.thy ===== *)
theory Property_Validation
  imports Property_Equality
begin

text \<open>
  Bounded validation of property values (\<open>validate_property_tasks\<close> of
  \<open>crates/model/src/property.rs\<close>): a stack of tasks that charges every name, value and payload to the
  accounting state and checks nesting and names on the way. The reference is the list of charges of a
  value in recursive order; the loop runs exactly these, and the outcome is decided by their totals.
\<close>

section \<open>Validation tasks\<close>

datatype validation_task =
    TaskValue property_value usize
  | TaskProperties properties usize usize "string set"
  | TaskValues "property_value list" usize usize
  | TaskEntries "property_entry list" usize usize
  | TaskExtensions "opaque_value list" usize

fun validate_attributes :: "object_property_attribute list \<Rightarrow> unit accounting" where
  "validate_attributes [] = return_ok ()"
| "validate_attributes (a # as) =
     and_then (add_string_bytes (length (oa_name a))) (\<lambda>_.
     and_then (add_string_bytes (length (oa_value a))) (\<lambda>_.
     validate_attributes as))"

definition add_optional_text :: "string option \<Rightarrow> unit accounting" where
  "add_optional_text class_name = (case class_name of Some c \<Rightarrow> add_string_bytes (length c) | None \<Rightarrow> return_ok ())"

definition validate_object_property :: "object_property \<Rightarrow> unit accounting" where
  "validate_object_property ob =
     and_then (add_optional_text (op_class_name ob)) (\<lambda>_.
     and_then (add_opaque_bytes (length (op_raw ob))) (\<lambda>_.
     validate_attributes (op_attributes ob)))"

definition validate_element_value :: "element_property \<Rightarrow> usize \<Rightarrow> validation_task list accounting" where
  "validate_element_value e d =
     and_then (add_string_bytes (length (ep_name e))) (\<lambda>_.
     and_then (add_optional_text (ep_class_name e)) (\<lambda>_.
     return_ok (TaskProperties (ep_properties e) (saturating_add usize_max d 1) 0 {} #
       (if ep_opaque_extensions e \<noteq> [] then [TaskExtensions (ep_opaque_extensions e) 0] else []))))"

definition check_depth :: "usize \<Rightarrow> unit accounting" where
  "check_depth d = reading (\<lambda>st.
     if max_property_depth (vs_limits st) < d then
       return_err (LimitExceeded PropertyDepth (max_property_depth (vs_limits st)) d)
     else return_ok ())"

definition opaque_charge :: "opaque_value \<Rightarrow> unit accounting" where
  "opaque_charge v =
     and_then (add_string_bytes (length (ov_type_name v))) (\<lambda>_. add_opaque_bytes (length (ov_raw v)))"

text \<open>The tasks that a value pushes, end of the vector first.\<close>

definition validate_value :: "property_value \<Rightarrow> usize \<Rightarrow> validation_task list accounting" where
  "validate_value v d =
     and_then (check_depth d) (\<lambda>_.
     case v of
       PString s \<Rightarrow> and_then (add_string_bytes (length s)) (\<lambda>_. return_ok [])
     | PCollection vs \<Rightarrow> return_ok (if vs \<noteq> [] then [TaskValues vs (saturating_add usize_max d 1) 0] else [])
     | PNamedCollection es \<Rightarrow> return_ok (if es \<noteq> [] then [TaskEntries es (saturating_add usize_max d 1) 0] else [])
     | PMap es \<Rightarrow> return_ok (if es \<noteq> [] then [TaskEntries es (saturating_add usize_max d 1) 0] else [])
     | PObject ob \<Rightarrow> and_then (validate_object_property ob) (\<lambda>_. return_ok [])
     | PElement e \<Rightarrow> validate_element_value e d
     | POpaque ov \<Rightarrow> and_then (opaque_charge ov) (\<lambda>_. return_ok [])
     | _ \<Rightarrow> return_ok [])"

fun validate_task :: "validation_task \<Rightarrow> validation_task list accounting" where
  "validate_task (TaskValue v d) = validate_value v d"
| "validate_task (TaskProperties ps d i names) =
     (if i < length (ps_entries ps) then
        (let e = ps_entries ps ! i
         in if pe_name e \<in> names then return_err (DuplicatePropertyName (pe_name e))
            else and_then add_property (\<lambda>_.
              and_then (add_string_bytes (length (pe_name e))) (\<lambda>_.
              return_ok [TaskValue (pe_value e) d,
                         TaskProperties ps d (saturating_add usize_max i 1) (insert (pe_name e) names)])))
      else return_ok [])"
| "validate_task (TaskValues vs d i) =
     (if i < length vs then
        and_then add_property (\<lambda>_.
        return_ok [TaskValue (vs ! i) d, TaskValues vs d (saturating_add usize_max i 1)])
      else return_ok [])"
| "validate_task (TaskEntries es d i) =
     (if i < length es then
        and_then add_property (\<lambda>_.
        and_then (add_string_bytes (length (pe_name (es ! i)))) (\<lambda>_.
        return_ok [TaskValue (pe_value (es ! i)) d, TaskEntries es d (saturating_add usize_max i 1)]))
      else return_ok [])"
| "validate_task (TaskExtensions xs i) =
     (if i < length xs then
        and_then (opaque_charge (xs ! i)) (\<lambda>_. return_ok [TaskExtensions xs (saturating_add usize_max i 1)])
      else return_ok [])"

type_synonym accounted = "(model_validation_error, unit) result \<times> validation_state"

definition validate_pass ::
  "validation_task list \<times> validation_state \<Rightarrow> (validation_task list \<times> validation_state, accounted) pass" where
  "validate_pass s =
     (case s of
        ([], st) \<Rightarrow> Break (Ok (), st)
      | (task # rest, st) \<Rightarrow>
          (case validate_task task st of
             (Err e, st') \<Rightarrow> Break (Err e, st')
           | (Ok pushed, st') \<Rightarrow> Again (pushed @ rest, st')))"

definition validate_property_tasks :: "validation_task list \<Rightarrow> validation_state \<Rightarrow> accounted option" where
  "validate_property_tasks tasks st = iterate validate_pass (tasks, st)"

definition properties_validate_into :: "properties \<Rightarrow> usize \<Rightarrow> validation_state \<Rightarrow> accounted option" where
  "properties_validate_into ps d st = validate_property_tasks [TaskProperties ps d 0 {}] st"

definition properties_validate_with_limits :: "properties \<Rightarrow> validation_limits \<Rightarrow> (model_validation_error, unit) result option" where
  "properties_validate_with_limits ps l = map_option fst (properties_validate_into ps 0 (validation_state_new l))"

text \<open>A charge followed by the task loop: \<open>?\<close> in front of \<open>validate_property_tasks\<close>.\<close>

definition then_tasks ::
  "validation_task list accounting \<Rightarrow> validation_limits \<Rightarrow> (model_validation_error, unit) result option" where
  "then_tasks first l =
     (case first (validation_state_new l) of
        (Err e, _) \<Rightarrow> Some (Err e)
      | (Ok tasks, st) \<Rightarrow> map_option fst (validate_property_tasks tasks st))"

definition value_validate_with_limits :: "property_value \<Rightarrow> validation_limits \<Rightarrow> (model_validation_error, unit) result option" where
  "value_validate_with_limits v = then_tasks (and_then add_property (\<lambda>_. return_ok [TaskValue v 0]))"

definition entry_validate_with_limits :: "property_entry \<Rightarrow> validation_limits \<Rightarrow> (model_validation_error, unit) result option" where
  "entry_validate_with_limits e =
     then_tasks (and_then add_property (\<lambda>_. and_then (add_string_bytes (length (pe_name e))) (\<lambda>_.
       return_ok [TaskValue (pe_value e) 0])))"

definition element_property_validate_with_limits ::
  "element_property \<Rightarrow> validation_limits \<Rightarrow> (model_validation_error, unit) result option" where
  "element_property_validate_with_limits e = then_tasks (and_then add_property (\<lambda>_. validate_element_value e 0))"

definition object_validate_with_limits :: "object_property \<Rightarrow> validation_limits \<Rightarrow> (model_validation_error, unit) result" where
  "object_validate_with_limits ob l =
     fst (and_then add_property (\<lambda>_. validate_object_property ob) (validation_state_new l))"

section \<open>Charges\<close>

datatype charge =
    AtDepth nat
  | OneProperty
  | TextBytes nat
  | PayloadBytes nat
  | Requires bool model_validation_error

fun make_charge :: "charge \<Rightarrow> unit accounting" where
  "make_charge (AtDepth d) = check_depth d"
| "make_charge OneProperty = add_property"
| "make_charge (TextBytes n) = add_string_bytes n"
| "make_charge (PayloadBytes n) = add_opaque_bytes n"
| "make_charge (Requires b e) = (if b then return_ok () else return_err e)"

fun account :: "charge list \<Rightarrow> unit accounting" where
  "account [] = return_ok ()"
| "account (c # cs) = and_then (make_charge c) (\<lambda>_. account cs)"

definition class_charges :: "string option \<Rightarrow> charge list" where
  "class_charges c = (case c of None \<Rightarrow> [] | Some s \<Rightarrow> [TextBytes (length s)])"

definition object_charges :: "object_property \<Rightarrow> charge list" where
  "object_charges ob = class_charges (op_class_name ob) @ PayloadBytes (length (op_raw ob)) #
     concat (map (\<lambda>a. [TextBytes (length (oa_name a)), TextBytes (length (oa_value a))]) (op_attributes ob))"

definition opaque_charges :: "opaque_value \<Rightarrow> charge list" where
  "opaque_charges ov = [TextBytes (length (ov_type_name ov)), PayloadBytes (length (ov_raw ov))]"

text \<open>The entries of a property collection, each guarded by the names before it.\<close>

definition fresh_name :: "string list \<Rightarrow> nat \<Rightarrow> charge" where
  "fresh_name names i = Requires (names ! i \<notin> set (take i names)) (DuplicatePropertyName (names ! i))"

definition guard_names :: "string list \<Rightarrow> charge list list \<Rightarrow> charge list" where
  "guard_names names css = concat (map (\<lambda>i. fresh_name names i # css ! i) [0..<length css])"

abbreviation deeper :: "usize \<Rightarrow> usize" where
  "deeper d \<equiv> saturating_add usize_max d 1"

fun value_charges :: "usize \<Rightarrow> property_value \<Rightarrow> charge list"
  and entry_charges :: "usize \<Rightarrow> property_entry \<Rightarrow> charge list"
  and element_charges :: "usize \<Rightarrow> element_property \<Rightarrow> charge list"
  and properties_charges :: "usize \<Rightarrow> properties \<Rightarrow> charge list" where
  "value_charges d (PString s) = [AtDepth d, TextBytes (length s)]"
| "value_charges d (PCollection vs) = AtDepth d # concat (map (\<lambda>v. OneProperty # value_charges (deeper d) v) vs)"
| "value_charges d (PNamedCollection es) = AtDepth d # concat (map (entry_charges (deeper d)) es)"
| "value_charges d (PMap es) = AtDepth d # concat (map (entry_charges (deeper d)) es)"
| "value_charges d (PObject ob) = AtDepth d # object_charges ob"
| "value_charges d (PElement e) = AtDepth d # element_charges d e"
| "value_charges d (POpaque ov) = AtDepth d # opaque_charges ov"
| "value_charges d PNull = [AtDepth d]"
| "value_charges d (PBoolean _) = [AtDepth d]"
| "value_charges d (PInteger _) = [AtDepth d]"
| "value_charges d (PLong _) = [AtDepth d]"
| "value_charges d (PFloat _) = [AtDepth d]"
| "value_charges d (PDouble _) = [AtDepth d]"
| "entry_charges d (PropertyEntry n v) = OneProperty # TextBytes (length n) # value_charges d v"
| "element_charges d (ElementProperty n c ps xs) =
     TextBytes (length n) # class_charges c @ properties_charges (deeper d) ps @ concat (map opaque_charges xs)"
| "properties_charges d (Properties es) = guard_names (map pe_name es) (map (entry_charges d) es)"

section \<open>The loop runs the charges\<close>

lemma and_then_assoc: "and_then (and_then m f) g = and_then m (\<lambda>x. and_then (f x) g)"
  by (auto simp: fun_eq_iff and_then_def split: prod.splits sum.splits)

lemma and_then_return [simp]: "and_then (return_ok x) f = f x"
  by (simp add: fun_eq_iff and_then_def)

lemma and_then_return_err [simp]: "and_then (return_err e) f = return_err e"
  by (simp add: fun_eq_iff and_then_def return_err_def)

lemma and_then_unit [simp]: "and_then m return_ok = m"
  by (auto simp: fun_eq_iff and_then_def split: prod.splits sum.splits)

lemma account_append: "account (xs @ ys) = and_then (account xs) (\<lambda>_. account ys)"
  by (induction xs) (simp_all add: and_then_assoc)

definition performs :: "validation_task \<Rightarrow> charge list \<Rightarrow> bool" where
  "performs task cs \<longleftrightarrow> (\<forall>rest st. validate_property_tasks (task # rest) st =
     (case account cs st of
        (Err e, st') \<Rightarrow> Some (Err e, st')
      | (Ok _, st') \<Rightarrow> validate_property_tasks rest st'))"

fun performs_all :: "validation_task list \<Rightarrow> charge list list \<Rightarrow> bool" where
  "performs_all [] css \<longleftrightarrow> css = []"
| "performs_all (task # tasks) [] \<longleftrightarrow> False"
| "performs_all (task # tasks) (cs # css) \<longleftrightarrow> performs task cs \<and> performs_all tasks css"

lemma run_all:
  assumes "performs_all tasks css"
  shows "validate_property_tasks (tasks @ rest) st =
    (case account (concat css) st of
       (Err e, st') \<Rightarrow> Some (Err e, st')
     | (Ok _, st') \<Rightarrow> validate_property_tasks rest st')"
  using assms
proof (induction tasks css arbitrary: st rule: performs_all.induct)
  case (3 task tasks cs css)
  then show ?case
    by (auto simp: performs_def account_append and_then_def split: prod.splits sum.splits)
qed simp_all

text \<open>A step that makes the charges \<open>cs\<close> and pushes tasks that perform theirs.\<close>

lemma performsI:
  assumes "validate_task task = and_then (account cs) (\<lambda>_. return_ok pushed)" and "performs_all pushed css"
  shows "performs task (cs @ concat css)"
  unfolding performs_def
proof (intro allI)
  fix rest st
  obtain r st1 where r: "account cs st = (r, st1)" by (cases "account cs st")
  show "validate_property_tasks (task # rest) st =
     (case account (cs @ concat css) st of
        (Err e, st') \<Rightarrow> Some (Err e, st')
      | (Ok _, st') \<Rightarrow> validate_property_tasks rest st')"
  proof (cases r)
    case (Inl e)
    then show ?thesis using r assms(1)
      by (simp add: account_append validate_property_tasks_def validate_pass_def)
  next
    case (Inr u)
    then have "validate_pass (task # rest, st) = Again (pushed @ rest, st1)"
      using r assms(1) by (simp add: validate_pass_def)
    then have "validate_property_tasks (task # rest) st = validate_property_tasks (pushed @ rest) st1"
      unfolding validate_property_tasks_def by (rule iterate_Again)
    then show ?thesis using r Inr run_all [OF assms(2), of rest st1] by (simp add: account_append)
  qed
qed

lemma performs_stop: "validate_task task = return_ok [] \<Longrightarrow> performs task []"
  using performsI [of task "[]" "[]" "[]"] by (simp add: return_ok_def and_then_def)

lemma performs_walk:
  assumes "performs (T n) []" and "i \<le> n"
    and "\<And>i cs. i < n \<Longrightarrow> performs (T (Suc i)) cs \<Longrightarrow> performs (T i) (f i @ cs)"
  shows "performs (T i) (concat (map f [i..<n]))"
  using assms(2)
proof (induction "n - i" arbitrary: i)
  case 0
  then show ?case using assms(1) by simp
next
  case (Suc k)
  then have "performs (T i) (f i @ concat (map f [Suc i..<n]))" using assms(3) by simp
  moreover have "[i..<n] = i # [Suc i..<n]" using Suc by (simp add: upt_conv_Cons)
  ultimately show ?case by simp
qed

lemma map_nth_upt: "concat (map f xs) = concat (map (\<lambda>i. f (xs ! i)) [0..<length xs])"
  by (metis (no_types, lifting) map_map map_nth comp_apply map_eq_conv)

lemma performs_values:
  assumes "\<And>x. x \<in> set xs \<Longrightarrow> performs (TaskValue x d) (value_charges d x)" and "length xs \<le> usize_max"
  shows "performs (TaskValues xs d 0) (concat (map (\<lambda>v. OneProperty # value_charges d v) xs))"
  unfolding map_nth_upt [of _ xs]
proof (rule performs_walk)
  fix i cs assume i: "i < length xs" and cs: "performs (TaskValues xs d (Suc i)) cs"
  have "performs (TaskValues xs d i) ([OneProperty] @ concat [value_charges d (xs ! i), cs])"
    by (rule performsI [where pushed = "[TaskValue (xs ! i) d, TaskValues xs d (Suc i)]"])
      (use i cs assms sat_Suc [of i "length xs"] in simp_all)
  then show "performs (TaskValues xs d i) ((OneProperty # value_charges d (xs ! i)) @ cs)" by simp
qed (simp_all add: performs_stop)

lemma performs_entries:
  assumes "\<And>e. e \<in> set es \<Longrightarrow> performs (TaskValue (pe_value e) d) (value_charges d (pe_value e))"
    and "length es \<le> usize_max"
  shows "performs (TaskEntries es d 0) (concat (map (entry_charges d) es))"
  unfolding map_nth_upt [of _ es]
proof (rule performs_walk)
  fix i cs assume i: "i < length es" and cs: "performs (TaskEntries es d (Suc i)) cs"
  have "performs (TaskEntries es d i) ([OneProperty, TextBytes (length (pe_name (es ! i)))] @ concat [value_charges d (pe_value (es ! i)), cs])"
    by (rule performsI [where pushed = "[TaskValue (pe_value (es ! i)) d, TaskEntries es d (Suc i)]"])
      (use i cs assms sat_Suc [of i "length es"] in \<open>simp_all add: and_then_assoc\<close>)
  then show "performs (TaskEntries es d i) (entry_charges d (es ! i) @ cs)" by (cases "es ! i") simp
qed (simp_all add: performs_stop)

lemma performs_extensions:
  assumes "length xs \<le> usize_max"
  shows "performs (TaskExtensions xs 0) (concat (map opaque_charges xs))"
  unfolding map_nth_upt [of _ xs]
proof (rule performs_walk)
  fix i cs assume i: "i < length xs" and cs: "performs (TaskExtensions xs (Suc i)) cs"
  have "performs (TaskExtensions xs i) (opaque_charges (xs ! i) @ concat [cs])"
    by (rule performsI [where pushed = "[TaskExtensions xs (Suc i)]"])
      (use i cs assms sat_Suc [of i "length xs"] in \<open>simp_all add: and_then_assoc opaque_charges_def opaque_charge_def\<close>)
  then show "performs (TaskExtensions xs i) (opaque_charges (xs ! i) @ cs)" by simp
qed (simp_all add: performs_stop)

lemma performs_properties:
  assumes "\<And>e. e \<in> set es \<Longrightarrow> performs (TaskValue (pe_value e) d) (value_charges d (pe_value e))"
    and "length es \<le> usize_max"
  shows "performs (TaskProperties (Properties es) d 0 {}) (properties_charges d (Properties es))"
proof -
  let ?N = "map pe_name es"
  let ?T = "\<lambda>i. TaskProperties (Properties es) d i (set (take i ?N))"
  have "performs (?T 0) (concat (map (\<lambda>i. fresh_name ?N i # entry_charges d (es ! i)) [0..<length es]))"
  proof (rule performs_walk [where T = ?T])
    fix i cs assume i: "i < length es" and cs: "performs (?T (Suc i)) cs"
    have N: "take (Suc i) ?N = take i ?N @ [pe_name (es ! i)]" using i by (simp add: take_Suc_conv_app_nth)
    have "performs (?T i) ([fresh_name ?N i, OneProperty, TextBytes (length (pe_name (es ! i)))] @
        concat [value_charges d (pe_value (es ! i)), cs])"
      by (rule performsI [where pushed = "[TaskValue (pe_value (es ! i)) d, ?T (Suc i)]"])
        (use i cs assms sat_Suc [of i "length es"] N in \<open>simp_all add: and_then_assoc fresh_name_def Let_def\<close>)
    then show "performs (?T i) ((fresh_name ?N i # entry_charges d (es ! i)) @ cs)" by (cases "es ! i") simp
  qed (simp_all add: performs_stop)
  moreover have "properties_charges d (Properties es) =
      concat (map (\<lambda>i. fresh_name ?N i # entry_charges d (es ! i)) [0..<length es])"
    by (auto simp: guard_names_def intro!: arg_cong [where f = concat])
  ultimately show ?thesis by simp
qed

lemma account_attributes:
  "validate_attributes as = account (concat (map (\<lambda>a. [TextBytes (length (oa_name a)), TextBytes (length (oa_value a))]) as))"
  by (induction as) (simp_all add: and_then_assoc)

lemma account_class: "add_optional_text c = account (class_charges c)"
  by (cases c) (simp_all add: add_optional_text_def class_charges_def)

lemma account_object: "validate_object_property ob = account (object_charges ob)"
  by (simp add: validate_object_property_def object_charges_def account_append account_class account_attributes)

lemma account_opaque: "opaque_charge ov = account (opaque_charges ov)"
  by (simp add: opaque_charge_def opaque_charges_def)

lemmas account_eqs = account_class account_object account_opaque account_append and_then_assoc

lemma performs_leaf:
  "validate_value v d = and_then (account cs) (\<lambda>_. return_ok []) \<Longrightarrow> performs (TaskValue v d) cs"
  using performsI [of "TaskValue v d" cs "[]" "[]"] by simp

lemma performs_nested:
  assumes "validate_value v d = and_then (check_depth d) (\<lambda>_. return_ok (if xs \<noteq> [] then [task] else []))"
    and "performs task cs" and "xs = [] \<Longrightarrow> cs = []"
  shows "performs (TaskValue v d) (AtDepth d # cs)"
proof (cases "xs = []")
  case True
  then show ?thesis using assms performs_leaf [of v d "[AtDepth d]"] by simp
next
  case False
  then show ?thesis using assms performsI [of "TaskValue v d" "[AtDepth d]" "[task]" "[cs]"] by simp
qed

definition element_tasks :: "element_property \<Rightarrow> usize \<Rightarrow> validation_task list" where
  "element_tasks e d = TaskProperties (ep_properties e) (deeper d) 0 {} #
     (if ep_opaque_extensions e \<noteq> [] then [TaskExtensions (ep_opaque_extensions e) 0] else [])"

definition element_task_charges :: "element_property \<Rightarrow> usize \<Rightarrow> charge list list" where
  "element_task_charges e d = properties_charges (deeper d) (ep_properties e) #
     (if ep_opaque_extensions e \<noteq> [] then [concat (map opaque_charges (ep_opaque_extensions e))] else [])"

lemma element_charges_split:
  "element_charges d e = (TextBytes (length (ep_name e)) # class_charges (ep_class_name e)) @ concat (element_task_charges e d)"
  by (cases e) (simp add: element_task_charges_def)

lemma validate_element_split:
  "validate_element_value e d =
    and_then (account (TextBytes (length (ep_name e)) # class_charges (ep_class_name e))) (\<lambda>_. return_ok (element_tasks e d))"
  by (simp add: validate_element_value_def account_class and_then_assoc element_tasks_def)

lemma validation_tasks:
  "value_sized v \<Longrightarrow> performs (TaskValue v d) (value_charges d v)"
  "entry_sized e \<Longrightarrow> performs (TaskValue (pe_value e) d) (value_charges d (pe_value e))"
  "element_sized el \<Longrightarrow> performs_all (element_tasks el d) (element_task_charges el d)"
  "properties_sized ps \<Longrightarrow> performs (TaskProperties ps d 0 {}) (properties_charges d ps)"
proof (induction v and e and el and ps arbitrary: d and d and d and d
    rule: property_value.induct property_entry.induct element_property.induct properties.induct)
  case (PCollection xs)
  show ?case unfolding value_charges.simps
    by (rule performs_nested [where task = "TaskValues xs (deeper d) 0" and xs = xs])
      (use PCollection in \<open>auto simp: validate_value_def intro!: performs_values\<close>)
next
  case (PNamedCollection es)
  show ?case unfolding value_charges.simps
    by (rule performs_nested [where task = "TaskEntries es (deeper d) 0" and xs = es])
      (use PNamedCollection in \<open>auto simp: validate_value_def intro!: performs_entries\<close>)
next
  case (PMap es)
  show ?case unfolding value_charges.simps
    by (rule performs_nested [where task = "TaskEntries es (deeper d) 0" and xs = es])
      (use PMap in \<open>auto simp: validate_value_def intro!: performs_entries\<close>)
next
  case (PElement el)
  then have "performs_all (element_tasks el d) (element_task_charges el d)" by simp
  then show ?case
    using performsI [of "TaskValue (PElement el) d" "AtDepth d # TextBytes (length (ep_name el)) # class_charges (ep_class_name el)"
        "element_tasks el d" "element_task_charges el d"]
    by (simp add: validate_value_def validate_element_split element_charges_split and_then_assoc)
next
  case (ElementProperty n c ps xs)
  then show ?case by (simp add: element_tasks_def element_task_charges_def performs_extensions)
next
  case (Properties es)
  then show ?case using performs_properties by simp
next
  case (PropertyEntry n v)
  then show ?case by simp
qed (auto intro!: performs_leaf simp: validate_value_def account_eqs)

section \<open>Totals decide the outcome\<close>

fun properties_of :: "charge \<Rightarrow> nat" where
  "properties_of OneProperty = 1"
| "properties_of _ = 0"

fun text_of :: "charge \<Rightarrow> nat" where
  "text_of (TextBytes n) = n"
| "text_of _ = 0"

fun payload_of :: "charge \<Rightarrow> nat" where
  "payload_of (PayloadBytes n) = n"
| "payload_of _ = 0"

abbreviation total_of :: "(charge \<Rightarrow> nat) \<Rightarrow> charge list \<Rightarrow> nat" where
  "total_of f cs \<equiv> sum_list (map f cs)"

text \<open>The charges fit into what is left of the limits, no value is nested too deep, every demand holds.\<close>

fun charge_met :: "validation_limits \<Rightarrow> charge \<Rightarrow> bool" where
  "charge_met l (AtDepth d) \<longleftrightarrow> d \<le> max_property_depth l"
| "charge_met l (Requires b e) \<longleftrightarrow> b"
| "charge_met l _ \<longleftrightarrow> True"

definition affordable :: "validation_state \<Rightarrow> charge list \<Rightarrow> bool" where
  "affordable st cs \<longleftrightarrow>
     vs_properties st + total_of properties_of cs \<le> max_properties (vs_limits st) \<and>
     vs_string_bytes st + total_of text_of cs \<le> max_string_bytes (vs_limits st) \<and>
     vs_opaque_bytes st + total_of payload_of cs \<le> max_opaque_bytes (vs_limits st) \<and>
     (\<forall>c \<in> set cs. charge_met (vs_limits st) c)"

definition settle :: "validation_state \<Rightarrow> charge list \<Rightarrow> validation_state" where
  "settle st cs = st\<lparr>vs_properties := vs_properties st + total_of properties_of cs,
     vs_string_bytes := vs_string_bytes st + total_of text_of cs,
     vs_opaque_bytes := vs_opaque_bytes st + total_of payload_of cs\<rparr>"

definition state_ok :: "validation_state \<Rightarrow> bool" where
  "state_ok st \<longleftrightarrow> limits_sized (vs_limits st) \<and> affordable st []"

text \<open>What an error says about the charges that were made.\<close>

fun explains :: "validation_state \<Rightarrow> charge list \<Rightarrow> model_validation_error \<Rightarrow> bool" where
  "explains st cs (LimitExceeded PropertyCount lim a) \<longleftrightarrow>
     lim = max_properties (vs_limits st) \<and> lim < vs_properties st + total_of properties_of cs"
| "explains st cs (LimitExceeded StringBytes lim a) \<longleftrightarrow>
     lim = max_string_bytes (vs_limits st) \<and> lim < vs_string_bytes st + total_of text_of cs"
| "explains st cs (LimitExceeded OpaqueBytes lim a) \<longleftrightarrow>
     lim = max_opaque_bytes (vs_limits st) \<and> lim < vs_opaque_bytes st + total_of payload_of cs"
| "explains st cs (LimitExceeded PropertyDepth lim a) \<longleftrightarrow>
     lim = max_property_depth (vs_limits st) \<and> lim < a \<and> AtDepth a \<in> set cs"
| "explains st cs (LimitExceeded k lim a) \<longleftrightarrow> False"
| "explains st cs e \<longleftrightarrow> Requires False e \<in> set cs"

text \<open>Demands of the model state facts about names, metadata and locations, never about limits.\<close>

fun is_limit :: "model_validation_error \<Rightarrow> bool" where
  "is_limit (LimitExceeded _ _ _) = True"
| "is_limit _ = False"

definition demands_ok :: "charge list \<Rightarrow> bool" where
  "demands_ok cs \<longleftrightarrow> (\<forall>b e. Requires b e \<in> set cs \<longrightarrow> \<not> is_limit e)"

lemma settle_simps [simp]:
  "vs_limits (settle st cs) = vs_limits st"
  "vs_properties (settle st cs) = vs_properties st + total_of properties_of cs"
  "vs_string_bytes (settle st cs) = vs_string_bytes st + total_of text_of cs"
  "vs_opaque_bytes (settle st cs) = vs_opaque_bytes st + total_of payload_of cs"
  by (simp_all add: settle_def)

lemma settle_Nil [simp]: "settle st [] = st"
  by (simp add: settle_def)

lemma settle_append: "settle (settle st cs) ds = settle st (cs @ ds)"
  by (simp add: settle_def add.assoc)

lemma affordable_append: "affordable st (cs @ ds) \<longleftrightarrow> affordable st cs \<and> affordable (settle st cs) ds"
  by (auto simp: affordable_def)

lemma state_ok_settle: "state_ok st \<Longrightarrow> affordable st cs \<Longrightarrow> state_ok (settle st cs)"
  by (simp add: state_ok_def affordable_def)

lemma make_charge_eq:
  assumes "state_ok st" and "demands_ok [c]"
  shows "if affordable st [c] then make_charge c st = (Ok (), settle st [c])
    else \<exists>e. make_charge c st = (Err e, st) \<and> explains st [c] e"
proof (cases c)
  case (Requires b e)
  then have "explains st [c] e \<longleftrightarrow> \<not> b" using assms(2) by (cases e) (auto simp: demands_ok_def)
  then show ?thesis using Requires assms by (auto simp: affordable_def state_ok_def settle_def)
qed (use assms in \<open>auto simp: state_ok_def affordable_def settle_def check_depth_def add_property_def account_simps\<close>)

lemma explains_mono: "explains st cs e \<Longrightarrow> explains st (cs @ ds) e"
  by (cases "(st, cs, e)" rule: explains.cases) auto

lemma explains_later: "explains (settle st cs) ds e \<Longrightarrow> explains st (cs @ ds) e"
  by (cases "(st, cs, e)" rule: explains.cases) (auto simp: add.assoc)

lemma account_exact:
  assumes "state_ok st" and "demands_ok cs"
  shows "if affordable st cs then account cs st = (Ok (), settle st cs)
    else \<exists>e st'. account cs st = (Err e, st') \<and> explains st cs e"
  using assms
proof (induction cs arbitrary: st)
  case Nil
  then show ?case by (simp add: state_ok_def)
next
  case (Cons c cs)
  have d: "demands_ok [c]" "demands_ok cs" using Cons.prems(2) by (auto simp: demands_ok_def)
  note c = make_charge_eq [OF Cons.prems(1) d(1)]
  note split = affordable_append [of st "[c]" cs, simplified] settle_append [of st "[c]" cs, simplified]
  show ?case
  proof (cases "affordable st [c]")
    case True
    then have "make_charge c st = (Ok (), settle st [c])" "state_ok (settle st [c])"
      using c state_ok_settle [OF Cons.prems(1)] by simp_all
    then show ?thesis using Cons.IH [OF _ d(2)] True split explains_later [of st "[c]" cs]
      by (fastforce split: if_splits)
  next
    case False
    then show ?thesis using c split explains_mono [of st "[c]" _ cs] by fastforce
  qed
qed

lemma account_Ok_iff:
  "state_ok st \<Longrightarrow> demands_ok cs \<Longrightarrow> fst (account cs st) = Ok () \<longleftrightarrow> affordable st cs"
  using account_exact [of st cs] by (auto split: if_splits)

lemma explains_unaffordable: "explains st cs e \<Longrightarrow> \<not> affordable st cs"
  by (cases "(st, cs, e)" rule: explains.cases) (fastforce simp: affordable_def)+

lemma demands_ok_simps [simp]:
  "demands_ok []"
  "demands_ok (cs @ ds) \<longleftrightarrow> demands_ok cs \<and> demands_ok ds"
  "demands_ok (AtDepth d # cs) \<longleftrightarrow> demands_ok cs"
  "demands_ok (OneProperty # cs) \<longleftrightarrow> demands_ok cs"
  "demands_ok (TextBytes n # cs) \<longleftrightarrow> demands_ok cs"
  "demands_ok (PayloadBytes n # cs) \<longleftrightarrow> demands_ok cs"
  "demands_ok (Requires b e # cs) \<longleftrightarrow> \<not> is_limit e \<and> demands_ok cs"
  "demands_ok (concat css) \<longleftrightarrow> (\<forall>cs \<in> set css. demands_ok cs)"
  by (auto simp: demands_ok_def)

lemma demands_leaf [simp]: "demands_ok (class_charges c)" "demands_ok (object_charges ob)" "demands_ok (opaque_charges ov)"
  by (simp_all add: class_charges_def object_charges_def opaque_charges_def split: option.split)

lemma demands_charges:
  "demands_ok (value_charges d v)" "demands_ok (entry_charges d e)" "demands_ok (element_charges d el)"
  "demands_ok (properties_charges d ps)"
proof (induction d v and d e and d el and d ps rule: value_charges_entry_charges_element_charges_properties_charges.induct)
  case (16 d es)
  then show ?case by (simp add: guard_names_def fresh_name_def)
qed simp_all

lemma then_tasks_charges:
  assumes "first = and_then (account cs) (\<lambda>_. return_ok tasks)" and "performs_all tasks css"
  shows "then_tasks first l = Some (fst (account (cs @ concat css) (validation_state_new l)))"
proof -
  obtain r st where r: "account cs (validation_state_new l) = (r, st)" by (cases "account cs (validation_state_new l)")
  have stop: "validate_property_tasks [] st = Some (Ok (), st)" for st
    by (simp add: validate_property_tasks_def validate_pass_def)
  show ?thesis using r run_all [OF assms(2), of "[]" st]
    by (cases r) (auto simp: assms(1) then_tasks_def account_append and_then_def stop split: prod.splits sum.splits)
qed

lemma new_state_ok: "limits_sized l \<Longrightarrow> state_ok (validation_state_new l)"
  by (simp add: state_ok_def affordable_def validation_state_new_def)

section \<open>Properties\<close>

definition duplicate_example :: property_value where
  "duplicate_example = PElement (ElementProperty ''e'' None
     (Properties [PropertyEntry ''a'' (PString ''x''), PropertyEntry ''a'' PNull]) [])"

text \<open>Bounded validation of property values is exact. On every value whose vectors fit in memory the
  task loop ends. It accepts exactly when the nested values, the text bytes and the payload bytes stay
  within the limits, no value is nested deeper than allowed and no property collection repeats a name;
  a rejection names a limit that the whole value exceeds, a value that is too deep, or a repeated name.
  Counters never wrap.\<close>

theorem property_validation_exact:
  assumes "value_sized v" and "limits_sized l"
  shows "\<exists>r. value_validate_with_limits v l = Some r \<and>
    (r = Ok () \<longleftrightarrow> affordable (validation_state_new l) (OneProperty # value_charges 0 v)) \<and>
    (\<forall>e. r = Err e \<longrightarrow> explains (validation_state_new l) (OneProperty # value_charges 0 v) e)"
proof -
  let ?cs = "OneProperty # value_charges 0 v"
  have "value_validate_with_limits v l = Some (fst (account ([OneProperty] @ concat [value_charges 0 v]) (validation_state_new l)))"
    unfolding value_validate_with_limits_def
    by (rule then_tasks_charges [where tasks = "[TaskValue v 0]"]) (use validation_tasks(1) [OF assms(1)] in simp_all)
  moreover have "demands_ok ?cs" by (simp add: demands_charges)
  ultimately show ?thesis using account_exact [OF new_state_ok [OF assms(2)], of ?cs] by (auto split: if_splits)
qed

lemma property_validation_exact_example:
  "value_validate_with_limits duplicate_example validation_limits_small = Some (Err (DuplicatePropertyName ''a''))"
proof -
  have "value_sized duplicate_example" "limits_sized validation_limits_small"
    by (simp_all add: duplicate_example_def limits_sized_def validation_limits_small_def usize_max_def)
  from property_validation_exact [OF this] obtain r where
    r: "value_validate_with_limits duplicate_example validation_limits_small = Some r"
      "r = Ok () \<longleftrightarrow> affordable (validation_state_new validation_limits_small) (OneProperty # value_charges 0 duplicate_example)"
      "\<And>e. r = Err e \<Longrightarrow> explains (validation_state_new validation_limits_small) (OneProperty # value_charges 0 duplicate_example) e"
    by blast
  have cs: "value_charges 0 duplicate_example = [AtDepth 0, TextBytes 1, Requires True (DuplicatePropertyName ''a''), OneProperty,
      TextBytes 1, AtDepth 1, TextBytes 1, Requires False (DuplicatePropertyName ''a''), OneProperty, TextBytes 1, AtDepth 1]"
    by (simp add: duplicate_example_def class_charges_def guard_names_def fresh_name_def saturating_add_def usize_max_def)
  then obtain e where e: "r = Err e" using r(2) by (cases r) (auto simp: affordable_def)
  then have "e = DuplicatePropertyName ''a''"
    using r(3) [OF e] unfolding cs
    by (cases "(validation_state_new validation_limits_small, [] :: charge list, e)" rule: explains.cases)
      (auto simp: validation_state_new_def validation_limits_small_def)
  then show ?thesis using r(1) e by simp
qed

end
