(* ===== verification/Bridge_Wire.thy ===== *)
theory Bridge_Wire
  imports Rust_Prelude
begin

text \<open>
  Bytes on the wire of the bridge protocol (\<open>crates/bridge-protocol/src/lib.rs\<close>): big-endian integers,
  slices and indexing that panic out of range, and UTF-8 validation. A Rust \<open>String\<close> is the list of
  its bytes, which is valid UTF-8.

  A computation that may panic is an \<open>option\<close>: \<open>None\<close> is a panic. \<open>attempt\<close> is the \<open>?\<close> operator.
\<close>

named_theorems wire_simps \<open>evaluation of reads and slices\<close>

type_synonym u8 = "8 word"
type_synonym u16 = "16 word"
type_synonym u32 = "32 word"
type_synonym bytes = "u8 list"
type_synonym rust_str = bytes
type_synonym ('e, 'a) panicking = "('e, 'a) result option"

definition attempt :: "('e, 'a) panicking \<Rightarrow> ('a \<Rightarrow> ('e, 'b) panicking) \<Rightarrow> ('e, 'b) panicking" where
  "attempt m f = (case m of None \<Rightarrow> None | Some (Err e) \<Rightarrow> Some (Err e) | Some (Ok a) \<Rightarrow> f a)"

lemma attempt_simps [simp]:
  "attempt None f = None"
  "attempt (Some (Err e)) f = Some (Err e)"
  "attempt (Some (Ok a)) f = f a"
  by (simp_all add: attempt_def)

lemma attempt_eq_Ok [simp]:
  "attempt m f = Some (Ok b) \<longleftrightarrow> (\<exists>a. m = Some (Ok a) \<and> f a = Some (Ok b))"
  by (auto simp: attempt_def split: option.splits sum.splits)

section \<open>Slices\<close>

definition slice :: "'a list \<Rightarrow> usize \<Rightarrow> usize \<Rightarrow> 'a list option" where
  "slice xs a b = (if a \<le> b \<and> b \<le> length xs then Some (take (b - a) (drop a xs)) else None)"

lemma slice_fits [wire_simps]: "a \<le> b \<Longrightarrow> b \<le> length xs \<Longrightarrow> slice xs a b = Some (take (b - a) (drop a xs))"
  by (simp add: slice_def)

lemma slice_middle: "slice (xs @ ys @ zs) (length xs) (length xs + length ys) = Some ys"
  by (simp add: slice_def)

section \<open>Big-endian integers\<close>

fun to_be_bytes :: "nat \<Rightarrow> nat \<Rightarrow> bytes" where
  "to_be_bytes 0 v = []"
| "to_be_bytes (Suc n) v = to_be_bytes n (v div 256) @ [of_nat v]"

definition from_be_bytes :: "bytes \<Rightarrow> nat" where
  "from_be_bytes bs = foldl (\<lambda>acc b. acc * 256 + unat b) 0 bs"

definition push_u16 :: "bytes \<Rightarrow> u16 \<Rightarrow> bytes" where
  "push_u16 bs v = bs @ to_be_bytes 2 (unat v)"

definition push_u32 :: "bytes \<Rightarrow> u32 \<Rightarrow> bytes" where
  "push_u32 bs v = bs @ to_be_bytes 4 (unat v)"

definition push_u64 :: "bytes \<Rightarrow> 64 word \<Rightarrow> bytes" where
  "push_u64 bs v = bs @ to_be_bytes 8 (unat v)"

definition read_u16 :: "bytes \<Rightarrow> usize \<Rightarrow> u16 option" where
  "read_u16 bs offset = map_option (\<lambda>s. of_nat (from_be_bytes s)) (slice bs offset (offset + 2))"

definition read_u32 :: "bytes \<Rightarrow> usize \<Rightarrow> u32 option" where
  "read_u32 bs offset = map_option (\<lambda>s. of_nat (from_be_bytes s)) (slice bs offset (offset + 4))"

definition read_u64 :: "bytes \<Rightarrow> usize \<Rightarrow> 64 word option" where
  "read_u64 bs offset = map_option (\<lambda>s. of_nat (from_be_bytes s)) (slice bs offset (offset + 8))"

lemma unat_less: "unat (w :: 'a :: len word) < 2 ^ LENGTH('a)"
  by (rule unsigned_less)

lemma length_to_be_bytes [simp]: "length (to_be_bytes n v) = n"
  by (induction n arbitrary: v) simp_all

lemma from_be_bytes_snoc [simp]: "from_be_bytes (bs @ [b]) = from_be_bytes bs * 256 + unat b"
  by (simp add: from_be_bytes_def)

lemma from_be_bytes_Nil [simp]: "from_be_bytes [] = 0"
  by (simp add: from_be_bytes_def)

lemma from_to_be_bytes: "from_be_bytes (to_be_bytes n v) = v mod 256 ^ n"
proof (induction n arbitrary: v)
  case (Suc n)
  have "unat (of_nat v :: u8) = v mod 256" by (simp add: unat_of_nat take_bit_eq_mod)
  moreover have "v mod 256 ^ Suc n = 256 * (v div 256 mod 256 ^ n) + v mod 256"
    using mod_mult2_eq [of v 256 "256 ^ n"] by simp
  ultimately show ?case using Suc [of "v div 256"] by simp
qed simp

lemma to_from_be_bytes: "to_be_bytes (length bs) (from_be_bytes bs) = bs"
proof (induction bs rule: rev_induct)
  case (snoc b bs)
  have "(from_be_bytes bs * 256 + unat b) div 256 = from_be_bytes bs" using unat_less [of b] by simp
  moreover have "(of_nat (from_be_bytes bs * 256 + unat b) :: u8) = b"
  proof -
    have z: "(256 :: u8) = 0" by simp
    have "of_nat (from_be_bytes bs) * (256 :: u8) = 0" by (simp only: z mult_zero_right)
    then show ?thesis by simp
  qed
  ultimately show ?case using snoc by simp
qed simp

lemma from_be_bytes_less: "from_be_bytes bs < 256 ^ length bs"
proof -
  have "from_be_bytes bs = from_be_bytes bs mod 256 ^ length bs"
    using from_to_be_bytes [of "length bs" "from_be_bytes bs"] by (simp add: to_from_be_bytes)
  then show ?thesis by (metis mod_less_divisor zero_less_numeral zero_less_power)
qed

text \<open>Reading back what was pushed, and pushing back what was read.\<close>

lemma read_pushed:
  "read_u16 (xs @ to_be_bytes 2 (unat a) @ zs) (length xs) = Some a"
  "read_u32 (xs @ to_be_bytes 4 (unat b) @ zs) (length xs) = Some b"
  "read_u64 (xs @ to_be_bytes 8 (unat c) @ zs) (length xs) = Some c"
  using slice_middle [of xs "to_be_bytes 2 (unat a)" zs] slice_middle [of xs "to_be_bytes 4 (unat b)" zs]
    slice_middle [of xs "to_be_bytes 8 (unat c)" zs] unat_less [of a] unat_less [of b] unat_less [of c]
  by (simp_all add: read_u16_def read_u32_def read_u64_def from_to_be_bytes)

lemma push_read:
  "read_u16 bs off = Some a \<Longrightarrow> to_be_bytes 2 (unat a) = take 2 (drop off bs) \<and> off + 2 \<le> length bs"
  "read_u32 bs off = Some b \<Longrightarrow> to_be_bytes 4 (unat b) = take 4 (drop off bs) \<and> off + 4 \<le> length bs"
  "read_u64 bs off = Some c \<Longrightarrow> to_be_bytes 8 (unat c) = take 8 (drop off bs) \<and> off + 8 \<le> length bs"
proof -
  have u: "to_be_bytes n (unat (of_nat (from_be_bytes s) :: 'a :: len word)) = s"
    if "length s = n" "256 ^ n = (2 :: nat) ^ LENGTH('a)" for s n
    using that from_be_bytes_less [of s] to_from_be_bytes [of s] by (simp add: unat_of_nat take_bit_eq_mod)
  show "read_u16 bs off = Some a \<Longrightarrow> to_be_bytes 2 (unat a) = take 2 (drop off bs) \<and> off + 2 \<le> length bs"
    by (auto simp: read_u16_def slice_def u split: if_splits)
  show "read_u32 bs off = Some b \<Longrightarrow> to_be_bytes 4 (unat b) = take 4 (drop off bs) \<and> off + 4 \<le> length bs"
    by (auto simp: read_u32_def slice_def u split: if_splits)
  show "read_u64 bs off = Some c \<Longrightarrow> to_be_bytes 8 (unat c) = take 8 (drop off bs) \<and> off + 8 \<le> length bs"
    by (auto simp: read_u64_def slice_def u split: if_splits)
qed

lemma read_in_range:
  "off + 2 \<le> length bs \<Longrightarrow> \<exists>v. read_u16 bs off = Some v"
  "off + 4 \<le> length bs \<Longrightarrow> \<exists>v. read_u32 bs off = Some v"
  "off + 8 \<le> length bs \<Longrightarrow> \<exists>v. read_u64 bs off = Some v"
  by (simp_all add: read_u16_def read_u32_def read_u64_def slice_def)

section \<open>UTF-8\<close>

definition byte_in :: "nat \<Rightarrow> nat \<Rightarrow> u8 \<Rightarrow> bool" where
  "byte_in lo hi b \<longleftrightarrow> lo \<le> unat b \<and> unat b \<le> hi"

text \<open>\<open>str::from_utf8\<close> accepts exactly the well-formed sequences of the Unicode standard: no overlong
  form, no surrogate, nothing above U+10FFFF.\<close>

fun utf8_valid :: "bytes \<Rightarrow> bool" where
  "utf8_valid [] = True"
| "utf8_valid (a # bs) =
     (if byte_in 0 127 a then utf8_valid bs
      else (case bs of
          [] \<Rightarrow> False
        | b # bs \<Rightarrow>
            if byte_in 194 223 a then byte_in 128 191 b \<and> utf8_valid bs
            else (case bs of
                [] \<Rightarrow> False
              | c # bs \<Rightarrow>
                  if byte_in 224 239 a then
                    byte_in (if a = 224 then 160 else 128) (if a = 237 then 159 else 191) b \<and>
                    byte_in 128 191 c \<and> utf8_valid bs
                  else (case bs of
                      [] \<Rightarrow> False
                    | d # bs \<Rightarrow>
                        byte_in 240 244 a \<and>
                        byte_in (if a = 240 then 144 else 128) (if a = 244 then 143 else 191) b \<and>
                        byte_in 128 191 c \<and> byte_in 128 191 d \<and> utf8_valid bs))))"

end
