(* ===== verification/Source_Location.thy ===== *)
theory Source_Location
  imports Model_Limits Bridge_Wire
begin

text \<open>
  Source locations (\<open>crates/model/src/source.rs\<close>): bounded, lexically normalised source labels and the
  translation of a byte offset into a line and a column.

  A label is the list of its UTF-8 bytes; the source buffer of an offset is a list of bytes.
\<close>

unbundle bit_operations_syntax

section \<open>Locations\<close>

definition MAX_SOURCE_NAME_BYTES :: usize where
  "MAX_SOURCE_NAME_BYTES = 16 * 1024"

definition MAX_SOURCE_PATH_COMPONENTS :: usize where
  "MAX_SOURCE_PATH_COMPONENTS = 128"

definition MAX_SOURCE_BYTE_OFFSET :: u64 where
  "MAX_SOURCE_BYTE_OFFSET = 64 * 1024 * 1024"

definition u32_max :: nat where
  "u32_max = 4294967295"

definition location_unknown :: source_location where
  "location_unknown = \<lparr>sl_source = None, sl_byte_offset = None, sl_line = None, sl_column = None\<rparr>"

definition location_new :: "nat \<Rightarrow> nat \<Rightarrow> (source_location_error, source_location) result" where
  "location_new line column =
     (if line = 0 then Err (InvalidLine line)
      else if column = 0 then Err (InvalidColumn column)
      else Ok \<lparr>sl_source = None, sl_byte_offset = None, sl_line = Some line, sl_column = Some column\<rparr>)"

definition from_byte_offset :: "u64 \<Rightarrow> source_location" where
  "from_byte_offset off = \<lparr>sl_source = None, sl_byte_offset = Some off, sl_line = None, sl_column = None\<rparr>"

definition try_from_byte_offset :: "u64 \<Rightarrow> (source_location_error, source_location) result" where
  "try_from_byte_offset off =
     (if MAX_SOURCE_BYTE_OFFSET < off then Err (ByteOffsetTooLarge off MAX_SOURCE_BYTE_OFFSET)
      else Ok (from_byte_offset off))"

definition with_byte_offset :: "u64 \<Rightarrow> source_location \<Rightarrow> source_location" where
  "with_byte_offset off sl = sl\<lparr>sl_byte_offset := Some off\<rparr>"

definition try_with_byte_offset :: "u64 \<Rightarrow> source_location \<Rightarrow> (source_location_error, source_location) result" where
  "try_with_byte_offset off sl =
     (if MAX_SOURCE_BYTE_OFFSET < off then Err (ByteOffsetTooLarge off MAX_SOURCE_BYTE_OFFSET)
      else Ok (with_byte_offset off sl))"

definition with_line_column :: "nat \<Rightarrow> nat \<Rightarrow> source_location \<Rightarrow> (source_location_error, source_location) result" where
  "with_line_column line column sl =
     (if line = 0 then Err (InvalidLine line)
      else if column = 0 then Err (InvalidColumn column)
      else Ok (sl\<lparr>sl_line := Some line, sl_column := Some column\<rparr>))"

definition location_validate :: "source_location \<Rightarrow> (source_location_error, unit) result" where
  "location_validate sl =
     (if sl_line sl = Some 0 then Err (InvalidLine 0)
      else if sl_column sl = Some 0 then Err (InvalidColumn 0)
      else case sl_byte_offset sl of
          Some off \<Rightarrow>
            if MAX_SOURCE_BYTE_OFFSET < off then Err (ByteOffsetTooLarge off MAX_SOURCE_BYTE_OFFSET) else Ok ()
        | None \<Rightarrow> Ok ())"

definition is_unknown :: "source_location \<Rightarrow> bool" where
  "is_unknown sl \<longleftrightarrow> sl_source sl = None \<and> sl_byte_offset sl = None \<and> sl_line sl = None \<and> sl_column sl = None"

section \<open>Labels\<close>

text \<open>The first character of a string: its width in bytes and its scalar value.\<close>

abbreviation code :: "char \<Rightarrow> nat" where
  "code c \<equiv> of_char c"

definition utf8_width :: "nat \<Rightarrow> nat" where
  "utf8_width b = (if b < 128 then 1 else if b < 224 then 2 else if b < 240 then 3 else 4)"

definition tail_bits :: "string \<Rightarrow> nat \<Rightarrow> nat" where
  "tail_bits s i = (if i < length s then code (s ! i) mod 64 else 0)"

definition first_scalar :: "string \<Rightarrow> nat" where
  "first_scalar s =
     (let b = code (hd s); w = utf8_width b
      in if w = 1 then b
         else if w = 2 then (b mod 32) * 64 + tail_bits s 1
         else if w = 3 then (b mod 16) * 4096 + tail_bits s 1 * 64 + tail_bits s 2
         else (b mod 8) * 262144 + tail_bits s 1 * 4096 + tail_bits s 2 * 64 + tail_bits s 3)"

definition is_control :: "nat \<Rightarrow> bool" where
  "is_control u \<longleftrightarrow> u < 32 \<or> 127 \<le> u \<and> u < 160"

function scan_label :: "nat \<Rightarrow> string \<Rightarrow> source_location_error option" where
  "scan_label pos s =
     (if s = [] then None
      else if first_scalar s = 0 then Some (SourceContainsNul pos)
      else if is_control (first_scalar s) then Some (SourceContainsControl pos)
      else scan_label (pos + utf8_width (code (hd s))) (drop (utf8_width (code (hd s))) s))"
  by pat_completeness auto
termination
  by (relation "measure (\<lambda>(_, s). length s)") (auto simp: utf8_width_def)

declare scan_label.simps [simp del]

definition is_opaque_label :: "string \<Rightarrow> bool" where
  "is_opaque_label s \<longleftrightarrow> s \<noteq> [] \<and> hd s = CHR ''<'' \<and> last s = CHR ''>'' \<and> 3 \<le> length s"

definition is_ascii_alphabetic :: "char \<Rightarrow> bool" where
  "is_ascii_alphabetic c \<longleftrightarrow> 65 \<le> code c \<and> code c \<le> 90 \<or> 97 \<le> code c \<and> code c \<le> 122"

definition is_ascii_alphanumeric :: "char \<Rightarrow> bool" where
  "is_ascii_alphanumeric c \<longleftrightarrow> is_ascii_alphabetic c \<or> 48 \<le> code c \<and> code c \<le> 57"

definition looks_like_uri :: "string \<Rightarrow> bool" where
  "looks_like_uri s =
     (let scheme = takeWhile (\<lambda>c. c \<noteq> CHR '':'') s; rest = dropWhile (\<lambda>c. c \<noteq> CHR '':'') s
      in rest \<noteq> [] \<and> scheme \<noteq> [] \<and> is_ascii_alphabetic (hd s) \<and>
         list_all (\<lambda>c. is_ascii_alphanumeric c \<or> c \<in> {CHR ''+'', CHR ''-'', CHR ''.''}) (tl scheme) \<and>
         take 2 (tl rest) = ''//'')"

definition skip_slashes :: "string \<Rightarrow> string" where
  "skip_slashes s = dropWhile (\<lambda>c. c = CHR ''/'') s"

definition path_prefix :: "string \<Rightarrow> string \<times> bool \<times> bool \<times> string" where
  "path_prefix p =
     (if 2 \<le> length p \<and> p ! 0 = CHR ''/'' \<and> p ! 1 = CHR ''/'' then (''//'', True, False, skip_slashes (drop 2 p))
      else if p \<noteq> [] \<and> p ! 0 = CHR ''/'' then (''/'', True, False, skip_slashes (drop 1 p))
      else if 2 \<le> length p \<and> is_ascii_alphabetic (p ! 0) \<and> p ! 1 = CHR '':'' then
        (if vec_get p 2 = Some (CHR ''/'') then (take 2 p, True, False, skip_slashes (drop 3 p))
         else (take 2 p, False, True, drop 2 p))
      else ([], False, False, p))"

fun split_slash :: "string \<Rightarrow> string list" where
  "split_slash [] = [[]]"
| "split_slash (c # cs) =
     (if c = CHR ''/'' then [] # split_slash cs
      else (case split_slash cs of [] \<Rightarrow> [[c]] | w # ws \<Rightarrow> (c # w) # ws))"

text \<open>One component: \<open>None\<close> when there are too many already, otherwise the components after it.\<close>

definition add_component :: "bool \<Rightarrow> string \<Rightarrow> string list \<Rightarrow> string list" where
  "add_component rooted component components =
     (if component = ''.'' then components
      else if component = ''..'' \<and> components \<noteq> [] \<and> last components \<noteq> ''..'' then butlast components
      else if component = ''..'' \<and> \<not> rooted then components @ [component]
      else if component = ''..'' then components
      else components @ [component])"

fun path_components :: "bool \<Rightarrow> string list \<Rightarrow> string list \<Rightarrow> (source_location_error, string list) result" where
  "path_components rooted [] components = Ok components"
| "path_components rooted (c # cs) components =
     (if c = [] then path_components rooted cs components
      else if MAX_SOURCE_PATH_COMPONENTS \<le> length components then
        Err (SourceTooManyComponents (saturating_add usize_max (length components) 1) MAX_SOURCE_PATH_COMPONENTS)
      else path_components rooted cs (add_component rooted c components))"

fun join_components :: "bool \<Rightarrow> string list \<Rightarrow> string \<Rightarrow> string" where
  "join_components drive_relative [] canonical = canonical"
| "join_components drive_relative (c # cs) canonical =
     (let needs_separator = (canonical \<noteq> [] \<and> last canonical \<noteq> CHR ''/'' \<and> \<not> (drive_relative \<and> length canonical = 2))
      in join_components drive_relative cs ((if needs_separator then canonical @ ''/'' else canonical) @ c))"

definition normalize_separators :: "string \<Rightarrow> string" where
  "normalize_separators s = map (\<lambda>c. if c = CHR 0x5C then CHR ''/'' else c) s"

definition canonical_path :: "string \<Rightarrow> (source_location_error, string) result" where
  "canonical_path source =
     (case path_prefix (normalize_separators source) of (prefix, rooted, drive_relative, rest) \<Rightarrow>
           (case path_components rooted (split_slash rest) [] of
              Err e \<Rightarrow> Err e
            | Ok components \<Rightarrow>
                (let joined = join_components drive_relative components prefix;
                     canonical = (if joined = [] then (if rooted then ''/'' else ''.'') else joined)
                 in if MAX_SOURCE_NAME_BYTES < length canonical then
                      Err (SourceTooLong (length canonical) MAX_SOURCE_NAME_BYTES)
                    else Ok canonical)))"

definition canonical_source_label :: "string \<Rightarrow> (source_location_error, string) result" where
  "canonical_source_label source =
     (if source = [] then Err EmptySource
      else if MAX_SOURCE_NAME_BYTES < length source then Err (SourceTooLong (length source) MAX_SOURCE_NAME_BYTES)
      else (case scan_label 0 source of
          Some e \<Rightarrow> Err e
        | None \<Rightarrow> if is_opaque_label source \<or> looks_like_uri source then Ok source else canonical_path source))"

definition with_source :: "string \<Rightarrow> source_location \<Rightarrow> source_location" where
  "with_source source sl =
     (case canonical_source_label source of Ok canonical \<Rightarrow> sl\<lparr>sl_source := Some canonical\<rparr> | Err _ \<Rightarrow> sl\<lparr>sl_source := None\<rparr>)"

definition try_with_source :: "string \<Rightarrow> source_location \<Rightarrow> (source_location_error, source_location) result" where
  "try_with_source source sl =
     (case canonical_source_label source of Err e \<Rightarrow> Err e | Ok canonical \<Rightarrow> Ok (sl\<lparr>sl_source := Some canonical\<rparr>))"

section \<open>Offsets\<close>

text \<open>The width of the first character of a byte string when it is well-formed UTF-8.\<close>

definition utf8_char :: "bytes \<Rightarrow> nat option" where
  "utf8_char bs =
     (case bs of [] \<Rightarrow> None | b # _ \<Rightarrow>
        (let w = utf8_width (unat b) in if w \<le> length bs \<and> utf8_valid (take w bs) then Some w else None))"

text \<open>\<open>Utf8Error::valid_up_to\<close>.\<close>

function valid_up_to :: "bytes \<Rightarrow> nat" where
  "valid_up_to bs = (case utf8_char bs of None \<Rightarrow> 0 | Some w \<Rightarrow> w + valid_up_to (drop w bs))"
  by pat_completeness auto
termination
  by (relation "measure length") (auto simp: utf8_char_def utf8_width_def Let_def split: list.splits if_splits)

declare valid_up_to.simps [simp del]

definition is_char_boundary :: "bytes \<Rightarrow> usize \<Rightarrow> bool" where
  "is_char_boundary bs i \<longleftrightarrow> i = 0 \<or> i = length bs \<or> i < length bs \<and> \<not> byte_in 128 191 (bs ! i)"

text \<open>
  The loop over the cursor. \<open>None\<close> is a panic: an index out of range or a slice that does not start at
  a character boundary.
\<close>

function position_loop :: "bytes \<Rightarrow> usize \<Rightarrow> nat \<Rightarrow> nat \<Rightarrow> usize \<Rightarrow> (source_location_error, nat \<times> nat) panicking" where
  "position_loop source off line column cursor =
     (if cursor < off then
        Option.bind (vec_get source cursor) (\<lambda>b.
          if b = 10 then position_loop source off (saturating_add u32_max line 1) 1 (cursor + 1)
          else if b = 13 then
            (if cursor + 1 < off \<and> vec_get source (cursor + 1) = Some 10
             then position_loop source off (saturating_add u32_max line 1) 1 (cursor + 2)
             else position_loop source off (saturating_add u32_max line 1) 1 (cursor + 1))
          else if is_char_boundary source cursor \<and> is_char_boundary source off then
            position_loop source off line (saturating_add u32_max column 1) (cursor + utf8_width (unat b))
          else None)
      else Some (Ok (line, column)))"
  by pat_completeness auto
termination
  by (relation "measure (\<lambda>(_, off, _, _, cursor). off - cursor)") (auto simp: utf8_width_def)

declare position_loop.simps [simp del]

definition checked_source_position ::
  "bytes \<Rightarrow> usize \<Rightarrow> (source_location_error, nat \<times> nat \<times> u64 \<times> u64) panicking" where
  "checked_source_position source off =
     (if MAX_SOURCE_BYTE_OFFSET < length source then Some (Err (SourceTooLong (length source) MAX_SOURCE_BYTE_OFFSET))
      else if \<not> utf8_valid source then Some (Err (InvalidUtf8 (valid_up_to source)))
      else if length source < off then Some (Err (ByteOffsetOutOfBounds off (length source)))
      else if MAX_SOURCE_BYTE_OFFSET < off then Some (Err (ByteOffsetTooLarge off MAX_SOURCE_BYTE_OFFSET))
      else if \<not> is_char_boundary source off then Some (Err (ByteOffsetNotCharBoundary off))
      else attempt (position_loop source off 1 1 0) (\<lambda>(line, column). Some (Ok (line, column, off, length source))))"

definition with_byte_offset_in :: "bytes \<Rightarrow> usize \<Rightarrow> source_location \<Rightarrow> (source_location_error, source_location) panicking" where
  "with_byte_offset_in source off sl =
     attempt (checked_source_position source off) (\<lambda>(line, column, o', _).
       Some (Ok (sl\<lparr>sl_byte_offset := Some o', sl_line := Some line, sl_column := Some column\<rparr>)))"

definition from_source_offset :: "bytes \<Rightarrow> usize \<Rightarrow> (source_location_error, source_location) panicking" where
  "from_source_offset source off = with_byte_offset_in source off location_unknown"

section \<open>Identity\<close>

definition fnv_update :: "64 word \<Rightarrow> bytes \<Rightarrow> 64 word" where
  "fnv_update hash bs = foldl (\<lambda>h b. (h XOR ucast b) * 0x00000100000001B3) hash bs"

definition fnv_option :: "64 word \<Rightarrow> bytes option \<Rightarrow> 64 word" where
  "fnv_option hash value =
     (case value of Some bs \<Rightarrow> fnv_update (fnv_update hash [1]) bs | None \<Rightarrow> fnv_update hash [0])"

definition str_bytes :: "string \<Rightarrow> bytes" where
  "str_bytes s = map (\<lambda>c. of_nat (code c)) s"

definition canonical_identity :: "source_location \<Rightarrow> 64 word" where
  "canonical_identity sl =
     (let h0 = fnv_update 0xCBF29CE484222325 (str_bytes ''jmeter-rs.model.source-location.v1'' @ [0]);
          h1 = fnv_option h0 (map_option str_bytes (sl_source sl));
          h2 = fnv_option h1 (map_option (to_be_bytes 8) (sl_byte_offset sl));
          h3 = fnv_option h2 (map_option (to_be_bytes 4) (sl_line sl));
          h4 = fnv_option h3 (map_option (to_be_bytes 4) (sl_column sl))
      in if h4 = 0 then 1 else h4)"

section \<open>Characters of a valid buffer\<close>

text \<open>One well-formed character: its first byte gives its width, the others are continuation bytes.\<close>

definition is_char :: "bytes \<Rightarrow> bool" where
  "is_char x \<longleftrightarrow> x \<noteq> [] \<and> length x = utf8_width (unat (hd x)) \<and> \<not> byte_in 128 191 (hd x) \<and> list_all (byte_in 128 191) (tl x)"

lemma valid_chars: "utf8_valid bs \<Longrightarrow> \<exists>cs. bs = concat cs \<and> list_all is_char cs"
proof (induction bs rule: utf8_valid.induct)
  case 1
  then show ?case by (intro exI [of _ "[]"]) simp
next
  case (2 a bs)
  have step: ?case if x: "a # bs = x @ rest" "is_char x" "\<exists>cs. rest = concat cs \<and> list_all is_char cs" for x rest
  proof -
    obtain cs where "rest = concat cs" "list_all is_char cs" using x(3) by blast
    then show ?thesis using x by (intro exI [of _ "x # cs"]) simp
  qed
  show ?case
  proof (cases "byte_in 0 127 a")
    case True
    then have "is_char [a]" by (auto simp: is_char_def byte_in_def utf8_width_def)
    then show ?thesis using step [of "[a]" bs] 2 True by simp
  next
    case False
    note big = False
    then obtain b bs1 where bs: "bs = b # bs1" using 2 by (cases bs) auto
    show ?thesis
    proof (cases "byte_in 194 223 a")
      case True
      then have "byte_in 128 191 b" "utf8_valid bs1" using "2.prems" big bs by simp_all
      moreover have "is_char [a, b]" using True calculation by (auto simp: is_char_def byte_in_def utf8_width_def)
      ultimately show ?thesis using step [of "[a, b]" bs1] "2.IH"(2) [OF big bs True] bs by simp
    next
      case False
      note big2 = False
      then obtain c bs2 where bs1: "bs1 = c # bs2" using "2.prems" big bs by (cases bs1) auto
      show ?thesis
      proof (cases "byte_in 224 239 a")
        case True
        then have h: "byte_in (if a = 224 then 160 else 128) (if a = 237 then 159 else 191) b" "byte_in 128 191 c" "utf8_valid bs2"
          using "2.prems" big big2 bs bs1 by simp_all
        then have "is_char [a, b, c]" using True by (auto simp: is_char_def byte_in_def utf8_width_def split: if_splits)
        then show ?thesis using step [of "[a, b, c]" bs2] "2.IH"(3) [OF big bs big2 bs1 True] h bs bs1 by simp
      next
        case False
        then obtain d bs3 where bs2: "bs2 = d # bs3" using "2.prems" big big2 bs bs1 by (cases bs2) auto
        then have h: "byte_in 240 244 a" "byte_in (if a = 240 then 144 else 128) (if a = 244 then 143 else 191) b"
            "byte_in 128 191 c" "byte_in 128 191 d" "utf8_valid bs3"
          using "2.prems" big big2 False bs bs1 by simp_all
        then have "is_char [a, b, c, d]" by (auto simp: is_char_def byte_in_def utf8_width_def split: if_splits)
        then show ?thesis using step [of "[a, b, c, d]" bs3] "2.IH"(4) [OF big bs big2 bs1 False bs2] h bs bs1 bs2 by simp
      qed
    qed
  qed
qed

lemma boundary_at:
  assumes "list_all is_char (pre @ post)"
  shows "is_char_boundary (concat (pre @ post)) (length (concat pre))"
proof (cases post)
  case (Cons x xs)
  then have "is_char x" using assms by simp
  then have "concat (pre @ post) ! length (concat pre) = hd x" "x \<noteq> []" "\<not> byte_in 128 191 (hd x)"
    by (auto simp: Cons is_char_def nth_append hd_conv_nth)
  then show ?thesis by (simp add: is_char_boundary_def Cons)
qed (simp add: is_char_boundary_def)

lemma boundary_split:
  assumes "list_all is_char cs" and "is_char_boundary (concat cs) off" and "off \<le> length (concat cs)"
  shows "\<exists>pre post. cs = pre @ post \<and> off = length (concat pre)"
  using assms
proof (induction cs arbitrary: off)
  case (Cons x cs)
  consider "off = 0" | "0 < off" "off < length x" | "length x \<le> off" by linarith
  then show ?case
  proof cases
    case 1
    then show ?thesis by (metis append_Nil concat.simps(1) list.size(3))
  next
    case 2
    then have "x ! off \<in> set (tl x)" by (cases x) (auto simp: nth_Cons')
    then have "byte_in 128 191 (concat (x # cs) ! off)"
      using Cons.prems(1) 2 by (auto simp: is_char_def list_all_iff nth_append)
    then show ?thesis using Cons.prems(2) 2 by (simp add: is_char_boundary_def)
  next
    case 3
    then have "is_char_boundary (concat cs) (off - length x)"
      using Cons.prems(2) by (auto simp: is_char_boundary_def nth_append)
    moreover have "list_all is_char cs" "off - length x \<le> length (concat cs)" using Cons.prems 3 by simp_all
    ultimately obtain pre post where "cs = pre @ post" "off - length x = length (concat pre)"
      using Cons.IH [of "off - length x"] by blast
    then have "x # cs = (x # pre) @ post \<and> off = length (concat (x # pre))" using 3 by simp
    then show ?thesis by blast
  qed
qed simp

section \<open>Lines and columns\<close>

text \<open>
  The reference on the characters before the offset: a line feed, a carriage return, or both together
  end a line; every other character moves one column.
\<close>

fun place :: "nat \<Rightarrow> nat \<Rightarrow> bytes list \<Rightarrow> nat \<times> nat" where
  "place line column [] = (line, column)"
| "place line column (x # xs) =
     (if x = [10] then place (Suc line) 1 xs
      else if x = [13] then
        (case xs of y # ys \<Rightarrow> if y = [10] then place (Suc line) 1 ys else place (Suc line) 1 xs | [] \<Rightarrow> (Suc line, 1))
      else place line (Suc column) xs)"

lemma char_single: "is_char x \<Longrightarrow> unat (hd x) < 128 \<Longrightarrow> x = [hd x]"
  by (cases x) (auto simp: is_char_def utf8_width_def)

lemma char_control: "is_char x \<Longrightarrow> hd x = 10 \<longleftrightarrow> x = [10]" "is_char x \<Longrightarrow> hd x = 13 \<longleftrightarrow> x = [13]"
  using char_single [of x] by auto

lemma get_char: "x \<noteq> [] \<Longrightarrow> vec_get (concat (pre @ x # post)) (length (concat pre)) = Some (hd x)"
  by (simp add: vec_get_def nth_append hd_conv_nth)

text \<open>One pass of the loop at the character \<open>x\<close>.\<close>

lemma position_steps:
  fixes pre post x xs
  defines "src \<equiv> concat (pre @ (x # xs) @ post)" and "off \<equiv> length (concat (pre @ x # xs))"
  assumes ch: "list_all is_char (pre @ (x # xs) @ post)" and "line < u32_max" and "column < u32_max"
  shows "x = [10] \<Longrightarrow> position_loop src off line column (length (concat pre)) = position_loop src off (Suc line) 1 (length (concat (pre @ [x])))"
    and "x = [13] \<Longrightarrow> xs = [10] # ys \<Longrightarrow>
      position_loop src off line column (length (concat pre)) = position_loop src off (Suc line) 1 (length (concat (pre @ [[13], [10]])))"
    and "x = [13] \<Longrightarrow> (\<And>ys. xs \<noteq> [10] # ys) \<Longrightarrow>
      position_loop src off line column (length (concat pre)) = position_loop src off (Suc line) 1 (length (concat (pre @ [x])))"
    and "x \<noteq> [10] \<Longrightarrow> x \<noteq> [13] \<Longrightarrow>
      position_loop src off line column (length (concat pre)) = position_loop src off line (Suc column) (length (concat (pre @ [x])))"
proof -
  have x: "is_char x" "x \<noteq> []" using ch by (auto simp: is_char_def)
  have get: "vec_get src (length (concat pre)) = Some (hd x)" using get_char [OF x(2), of pre "xs @ post"] by (simp add: src_def)
  have lt: "length (concat pre) < off" using x(2) by (simp add: off_def)
  have sat: "saturating_add u32_max line (Suc 0) = Suc line" "saturating_add u32_max column (Suc 0) = Suc column"
    using assms(4,5) by (simp_all add: saturating_add_def)
  note step = position_loop.simps [of src off line column "length (concat pre)"]
  show "position_loop src off line column (length (concat pre)) = position_loop src off (Suc line) 1 (length (concat (pre @ [x])))"
    if "x = [10]" using get lt sat that by (simp add: step)
  show "position_loop src off line column (length (concat pre)) = position_loop src off (Suc line) 1 (length (concat (pre @ [[13], [10]])))"
    if "x = [13]" "xs = [10] # ys"
  proof -
    have "vec_get src (length (concat pre) + 1) = Some 10" "length (concat pre) + 1 < off"
      using that get_char [of "[10]" "pre @ [x]" "ys @ post"] by (simp_all add: src_def off_def)
    then show ?thesis using get lt sat that by (simp add: step)
  qed
  show "position_loop src off line column (length (concat pre)) = position_loop src off (Suc line) 1 (length (concat (pre @ [x])))"
    if r: "x = [13]" and no: "\<And>ys. xs \<noteq> [10] # ys"
  proof -
    have "\<not> (length (concat pre) + 1 < off \<and> vec_get src (length (concat pre) + 1) = Some 10)"
    proof
      assume a: "length (concat pre) + 1 < off \<and> vec_get src (length (concat pre) + 1) = Some 10"
      then obtain y ys where y: "xs = y # ys" using r by (cases xs) (auto simp: off_def)
      then have c: "is_char y" using ch by simp
      then have "vec_get src (length (concat pre) + 1) = Some (hd y)" using r y get_char [of y "pre @ [x]" "ys @ post"]
        by (simp add: is_char_def src_def)
      then have "y = [10]" using a char_control(1) [OF c] by simp
      then show False using no y by blast
    qed
    then show ?thesis using get lt sat r by (auto simp: step)
  qed
  show "position_loop src off line column (length (concat pre)) = position_loop src off line (Suc column) (length (concat (pre @ [x])))"
    if "x \<noteq> [10]" "x \<noteq> [13]"
  proof -
    have n: "hd x \<noteq> 10" "hd x \<noteq> 13" using that x(1) by (simp_all add: char_control)
    have "is_char_boundary src (length (concat pre))" "is_char_boundary src off"
      using boundary_at [of pre "(x # xs) @ post"] boundary_at [of "pre @ (x # xs)" post] ch by (simp_all add: src_def off_def)
    moreover have "length (concat pre) + utf8_width (unat (hd x)) = length (concat (pre @ [x]))"
      using x(1) by (simp add: is_char_def)
    ultimately show ?thesis using get lt sat n by (simp add: step)
  qed
qed

lemma position_loop_place:
  assumes "list_all is_char (pre @ mid @ post)"
    and "line + length mid \<le> u32_max" and "column + length mid \<le> u32_max" and "1 + length mid \<le> u32_max"
  shows "position_loop (concat (pre @ mid @ post)) (length (concat (pre @ mid))) line column (length (concat pre)) =
    Some (Ok (place line column mid))"
  using assms
proof (induction line column mid arbitrary: pre rule: place.induct)
  case (1 line column)
  then show ?case by (simp add: position_loop.simps [of _ _ _ _ "length (concat pre)"])
next
  case (2 line column x xs)
  have b: "line < u32_max" "column < u32_max" using 2(6,7) by simp_all
  note steps = position_steps [OF 2(5) b]
  consider "x = [10]" | ys where "x = [13]" "xs = [10] # ys" | "x = [13]" "\<And>ys. xs \<noteq> [10] # ys" | "x \<noteq> [10]" "x \<noteq> [13]"
    by metis
  then show ?case
  proof cases
    case 1
    then show ?thesis using 2(1) [of "pre @ [x]"] steps(1) 2(5-8) by simp
  next
    case (2 ys)
    have "position_loop (concat ((pre @ [[13], [10]]) @ ys @ post)) (length (concat ((pre @ [[13], [10]]) @ ys)))
        (Suc line) 1 (length (concat (pre @ [[13], [10]]))) = Some (Ok (place (Suc line) 1 ys))"
      by (rule "2.IH"(2)) (use 2 "2.prems" in simp_all)
    then show ?thesis using 2 steps(2) [OF 2] by simp
  next
    case 3
    show ?thesis
    proof (cases xs)
      case Nil
      then show ?thesis using 3 steps(3) [OF 3] by (simp add: position_loop.simps [of _ _ _ _ "Suc (length (concat pre))"])
    next
      case (Cons y ys)
      then have "y \<noteq> [10]" using 3(2) by blast
      then show ?thesis using 3 steps(3) [OF 3] Cons "2.IH"(3) [of y ys "pre @ [[13]]"] "2.prems" by simp
    qed
  next
    case 4
    then show ?thesis using 2(4) [of "pre @ [x]"] steps(4) 2(5-8) by simp
  qed
qed

lemma chars_length: "list_all is_char cs \<Longrightarrow> length cs \<le> length (concat cs)"
proof (induction cs)
  case (Cons x cs)
  then have "x \<noteq> []" by (simp add: is_char_def)
  then show ?case using Cons by (cases x) simp_all
qed simp

text \<open>The characters of a byte string, by the width that their first byte gives.\<close>

function chars :: "bytes \<Rightarrow> bytes list" where
  "chars bs = (if bs = [] then [] else take (utf8_width (unat (hd bs))) bs # chars (drop (utf8_width (unat (hd bs))) bs))"
  by pat_completeness auto
termination
  by (relation "measure length") (auto simp: utf8_width_def)

declare chars.simps [simp del]

lemma chars_concat: "list_all is_char cs \<Longrightarrow> chars (concat cs) = cs"
proof (induction cs)
  case (Cons x cs)
  then have "x \<noteq> []" "length x = utf8_width (unat (hd x))" by (auto simp: is_char_def)
  then show ?case using Cons by (subst chars.simps) simp
qed (simp add: chars.simps)

section \<open>Normal form of labels\<close>

text \<open>
  The components of a normalised path: no empty one, no dot, and two dots only in front, where nothing
  is left to remove, and never below a root.
\<close>

definition normal_components :: "bool \<Rightarrow> string list \<Rightarrow> bool" where
  "normal_components rooted cs \<longleftrightarrow>
     list_all (\<lambda>c. c \<noteq> [] \<and> c \<noteq> ''.'' \<and> CHR ''/'' \<notin> set c) cs \<and>
     (\<exists>k rest. cs = replicate k ''..'' @ rest \<and> ''..'' \<notin> set rest \<and> (rooted \<longrightarrow> k = 0))"

lemma split_slash_clean: "w \<in> set (split_slash s) \<Longrightarrow> CHR ''/'' \<notin> set w"
  by (induction s arbitrary: w) (auto split: if_splits list.splits)

lemma add_component_normal:
  assumes "normal_components rooted cs" and "c \<noteq> []" and "CHR ''/'' \<notin> set c"
  shows "normal_components rooted (add_component rooted c cs)"
proof -
  obtain k rest where cs: "cs = replicate k ''..'' @ rest" "''..'' \<notin> set rest" "rooted \<Longrightarrow> k = 0"
    and clean: "list_all (\<lambda>c. c \<noteq> [] \<and> c \<noteq> ''.'' \<and> CHR ''/'' \<notin> set c) cs"
    using assms(1) unfolding normal_components_def by blast
  have normal: "normal_components rooted ds"
    if "list_all (\<lambda>c. c \<noteq> [] \<and> c \<noteq> ''.'' \<and> CHR ''/'' \<notin> set c) ds" "ds = replicate j ''..'' @ r" "''..'' \<notin> set r" "rooted \<Longrightarrow> j = 0"
    for ds j r using that unfolding normal_components_def by blast
  consider "c = ''.''" | "c \<noteq> ''.''" "c \<noteq> ''..''" | d ds where "c = ''..''" "rest = ds @ [d]" | "c = ''..''" "rest = []" rooted
    | "c = ''..''" "rest = []" "\<not> rooted" by (metis rev_exhaust)
  then show ?thesis
  proof cases
    case 2
    then show ?thesis using assms(2,3) cs clean by (intro normal [of _ k "rest @ [c]"]) (auto simp: add_component_def)
  next
    case (3 d ds)
    then have "add_component rooted c cs = replicate k ''..'' @ ds" using cs by (auto simp: add_component_def butlast_append)
    then show ?thesis using cs clean 3 by (intro normal [of _ k ds]) auto
  next
    case 4
    then show ?thesis using cs clean by (intro normal [of _ 0 "[]"]) (auto simp: add_component_def)
  next
    case 5
    then have "add_component rooted c cs = cs @ [''..'']" using cs by (cases k) (auto simp: add_component_def last_replicate)
    then show ?thesis using cs clean 5 by (intro normal [of _ "Suc k" "[]"]) (auto simp: replicate_append_same)
  qed (use assms(1) in \<open>simp add: add_component_def\<close>)
qed

lemma path_components_normal:
  assumes "path_components rooted ws cs = Ok ds" and "normal_components rooted cs"
    and "\<And>w. w \<in> set ws \<Longrightarrow> CHR ''/'' \<notin> set w" and "length cs \<le> MAX_SOURCE_PATH_COMPONENTS"
  shows "normal_components rooted ds \<and> length ds \<le> MAX_SOURCE_PATH_COMPONENTS"
  using assms
proof (induction rooted ws cs rule: path_components.induct)
  case (2 rooted c cs components)
  have "length (add_component rooted c components) \<le> Suc (length components)"
    by (auto simp: add_component_def)
  then show ?case using 2 add_component_normal [of rooted components c] by (auto split: if_splits)
qed simp

section \<open>Properties\<close>

text \<open>C14: Byte offsets become exact positions. The computation of a line and a column never panics. It
  succeeds exactly for a buffer of bounded size that is valid UTF-8 and an offset on a character
  boundary inside it, and then the position is the one obtained by reading the characters before the
  offset one after the other, with a carriage return followed by a line feed as one line end; the
  32-bit counters do not saturate.\<close>

theorem source_position_exact:
  "\<exists>r. checked_source_position src off = Some r \<and>
    (is_ok r \<longleftrightarrow> length src \<le> MAX_SOURCE_BYTE_OFFSET \<and> utf8_valid src \<and> off \<le> length src \<and> is_char_boundary src off) \<and>
    (\<forall>line column o' n. r = Ok (line, column, o', n) \<longrightarrow>
      o' = off \<and> n = length src \<and> (line, column) = place 1 1 (chars (take off src)))"
proof (cases "length src \<le> MAX_SOURCE_BYTE_OFFSET \<and> utf8_valid src \<and> off \<le> length src \<and> is_char_boundary src off")
  case True
  obtain cs where cs: "src = concat cs" "list_all is_char cs" using valid_chars True by blast
  then obtain pre post where p: "cs = pre @ post" "off = length (concat pre)" using boundary_split True by blast
  have pre: "list_all is_char pre" using cs p by simp
  have "length pre \<le> MAX_SOURCE_BYTE_OFFSET" using chars_length [OF pre] True p by linarith
  then have "position_loop src off 1 1 0 = Some (Ok (place 1 1 pre))"
    using position_loop_place [of "[]" pre post 1 1] cs p by (simp add: MAX_SOURCE_BYTE_OFFSET_def u32_max_def)
  moreover have "chars (take off src) = pre" "\<not> MAX_SOURCE_BYTE_OFFSET < off" using cs p True chars_concat [OF pre] by simp_all
  ultimately show ?thesis using True by (cases "place 1 1 pre") (auto simp: checked_source_position_def)
qed (auto simp: checked_source_position_def)

theorem source_position_exact_witness:
  "checked_source_position [97, 13, 10, 195, 169, 98] 5 = Some (Ok (2, 2, 5, 6))"
proof -
  let ?src = "[97, 13, 10, 195, 169, 98] :: bytes"
  have "length ?src \<le> MAX_SOURCE_BYTE_OFFSET \<and> utf8_valid ?src \<and> 5 \<le> length ?src \<and> is_char_boundary ?src 5"
    by (simp add: MAX_SOURCE_BYTE_OFFSET_def byte_in_def is_char_boundary_def)
  then obtain line column o' n where "checked_source_position ?src 5 = Some (Ok (line, column, o', n))"
      "o' = 5" "n = length ?src" "(line, column) = place 1 1 (chars (take 5 ?src))"
    using source_position_exact [of ?src 5] by (metis is_ok.elims(1) surj_pair)
  moreover have "chars (take 5 ?src) = [[97], [13], [10], [195, 169]]" by (simp add: chars.simps utf8_width_def)
  ultimately show ?thesis by simp
qed

lemmas label_eval = canonical_source_label_def scan_label.simps first_scalar_def utf8_width_def is_control_def
  is_opaque_label_def looks_like_uri_def is_ascii_alphanumeric_def is_ascii_alphabetic_def canonical_path_def
  normalize_separators_def path_prefix_def skip_slashes_def add_component_def Let_def vec_get_def
  MAX_SOURCE_NAME_BYTES_def MAX_SOURCE_PATH_COMPONENTS_def

text \<open>Canonical labels are bounded and normalised. An accepted label is an identifier that is kept
  unchanged, or a path whose components are in normal form: no empty component, no dot, two dots only
  in front of an unrooted path, and at most 128 of them; the label is never empty and at most 16 KiB.\<close>

theorem canonical_label_normal:
  assumes "canonical_source_label s = Ok c"
  shows "c \<noteq> [] \<and> length c \<le> MAX_SOURCE_NAME_BYTES \<and>
    (c = s \<and> (is_opaque_label s \<or> looks_like_uri s) \<or>
     (\<exists>prefix rooted drive rest cs. path_prefix (normalize_separators s) = (prefix, rooted, drive, rest) \<and>
       normal_components rooted cs \<and> length cs \<le> MAX_SOURCE_PATH_COMPONENTS \<and>
       c = (if join_components drive cs prefix = [] then (if rooted then ''/'' else ''.'') else join_components drive cs prefix)))"
proof (cases "is_opaque_label s \<or> looks_like_uri s")
  case True
  then show ?thesis using assms by (auto simp: canonical_source_label_def split: if_splits option.splits)
next
  case False
  then have p: "canonical_path s = Ok c" using assms by (auto simp: canonical_source_label_def split: if_splits option.splits)
  let ?n = "normalize_separators s"
  obtain prefix rooted drive rest where pre: "path_prefix ?n = (prefix, rooted, drive, rest)" by (cases "path_prefix ?n")
  then obtain cs where cs: "path_components rooted (split_slash rest) [] = Ok cs"
    using p by (auto simp: canonical_path_def Let_def split: sum.splits)
  have "normal_components rooted cs \<and> length cs \<le> MAX_SOURCE_PATH_COMPONENTS"
    by (rule path_components_normal [OF cs]) (auto simp: normal_components_def dest: split_slash_clean)
  moreover have "c = (if join_components drive cs prefix = [] then (if rooted then ''/'' else ''.'') else join_components drive cs prefix)"
    "length c \<le> MAX_SOURCE_NAME_BYTES"
    using p pre cs by (auto simp: canonical_path_def Let_def split: if_splits)
  moreover have "c \<noteq> []" using calculation(2) by (auto split: if_splits)
  ultimately show ?thesis using pre by blast
qed

lemma canonical_label_normal_example:
  "canonical_source_label ''a/../../b'' = Ok ''../b'' \<and> length ''../b'' \<le> MAX_SOURCE_NAME_BYTES"
proof -
  have "canonical_source_label ''a/../../b'' = Ok ''../b''"
    by (simp add: label_eval)
  then show ?thesis using canonical_label_normal by blast
qed


end
