(* ===== verification/Test_Element.thy ===== *)
theory Test_Element
  imports Property_Validation Source_Location
begin

text \<open>
  Test elements (\<open>crates/model/src/element.rs\<close>) and the validation of whole test plans
  (\<open>IdentityTree<TestElement>\<close> of \<open>tree.rs\<close>): metadata, persistent and temporary properties, the
  running-version snapshot, edits that are undone when the element would leave its limits, and the
  bounded validation and semantic comparison of a tree of elements.
\<close>

section \<open>Elements\<close>

record element_metadata =
  em_test_class :: string
  em_gui_class :: string
  em_name :: string

record running_version =
  rv_metadata :: element_metadata
  rv_enabled :: bool
  rv_properties :: properties
  rv_temporary_properties :: properties
  rv_source_location :: source_location
  rv_opaque_extensions :: "opaque_value list"

record test_element =
  te_metadata :: element_metadata
  te_enabled :: bool
  te_properties :: properties
  te_temporary_properties :: properties
  te_source_location :: source_location
  te_opaque_extensions :: "opaque_value list"
  te_running_version :: "running_version option"

definition metadata_new :: "string \<Rightarrow> string \<Rightarrow> string \<Rightarrow> element_metadata" where
  "metadata_new test_class gui_class name =
     \<lparr>em_test_class = test_class, em_gui_class = gui_class, em_name = name\<rparr>"

fun first_empty :: "(metadata_field \<times> string) list \<Rightarrow> (model_validation_error, unit) result" where
  "first_empty [] = Ok ()"
| "first_empty ((field, v) # fs) = (if v = [] then Err (EmptyMetadata field) else first_empty fs)"

definition validate_nonempty :: "element_metadata \<Rightarrow> (model_validation_error, unit) result" where
  "validate_nonempty md =
     first_empty [(TestClass, em_test_class md), (GuiClass, em_gui_class md), (ElementName, em_name md)]"

definition metadata_try_new :: "string \<Rightarrow> string \<Rightarrow> string \<Rightarrow> (model_validation_error, element_metadata) result" where
  "metadata_try_new test_class gui_class name =
     (let md = metadata_new test_class gui_class name
      in case validate_nonempty md of Err e \<Rightarrow> Err e | Ok _ \<Rightarrow> Ok md)"

definition element_new :: "element_metadata \<Rightarrow> test_element" where
  "element_new md =
     \<lparr>te_metadata = md, te_enabled = True, te_properties = props_new, te_temporary_properties = props_new,
      te_source_location = location_unknown, te_opaque_extensions = [], te_running_version = None\<rparr>"

definition element_try_new :: "element_metadata \<Rightarrow> (model_validation_error, test_element) result" where
  "element_try_new md = (case validate_nonempty md of Err e \<Rightarrow> Err e | Ok _ \<Rightarrow> Ok (element_new md))"

definition set_enabled :: "bool \<Rightarrow> test_element \<Rightarrow> test_element" where
  "set_enabled b el = el\<lparr>te_enabled := b\<rparr>"

definition element_get_property :: "test_element \<Rightarrow> string \<Rightarrow> property_value option" where
  "element_get_property el name = props_get (te_properties el) name"

definition set_property :: "string \<Rightarrow> property_value \<Rightarrow> test_element \<Rightarrow> property_value option \<times> test_element" where
  "set_property name v el = (case props_insert name v (te_properties el) of (old, ps) \<Rightarrow> (old, el\<lparr>te_properties := ps\<rparr>))"

definition remove_property :: "string \<Rightarrow> test_element \<Rightarrow> property_value option \<times> test_element" where
  "remove_property name el = (case props_remove name (te_properties el) of (old, ps) \<Rightarrow> (old, el\<lparr>te_properties := ps\<rparr>))"

definition temporary_property :: "test_element \<Rightarrow> string \<Rightarrow> property_value option" where
  "temporary_property el name = props_get (te_temporary_properties el) name"

definition set_temporary_property :: "string \<Rightarrow> property_value \<Rightarrow> test_element \<Rightarrow> property_value option \<times> test_element" where
  "set_temporary_property name v el =
     (case props_insert name v (te_temporary_properties el) of (old, ps) \<Rightarrow> (old, el\<lparr>te_temporary_properties := ps\<rparr>))"

definition push_opaque_extension :: "opaque_value \<Rightarrow> test_element \<Rightarrow> test_element" where
  "push_opaque_extension v el = el\<lparr>te_opaque_extensions := te_opaque_extensions el @ [v]\<rparr>"

definition set_source_location :: "source_location \<Rightarrow> test_element \<Rightarrow> test_element" where
  "set_source_location sl el = el\<lparr>te_source_location := sl\<rparr>"

definition set_running_version :: "test_element \<Rightarrow> test_element" where
  "set_running_version el = el\<lparr>te_running_version := Some
     \<lparr>rv_metadata = te_metadata el, rv_enabled = te_enabled el, rv_properties = te_properties el,
      rv_temporary_properties = te_temporary_properties el, rv_source_location = te_source_location el,
      rv_opaque_extensions = te_opaque_extensions el\<rparr>\<rparr>"

definition recover_running_version :: "test_element \<Rightarrow> bool \<times> test_element" where
  "recover_running_version el =
     (case te_running_version el of
        None \<Rightarrow> (False, el)
      | Some s \<Rightarrow> (True, el\<lparr>te_metadata := rv_metadata s, te_enabled := rv_enabled s, te_properties := rv_properties s,
          te_temporary_properties := rv_temporary_properties s, te_source_location := rv_source_location s,
          te_opaque_extensions := rv_opaque_extensions s\<rparr>))"

section \<open>Validation\<close>

text \<open>
  A validation that runs the task loop: \<open>None\<close> when the loop does not end. \<open>and_loop\<close> is the \<open>?\<close>
  operator.
\<close>

type_synonym looping = "validation_state \<Rightarrow> accounted option"

definition and_loop :: "looping \<Rightarrow> looping \<Rightarrow> looping" where
  "and_loop m n st = (case m st of None \<Rightarrow> None | Some (Err e, st') \<Rightarrow> Some (Err e, st') | Some (Ok _, st') \<Rightarrow> n st')"

definition at_once :: "unit accounting \<Rightarrow> looping" where
  "at_once m st = Some (m st)"

fun validate_strings :: "string list \<Rightarrow> unit accounting" where
  "validate_strings [] = return_ok ()"
| "validate_strings (s # ss) = and_then (add_string_bytes (length s)) (\<lambda>_. validate_strings ss)"

definition metadata_validate_into :: "element_metadata \<Rightarrow> unit accounting" where
  "metadata_validate_into md =
     and_then (lift_result (validate_nonempty md)) (\<lambda>_.
     validate_strings [em_test_class md, em_gui_class md, em_name md])"

definition metadata_validate_with_limits :: "element_metadata \<Rightarrow> validation_limits \<Rightarrow> (model_validation_error, unit) result" where
  "metadata_validate_with_limits md l = fst (metadata_validate_into md (validation_state_new l))"

definition map_err :: "('e \<Rightarrow> 'f) \<Rightarrow> ('e, 'a) result \<Rightarrow> ('f, 'a) result" where
  "map_err f r = (case r of Err e \<Rightarrow> Err (f e) | Ok x \<Rightarrow> Ok x)"

fun validate_extensions :: "opaque_value list \<Rightarrow> unit accounting" where
  "validate_extensions [] = return_ok ()"
| "validate_extensions (x # xs) = and_then (opaque_charge x) (\<lambda>_. validate_extensions xs)"

definition validate_state_into ::
  "element_metadata \<Rightarrow> properties \<Rightarrow> properties \<Rightarrow> source_location \<Rightarrow> opaque_value list \<Rightarrow> looping" where
  "validate_state_into md ps temporary sl extensions =
     and_loop (at_once (and_then (metadata_validate_into md) (\<lambda>_.
       and_then (lift_result (map_err InvalidSourceLocation (location_validate sl))) (\<lambda>_.
       add_optional_text (sl_source sl)))))
     (and_loop (properties_validate_into ps 0)
     (and_loop (properties_validate_into temporary 0)
     (at_once (validate_extensions extensions))))"

definition element_validate_into :: "test_element \<Rightarrow> looping" where
  "element_validate_into el =
     and_loop (validate_state_into (te_metadata el) (te_properties el) (te_temporary_properties el)
         (te_source_location el) (te_opaque_extensions el))
       (case te_running_version el of
          None \<Rightarrow> at_once (return_ok ())
        | Some s \<Rightarrow> validate_state_into (rv_metadata s) (rv_properties s) (rv_temporary_properties s)
            (rv_source_location s) (rv_opaque_extensions s))"

definition element_validate_with_limits :: "test_element \<Rightarrow> validation_limits \<Rightarrow> (model_validation_error, unit) result option" where
  "element_validate_with_limits el l = map_option fst (element_validate_into el (validation_state_new l))"

section \<open>Checked edits\<close>

definition try_set_property ::
  "validation_limits \<Rightarrow> string \<Rightarrow> property_value \<Rightarrow> test_element \<Rightarrow>
   ((model_validation_error, property_value option) result \<times> test_element) option" where
  "try_set_property l name v el =
     (case set_property name v el of (previous, el') \<Rightarrow>
        (case element_validate_with_limits el' l of
           None \<Rightarrow> None
         | Some (Err e) \<Rightarrow>
             (case previous of
                Some w \<Rightarrow> Some (Err e, snd (set_property name w el'))
              | None \<Rightarrow> Some (Err e, snd (remove_property name el')))
         | Some (Ok _) \<Rightarrow> Some (Ok previous, el')))"

definition try_set_temporary_property ::
  "validation_limits \<Rightarrow> string \<Rightarrow> property_value \<Rightarrow> test_element \<Rightarrow>
   ((model_validation_error, property_value option) result \<times> test_element) option" where
  "try_set_temporary_property l name v el =
     (case set_temporary_property name v el of (previous, el') \<Rightarrow>
        (case element_validate_with_limits el' l of
           None \<Rightarrow> None
         | Some (Err e) \<Rightarrow>
             (case previous of
                Some w \<Rightarrow> Some (Err e, snd (set_temporary_property name w el'))
              | None \<Rightarrow> Some (Err e, el'\<lparr>te_temporary_properties := snd (props_remove name (te_temporary_properties el'))\<rparr>))
         | Some (Ok _) \<Rightarrow> Some (Ok previous, el')))"

definition try_push_opaque_extension ::
  "validation_limits \<Rightarrow> opaque_value \<Rightarrow> test_element \<Rightarrow> ((model_validation_error, unit) result \<times> test_element) option" where
  "try_push_opaque_extension l v el =
     (let el' = push_opaque_extension v el
      in case element_validate_with_limits el' l of
           None \<Rightarrow> None
         | Some (Err e) \<Rightarrow> Some (Err e, el'\<lparr>te_opaque_extensions := butlast (te_opaque_extensions el')\<rparr>)
         | Some (Ok _) \<Rightarrow> Some (Ok (), el'))"

section \<open>Trees of elements\<close>

partial_function (option) validate_nodes ::
  "test_element identity_tree \<Rightarrow> preorder_iter \<Rightarrow> validation_state \<Rightarrow> accounted option" where
  "validate_nodes t it st =
     (case iter_next t it of
        None \<Rightarrow> None
      | Some (None, it') \<Rightarrow> Some (Ok (), st)
      | Some (Some n, it') \<Rightarrow>
          (case element_validate_into (tn_value n) st of
             None \<Rightarrow> None
           | Some (Err e, st') \<Rightarrow> Some (Err e, st')
           | Some (Ok u, st') \<Rightarrow> validate_nodes t it' st'))"

definition tree_validate_with_limits :: "test_element identity_tree \<Rightarrow> validation_limits \<Rightarrow> (model_error, unit) result option" where
  "tree_validate_with_limits t l =
     (case validate_bounded t l of
        None \<Rightarrow> None
      | Some (Err e) \<Rightarrow> Some (Err e)
      | Some (Ok _) \<Rightarrow> map_option (\<lambda>r. map_err ValidationFailure (fst r)) (validate_nodes t iter_preorder (validation_state_new l)))"

definition element_semantic_eq :: "test_element \<Rightarrow> test_element \<Rightarrow> bool option" where
  "element_semantic_eq l r =
     (if te_metadata l = te_metadata r \<and> te_enabled l = te_enabled r then
        (case properties_semantic_eq (te_properties l) (te_properties r) of
           None \<Rightarrow> None
         | Some b \<Rightarrow> Some (b \<and> te_opaque_extensions l = te_opaque_extensions r))
      else Some False)"

text \<open>\<open>Iterator::all\<close> over the nodes: the first one that differs ends the comparison.\<close>

fun nodes_semantic_eq ::
  "test_element identity_tree \<Rightarrow> (node_id \<times> test_element tree_node) list \<Rightarrow> bool option" where
  "nodes_semantic_eq t [] = Some True"
| "nodes_semantic_eq t ((i, n) # ns) =
     (case tree_get t i of
        None \<Rightarrow> Some False
      | Some candidate \<Rightarrow>
          if tn_parent n = tn_parent candidate \<and> tn_children n = tn_children candidate then
            (case element_semantic_eq (tn_value n) (tn_value candidate) of
               None \<Rightarrow> None
             | Some b \<Rightarrow> if b then nodes_semantic_eq t ns else Some False)
          else Some False)"

definition tree_semantic_eq :: "test_element identity_tree \<Rightarrow> test_element identity_tree \<Rightarrow> bool option" where
  "tree_semantic_eq l r =
     (if it_roots l \<noteq> it_roots r \<or> length (it_nodes l) \<noteq> length (it_nodes r) then Some False
      else nodes_semantic_eq r (it_nodes l))"

section \<open>Validation runs the charges of the elements\<close>

definition metadata_charges :: "element_metadata \<Rightarrow> charge list" where
  "metadata_charges md =
     [Requires (em_test_class md \<noteq> []) (EmptyMetadata TestClass), Requires (em_gui_class md \<noteq> []) (EmptyMetadata GuiClass),
      Requires (em_name md \<noteq> []) (EmptyMetadata ElementName),
      TextBytes (length (em_test_class md)), TextBytes (length (em_gui_class md)), TextBytes (length (em_name md))]"

definition location_charges :: "source_location \<Rightarrow> charge list" where
  "location_charges sl =
     (case location_validate sl of Ok _ \<Rightarrow> [] | Err e \<Rightarrow> [Requires False (InvalidSourceLocation e)]) @ class_charges (sl_source sl)"

definition state_charges ::
  "element_metadata \<Rightarrow> properties \<Rightarrow> properties \<Rightarrow> source_location \<Rightarrow> opaque_value list \<Rightarrow> charge list" where
  "state_charges md ps temporary sl extensions = metadata_charges md @ location_charges sl @
     properties_charges 0 ps @ properties_charges 0 temporary @ concat (map opaque_charges extensions)"

definition test_element_charges :: "test_element \<Rightarrow> charge list" where
  "test_element_charges el =
     state_charges (te_metadata el) (te_properties el) (te_temporary_properties el) (te_source_location el) (te_opaque_extensions el) @
     (case te_running_version el of
        None \<Rightarrow> []
      | Some s \<Rightarrow> state_charges (rv_metadata s) (rv_properties s) (rv_temporary_properties s) (rv_source_location s)
          (rv_opaque_extensions s))"

definition test_element_sized :: "test_element \<Rightarrow> bool" where
  "test_element_sized el \<longleftrightarrow> properties_sized (te_properties el) \<and> properties_sized (te_temporary_properties el) \<and>
     (\<forall>s. te_running_version el = Some s \<longrightarrow> properties_sized (rv_properties s) \<and> properties_sized (rv_temporary_properties s))"

definition runs :: "looping \<Rightarrow> charge list \<Rightarrow> bool" where
  "runs m cs \<longleftrightarrow> (\<forall>st. m st = Some (account cs st))"

lemma runs_at_once: "m = account cs \<Longrightarrow> runs (at_once m) cs"
  by (simp add: runs_def at_once_def)

lemma runs_and_loop: "runs m cs \<Longrightarrow> runs n ds \<Longrightarrow> runs (and_loop m n) (cs @ ds)"
  by (auto simp: runs_def and_loop_def account_append and_then_def split: prod.splits sum.splits)

lemma runs_properties:
  assumes "properties_sized ps"
  shows "runs (properties_validate_into ps d) (properties_charges d ps)"
  unfolding runs_def
proof
  fix st
  have stop: "validate_property_tasks [] st = Some (Ok (), st)" for st
    by (simp add: validate_property_tasks_def validate_pass_def)
  show "properties_validate_into ps d st = Some (account (properties_charges d ps) st)"
    using validation_tasks(4) [OF assms, of d]
    by (auto simp: performs_def properties_validate_into_def stop split: prod.splits sum.splits)
qed

lemma account_extensions: "validate_extensions xs = account (concat (map opaque_charges xs))"
  by (induction xs) (simp_all add: account_append account_opaque)

lemma account_metadata: "metadata_validate_into md = account (metadata_charges md)"
  by (auto simp: metadata_validate_into_def metadata_charges_def validate_nonempty_def and_then_def lift_result_def fun_eq_iff
      return_err_def)

lemma account_location:
  "and_then (lift_result (map_err InvalidSourceLocation (location_validate sl))) (\<lambda>_. add_optional_text (sl_source sl)) =
    account (location_charges sl)"
  by (cases "location_validate sl")
    (simp_all add: location_charges_def map_err_def account_append account_class fun_eq_iff and_then_def return_err_def)

lemma runs_state:
  assumes "properties_sized ps" and "properties_sized temporary"
  shows "runs (validate_state_into md ps temporary sl xs) (state_charges md ps temporary sl xs)"
proof -
  have "runs (validate_state_into md ps temporary sl xs)
    ((metadata_charges md @ location_charges sl) @ properties_charges 0 ps @ properties_charges 0 temporary @ concat (map opaque_charges xs))"
    unfolding validate_state_into_def
    by (intro runs_and_loop runs_properties assms runs_at_once)
      (simp_all add: account_append account_metadata account_location account_extensions)
  then show ?thesis by (simp add: state_charges_def)
qed

lemma runs_element: "test_element_sized el \<Longrightarrow> runs (element_validate_into el) (test_element_charges el)"
  unfolding element_validate_into_def test_element_charges_def
  by (intro runs_and_loop runs_state) (auto simp: test_element_sized_def intro: runs_at_once runs_state split: option.split)

lemma demands_state: "demands_ok (state_charges md ps temporary sl xs)"
  by (auto simp: state_charges_def metadata_charges_def location_charges_def demands_charges split: sum.split)

lemma demands_element: "demands_ok (test_element_charges el)"
  by (simp add: test_element_charges_def demands_state split: option.split)

lemma runs_nodes:
  assumes "iter_collect t it = Some ns" and "\<forall>n \<in> set ns. test_element_sized (tn_value n)"
  shows "runs (validate_nodes t it) (concat (map (\<lambda>n. test_element_charges (tn_value n)) ns))"
  using assms
proof (induction ns arbitrary: it)
  case Nil
  then obtain it' where "iter_next t it = Some (None, it')"
    by (subst (asm) iter_collect.simps) (auto split: bind_splits option.splits prod.splits)
  then show ?case by (simp add: runs_def validate_nodes.simps)
next
  case (Cons n ns)
  then obtain it' where it: "iter_next t it = Some (Some n, it')" "iter_collect t it' = Some ns"
    by (subst (asm) (2) iter_collect.simps) (auto split: bind_splits option.splits prod.splits)
  have "runs (validate_nodes t it') (concat (map (\<lambda>n. test_element_charges (tn_value n)) ns))" using Cons it by simp
  moreover have "runs (element_validate_into (tn_value n)) (test_element_charges (tn_value n))" using Cons runs_element by simp
  ultimately show ?case
    by (auto simp: runs_def validate_nodes.simps [of t it] it account_append and_then_def split: prod.splits sum.splits)
qed

section \<open>Edits are transactions\<close>

text \<open>
  The contract of an edit with an undo operation, and what a checked edit gives its caller: it either
  commits an edit that passes the check, or fails and leaves the state as it was.
\<close>

locale transaction =
  fixes edit :: "'s \<Rightarrow> 'r \<times> 's"
    and undo :: "'r \<Rightarrow> 's \<Rightarrow> 's"
  assumes undo_edit: "edit s = (r, s') \<Longrightarrow> undo r s' = s"
begin

definition checked :: "('s \<Rightarrow> ('e, unit) result option) \<Rightarrow> 's \<Rightarrow> (('e, 'r) result \<times> 's) option" where
  "checked check s =
     (case edit s of (r, s') \<Rightarrow>
        (case check s' of
           None \<Rightarrow> None
         | Some (Err e) \<Rightarrow> Some (Err e, undo r s')
         | Some (Ok _) \<Rightarrow> Some (Ok r, s')))"

lemma checked_cases:
  "checked check s =
     (case check (snd (edit s)) of
        None \<Rightarrow> None
      | Some (Err e) \<Rightarrow> Some (Err e, s)
      | Some (Ok _) \<Rightarrow> Some (Ok (fst (edit s)), snd (edit s)))"
  using undo_edit [of s] by (cases "edit s") (simp add: checked_def split: option.split sum.split)

lemma checked_outcome:
  assumes "check (snd (edit s)) = Some c"
  obtains e where "checked check s = Some (Err e, s)" "check (snd (edit s)) = Some (Err e)"
  | r s' where "checked check s = Some (Ok r, s')" "edit s = (r, s')" "check s' = Some (Ok ())"
  using that assms by (cases c; cases "edit s") (auto simp: checked_cases)

end

interpretation persistent: transaction "set_property name v"
  "\<lambda>old el. case old of Some w \<Rightarrow> snd (set_property name w el) | None \<Rightarrow> snd (remove_property name el)" for name v
proof
  fix s r s' assume "set_property name v s = (r, s')"
  then obtain ps where ps: "props_insert name v (te_properties s) = (r, ps)" "s' = s\<lparr>te_properties := ps\<rparr>"
    by (auto simp: set_property_def split: prod.splits)
  show "(case r of Some w \<Rightarrow> snd (set_property name w s') | None \<Rightarrow> snd (remove_property name s')) = s"
    using ps ps.rollback_put [OF ps(1)]
    by (auto simp: set_property_def remove_property_def ps.rollback_def split: option.splits prod.splits)
qed

interpretation temporary: transaction "set_temporary_property name v"
  "\<lambda>old el. case old of Some w \<Rightarrow> snd (set_temporary_property name w el)
    | None \<Rightarrow> el\<lparr>te_temporary_properties := snd (props_remove name (te_temporary_properties el))\<rparr>" for name v
proof
  fix s r s' assume "set_temporary_property name v s = (r, s')"
  then obtain ps where ps: "props_insert name v (te_temporary_properties s) = (r, ps)" "s' = s\<lparr>te_temporary_properties := ps\<rparr>"
    by (auto simp: set_temporary_property_def split: prod.splits)
  show "(case r of Some w \<Rightarrow> snd (set_temporary_property name w s')
      | None \<Rightarrow> s'\<lparr>te_temporary_properties := snd (props_remove name (te_temporary_properties s'))\<rparr>) = s"
    using ps ps.rollback_put [OF ps(1)]
    by (auto simp: set_temporary_property_def ps.rollback_def split: option.splits prod.splits)
qed

interpretation extension: transaction "\<lambda>el. ((), push_opaque_extension v el)"
  "\<lambda>_ el. el\<lparr>te_opaque_extensions := butlast (te_opaque_extensions el)\<rparr>" for v
  by unfold_locales (auto simp: push_opaque_extension_def)

lemma try_set_property_checked:
  "try_set_property l name v el = persistent.checked name v (\<lambda>el. element_validate_with_limits el l) el"
  by (simp add: try_set_property_def persistent.checked_def split: prod.split option.split sum.split)

lemma try_set_temporary_property_checked:
  "try_set_temporary_property l name v el = temporary.checked name v (\<lambda>el. element_validate_with_limits el l) el"
  by (simp add: try_set_temporary_property_def temporary.checked_def split: prod.split option.split sum.split)

lemma try_push_opaque_extension_checked:
  "try_push_opaque_extension l v el = extension.checked v (\<lambda>el. element_validate_with_limits el l) el"
  by (simp add: try_push_opaque_extension_def extension.checked_def Let_def split: option.split sum.split)

lemma recover_after_set: "recover_running_version (set_running_version el) = (True, set_running_version el)"
  by (cases el) (simp add: recover_running_version_def set_running_version_def)

section \<open>Comparison\<close>

lemma element_semantic_eq_canon:
  "properties_sized (te_properties l) \<Longrightarrow> element_semantic_eq l r =
    Some (te_metadata l = te_metadata r \<and> te_enabled l = te_enabled r \<and>
      canon_properties (te_properties l) = canon_properties (te_properties r) \<and> te_opaque_extensions l = te_opaque_extensions r)"
  by (auto simp: element_semantic_eq_def properties_semantic_eq_canon)

text \<open>Running-version snapshots, temporary properties and source locations do not matter.\<close>

lemma nodes_semantic_eq_all:
  assumes "\<forall>(i, n) \<in> set ns. properties_sized (te_properties (tn_value n))"
  shows "nodes_semantic_eq t ns = Some (\<forall>(i, n) \<in> set ns. \<exists>c. tree_get t i = Some c \<and> tn_parent n = tn_parent c \<and>
    tn_children n = tn_children c \<and> element_semantic_eq (tn_value n) (tn_value c) = Some True)"
  using assms by (induction t ns rule: nodes_semantic_eq.induct) (auto simp: element_semantic_eq_canon split: option.splits)

section \<open>Properties\<close>

lemma element_validation:
  "test_element_sized el \<Longrightarrow> element_validate_with_limits el l = Some (fst (account (test_element_charges el) (validation_state_new l)))"
  using runs_element [of el] by (simp add: element_validate_with_limits_def runs_def)

lemma get_after_set:
  "set_property name v el = (old, el') \<Longrightarrow> old = element_get_property el name \<and>
    (\<forall>j. element_get_property el' j = (if j = name then Some v else element_get_property el j))"
  using ps.put_old [of name v "te_properties el"] ps.get_put [of name v "te_properties el"]
  by (auto simp: set_property_def element_get_property_def split: prod.splits)

lemma get_after_set_temporary:
  "set_temporary_property name v el = (old, el') \<Longrightarrow> old = temporary_property el name \<and>
    (\<forall>j. temporary_property el' j = (if j = name then Some v else temporary_property el j))"
  using ps.put_old [of name v "te_temporary_properties el"] ps.get_put [of name v "te_temporary_properties el"]
  by (auto simp: set_temporary_property_def temporary_property_def split: prod.splits)

lemma replace_value_sized:
  "replace_value name v es = Some (old, fs) \<Longrightarrow> value_sized v \<Longrightarrow> \<forall>e \<in> set es. entry_sized e \<Longrightarrow>
    length fs = length es \<and> (\<forall>e \<in> set fs. entry_sized e)"
  by (induction es arbitrary: fs) (auto split: if_splits)

lemma insert_sized:
  "properties_sized ps \<Longrightarrow> value_sized v \<Longrightarrow> props_len ps < usize_max \<Longrightarrow> properties_sized (snd (props_insert name v ps))"
  by (cases ps) (auto simp: props_insert_def props_len_def dest: replace_value_sized split: option.splits)

lemma edited_sized:
  "test_element_sized el \<Longrightarrow> value_sized v \<Longrightarrow> props_len (te_properties el) < usize_max \<Longrightarrow>
    test_element_sized (snd (set_property name v el))"
  "test_element_sized el \<Longrightarrow> value_sized v \<Longrightarrow> props_len (te_temporary_properties el) < usize_max \<Longrightarrow>
    test_element_sized (snd (set_temporary_property name v el))"
  using insert_sized [of "te_properties el" v name] insert_sized [of "te_temporary_properties el" v name]
  by (auto simp: test_element_sized_def set_property_def set_temporary_property_def split: prod.splits)

definition tiny_limits :: validation_limits where
  "tiny_limits = validation_limits_small\<lparr>max_string_bytes := 3\<rparr>"

definition tiny_element :: test_element where
  "tiny_element = element_new (metadata_new ''T'' ''G'' ''n'')"

lemma tiny_edit: "try_set_property tiny_limits ''p'' PNull tiny_element = Some (Err (LimitExceeded StringBytes 3 4), tiny_element)"
proof -
  have "test_element_sized (snd (set_property ''p'' PNull tiny_element))"
    by (simp add: tiny_element_def element_new_def set_property_def props_insert_def props_new_def test_element_sized_def usize_max_def)
  then show ?thesis
    unfolding try_set_property_checked persistent.checked_cases
    by (simp add: element_validation)
      (simp add: tiny_element_def element_new_def set_property_def props_insert_def props_new_def test_element_charges_def
        state_charges_def metadata_charges_def metadata_new_def location_charges_def location_validate_def location_unknown_def
        class_charges_def guard_names_def fresh_name_def tiny_limits_def validation_limits_small_def validation_state_new_def
        add_string_bytes_def add_property_def add_properties_def check_depth_def checked_total_def and_then_def usize_max_def)
qed

text \<open>C12: Checked edits are transactions. Setting a persistent or temporary property, or appending an
  extension, under limits always returns. It fails exactly when the edited element does not pass
  validation, with that error, and leaves the whole element as it was, with the position of every
  property; otherwise it commits: the element passes validation, lookups see the new value and all the
  old ones, and the previous value is returned.\<close>

theorem checked_edits_are_transactions:
  assumes "test_element_sized el" and "value_sized v"
    and "props_len (te_properties el) < usize_max" and "props_len (te_temporary_properties el) < usize_max"
  shows "(\<exists>r el'. try_set_property l name v el = Some (r, el') \<and>
      (case r of Err e \<Rightarrow> el' = el \<and> element_validate_with_limits (snd (set_property name v el)) l = Some (Err e)
       | Ok old \<Rightarrow> element_validate_with_limits el' l = Some (Ok ()) \<and> old = element_get_property el name \<and>
           (\<forall>j. element_get_property el' j = (if j = name then Some v else element_get_property el j)))) \<and>
   (\<exists>r el'. try_set_temporary_property l name v el = Some (r, el') \<and>
      (case r of Err e \<Rightarrow> el' = el \<and> element_validate_with_limits (snd (set_temporary_property name v el)) l = Some (Err e)
       | Ok old \<Rightarrow> element_validate_with_limits el' l = Some (Ok ()) \<and> old = temporary_property el name \<and>
           (\<forall>j. temporary_property el' j = (if j = name then Some v else temporary_property el j)))) \<and>
   (\<exists>r el'. try_push_opaque_extension l x el = Some (r, el') \<and>
      (case r of Err e \<Rightarrow> el' = el \<and> element_validate_with_limits (push_opaque_extension x el) l = Some (Err e)
       | Ok _ \<Rightarrow> element_validate_with_limits el' l = Some (Ok ()) \<and> te_opaque_extensions el' = te_opaque_extensions el @ [x]))"
proof (intro conjI)
  obtain c where "element_validate_with_limits (snd (set_property name v el)) l = Some c"
    using element_validation edited_sized(1) [OF assms(1-3)] by blast
  then show "\<exists>r el'. try_set_property l name v el = Some (r, el') \<and>
      (case r of Err e \<Rightarrow> el' = el \<and> element_validate_with_limits (snd (set_property name v el)) l = Some (Err e)
       | Ok old \<Rightarrow> element_validate_with_limits el' l = Some (Ok ()) \<and> old = element_get_property el name \<and>
           (\<forall>j. element_get_property el' j = (if j = name then Some v else element_get_property el j)))"
    unfolding try_set_property_checked by (rule persistent.checked_outcome) (auto dest: get_after_set)
next
  obtain c where "element_validate_with_limits (snd (set_temporary_property name v el)) l = Some c"
    using element_validation edited_sized(2) [OF assms(1,2,4)] by blast
  then show "\<exists>r el'. try_set_temporary_property l name v el = Some (r, el') \<and>
      (case r of Err e \<Rightarrow> el' = el \<and> element_validate_with_limits (snd (set_temporary_property name v el)) l = Some (Err e)
       | Ok old \<Rightarrow> element_validate_with_limits el' l = Some (Ok ()) \<and> old = temporary_property el name \<and>
           (\<forall>j. temporary_property el' j = (if j = name then Some v else temporary_property el j)))"
    unfolding try_set_temporary_property_checked by (rule temporary.checked_outcome) (auto dest: get_after_set_temporary)
next
  obtain c where "element_validate_with_limits (snd ((), push_opaque_extension x el)) l = Some c"
    using element_validation [of "push_opaque_extension x el" l] assms(1) by (simp add: test_element_sized_def push_opaque_extension_def)
  then show "\<exists>r el'. try_push_opaque_extension l x el = Some (r, el') \<and>
      (case r of Err e \<Rightarrow> el' = el \<and> element_validate_with_limits (push_opaque_extension x el) l = Some (Err e)
       | Ok _ \<Rightarrow> element_validate_with_limits el' l = Some (Ok ()) \<and> te_opaque_extensions el' = te_opaque_extensions el @ [x])"
    unfolding try_push_opaque_extension_checked by (rule extension.checked_outcome) (auto simp: push_opaque_extension_def)
qed

theorem checked_edits_are_transactions_witness:
  "test_element_sized tiny_element \<and> try_set_property tiny_limits ''p'' PNull tiny_element = Some (Err (LimitExceeded StringBytes 3 4), tiny_element) \<and>
   element_validate_with_limits (snd (set_property ''p'' PNull tiny_element)) tiny_limits = Some (Err (LimitExceeded StringBytes 3 4))"
proof -
  have sized: "test_element_sized tiny_element" "value_sized PNull" "props_len (te_properties tiny_element) < usize_max"
      "props_len (te_temporary_properties tiny_element) < usize_max"
    by (simp_all add: tiny_element_def element_new_def props_new_def props_len_def test_element_sized_def usize_max_def)
  show ?thesis
    using checked_edits_are_transactions [OF sized, of tiny_limits "''p''"] tiny_edit sized(1) by (auto split: sum.splits)
qed

definition tiny_plan :: "test_element identity_tree" where
  "tiny_plan = \<lparr>it_nodes = flats None [Rose 1 tiny_element []], it_roots = [1], it_next_id = Some 2\<rparr>"

lemma tiny_plan_represents: "represents tiny_plan [Rose 1 tiny_element []]"
  by (auto simp: represents_def tiny_plan_def entries_def allocator_ok_def bm_ok_def u64_max_def)

text \<open>C11: Validation of a test plan is exact. For a tree of elements that represents a forest, the
  validation ends. It accepts exactly when the number of nodes and levels is allowed, every element has
  its metadata and a valid location, no property collection repeats a name, no property is nested too
  deep, and the properties, text bytes and payload bytes of all elements together, their snapshots
  included, are within the limits. Every rejection states a true reason.\<close>

theorem plan_validation_exact:
  assumes "represents t ts" and "tree_len t \<le> usize_max" and "limits_sized l"
    and "\<forall>n \<in> set (map snd (flats None ts)). test_element_sized (tn_value n)"
  defines "cs \<equiv> concat (map (\<lambda>n. test_element_charges (tn_value n)) (map snd (flats None ts)))"
  shows "\<exists>r. tree_validate_with_limits t l = Some r \<and>
    (r = Ok () \<longleftrightarrow> tree_len t \<le> max_nodes l \<and> forest_levels ts \<le> max_tree_depth l + 1 \<and> affordable (validation_state_new l) cs) \<and>
    (\<forall>e. r = Err e \<longrightarrow>
      e = ValidationFailure (LimitExceeded Nodes (max_nodes l) (tree_len t)) \<and> max_nodes l < tree_len t \<or>
      e = ValidationFailure (LimitExceeded TreeDepth (max_tree_depth l) (max_tree_depth l + 1)) \<and> max_tree_depth l + 1 < forest_levels ts \<or>
      (\<exists>v. e = ValidationFailure v \<and> explains (validation_state_new l) cs v))"
proof -
  have "runs (validate_nodes t iter_preorder) cs"
    unfolding cs_def by (rule runs_nodes [OF collect_is_preorder [OF assms(1,2)] assms(4)])
  then have nodes: "validate_nodes t iter_preorder st = Some (account cs st)" for st by (simp add: runs_def)
  have "demands_ok cs" by (auto simp: cs_def demands_element)
  note exact = account_exact [OF new_state_ok [OF assms(3)] this]
  have b: "validate_bounded t l =
      Some (if max_nodes l < tree_len t then Err (ValidationFailure (LimitExceeded Nodes (max_nodes l) (tree_len t)))
        else if Suc (max_tree_depth l) < forest_levels ts
        then Err (ValidationFailure (LimitExceeded TreeDepth (max_tree_depth l) (Suc (max_tree_depth l)))) else Ok ())"
    by (simp add: validate_bounded_def represents_validate [OF assms(1)] validate_tree_depth_eq [OF assms(1,2)])
  show ?thesis
  proof (cases "max_nodes l < tree_len t \<or> Suc (max_tree_depth l) < forest_levels ts")
    case True
    then show ?thesis by (auto simp: tree_validate_with_limits_def b)
  next
    case False
    then have "tree_validate_with_limits t l = Some (map_err ValidationFailure (fst (account cs (validation_state_new l))))"
      by (simp add: tree_validate_with_limits_def b nodes)
    then show ?thesis using False exact by (auto simp: map_err_def not_less split: if_splits)
  qed
qed

theorem plan_validation_exact_witness:
  "tree_validate_with_limits tiny_plan tiny_limits = Some (Ok ())"
proof -
  let ?ts = "[Rose 1 tiny_element []]"
  let ?cs = "concat (map (\<lambda>n. test_element_charges (tn_value n)) (map snd (flats None ?ts)))"
  have h: "tree_len tiny_plan \<le> usize_max" "limits_sized tiny_limits"
    "\<forall>n \<in> set (map snd (flats None ?ts)). test_element_sized (tn_value n)"
    by (simp_all add: tree_len_def tiny_plan_def usize_max_def limits_sized_def tiny_limits_def validation_limits_small_def
        test_element_sized_def tiny_element_def element_new_def props_new_def)
  have "tree_len tiny_plan \<le> max_nodes tiny_limits" "forest_levels ?ts \<le> max_tree_depth tiny_limits + 1"
    "affordable (validation_state_new tiny_limits) ?cs"
    by (simp_all add: tree_len_def tiny_plan_def tiny_limits_def validation_limits_small_def affordable_def
        validation_state_new_def tiny_element_def element_new_def props_new_def test_element_charges_def state_charges_def
        metadata_charges_def metadata_new_def location_charges_def location_validate_def location_unknown_def class_charges_def
        guard_names_def)
  then show ?thesis using plan_validation_exact [OF tiny_plan_represents h] by fastforce
qed

end
