(* ===== verification/Node_Identity.thy ===== *)
theory Node_Identity
  imports Identity_Tree Bridge_Wire
begin

text \<open>
  Document-local node identities (\<open>crates/model/src/id.rs\<close>): the checked constructors and arithmetic that
  never produce the unassigned value zero, and the fixed-width wire form.
\<close>

definition NODE_ID_WIRE_BYTES :: usize where
  "NODE_ID_WIRE_BYTES = 8"

definition node_id_first :: node_id where
  "node_id_first = 1"

definition node_id_try_new :: "u64 \<Rightarrow> node_id option" where
  "node_id_try_new raw = (if raw = 0 then None else Some raw)"

definition node_id_is_zero :: "node_id \<Rightarrow> bool" where
  "node_id_is_zero i \<longleftrightarrow> i = 0"

definition node_id_to_be_bytes :: "node_id \<Rightarrow> bytes" where
  "node_id_to_be_bytes i = to_be_bytes NODE_ID_WIRE_BYTES i"

definition node_id_from_be_bytes :: "bytes \<Rightarrow> node_id" where
  "node_id_from_be_bytes bs = from_be_bytes bs"

definition node_id_try_from_be_bytes :: "bytes \<Rightarrow> node_id option" where
  "node_id_try_from_be_bytes bs = node_id_try_new (from_be_bytes bs)"

definition node_id_checked_add :: "node_id \<Rightarrow> u64 \<Rightarrow> node_id option" where
  "node_id_checked_add i off =
     (case checked_add u64_max i off of Some raw \<Rightarrow> node_id_try_new raw | None \<Rightarrow> None)"

definition node_id_checked_next :: "node_id \<Rightarrow> node_id option" where
  "node_id_checked_next i = node_id_checked_add i 1"

text \<open>The wire form is lossless on machine-sized identities and on arrays of eight bytes.\<close>

lemma node_id_wire_round_trip:
  "i \<le> u64_max \<Longrightarrow> node_id_from_be_bytes (node_id_to_be_bytes i) = i"
  "length bs = NODE_ID_WIRE_BYTES \<Longrightarrow> node_id_to_be_bytes (node_id_from_be_bytes bs) = bs"
  by (simp_all add: node_id_from_be_bytes_def node_id_to_be_bytes_def NODE_ID_WIRE_BYTES_def from_to_be_bytes u64_max_def)
    (metis to_from_be_bytes)

text \<open>Checked arithmetic stays assigned and inside the identity space, and fails for no other reason.\<close>

lemma node_id_checked_add_eq:
  "node_id_checked_add i off = Some j \<longleftrightarrow> j = i + off \<and> 0 < j \<and> j \<le> u64_max"
  by (auto simp: node_id_checked_add_def node_id_try_new_def split: option.splits)

lemma node_id_checked_next_greater: "node_id_checked_next i = Some j \<Longrightarrow> i < j"
  by (simp add: node_id_checked_next_def node_id_checked_add_eq)

end
