(* ===== verification/Cancellation_Token.thy ===== *)
theory Cancellation_Token
  imports Control_Signal "HOL-Library.Multiset"
begin

text \<open>
  The cancellation tokens of \<open>crates/runtime/src/scheduler.rs\<close>: shared test-stop severity, per-user
  stop, next-loop and wake-readiness bits, and the bounded registry of executor wakers with one
  subscription per user token.

  A Rust token is a bundle of \<open>Arc\<close> pointers. The store makes the sharing explicit: one shared part
  and one cell per token made by \<open>new\<close>, \<open>clone_for_user\<close> or \<open>child\<close>; a token value is the index of
  its cell (\<open>Clone\<close> copies the index). The local owner \<open>Arc\<close> of a token is alive as long as its
  cell is (\<open>tk_live\<close>), which is what \<open>Weak::strong_count\<close> reads. Executor wakers are known by their
  identity (the data/vtable pair); \<open>st_woken\<close> is the sequence of \<open>Waker::wake\<close> calls so far.
\<close>

section \<open>Tokens\<close>

type_synonym token = nat
type_synonym waker = nat

record token_cell =
  tk_thread_stop :: bool
  tk_next_loop :: bool
  tk_wake_ready :: bool
  tk_generation :: u64
  tk_live :: bool

record registered_waker =
  rw_identity :: waker
  rw_owners :: "token list"

record token_store =
  st_stop :: nat
  st_generation :: u64
  st_wakers :: "registered_waker list"
  st_tokens :: "token_cell list"
  st_woken :: "waker list"

definition MAX_SCHEDULED_WAKEUPS :: usize where
  "MAX_SCHEDULED_WAKEUPS = 65536"

definition fresh_cell :: token_cell where
  "fresh_cell = \<lparr>tk_thread_stop = False, tk_next_loop = False, tk_wake_ready = False,
     tk_generation = 0, tk_live = True\<rparr>"

definition token_new :: "token_store \<times> token" where
  "token_new = (\<lparr>st_stop = signal_as_u8 Continue, st_generation = 0, st_wakers = [],
     st_tokens = [fresh_cell], st_woken = []\<rparr>, 0)"

definition token_clone_for_user :: "token_store \<Rightarrow> token_store \<times> token" where
  "token_clone_for_user st = (st\<lparr>st_tokens := st_tokens st @ [fresh_cell]\<rparr>, length (st_tokens st))"

definition token_child :: "token_store \<Rightarrow> token_store \<times> token" where
  "token_child st = (st\<lparr>st_tokens := st_tokens st @ [fresh_cell]\<rparr>, length (st_tokens st))"

definition update_token :: "token \<Rightarrow> (token_cell \<Rightarrow> token_cell) \<Rightarrow> token_store \<Rightarrow> token_store" where
  "update_token k f st = st\<lparr>st_tokens := (st_tokens st)[k := f (st_tokens st ! k)]\<rparr>"

text \<open>The last handle of a token goes away.\<close>

definition token_drop :: "token \<Rightarrow> token_store \<Rightarrow> token_store" where
  "token_drop k = update_token k (\<lambda>c. c\<lparr>tk_live := False\<rparr>)"

definition owner_alive :: "token_store \<Rightarrow> token \<Rightarrow> bool" where
  "owner_alive st k \<longleftrightarrow> k < length (st_tokens st) \<and> tk_live (st_tokens st ! k)"

definition owner_matches :: "token_store \<Rightarrow> token \<Rightarrow> token \<Rightarrow> bool" where
  "owner_matches st owner expected \<longleftrightarrow> owner_alive st owner \<and> owner = expected"

section \<open>Waking\<close>

definition bump_generation :: "token_store \<Rightarrow> token_store" where
  "bump_generation st =
     (case checked_add u64_max (st_generation st) 1 of
        Some g \<Rightarrow> st\<lparr>st_generation := g\<rparr>
      | None \<Rightarrow> st)"

definition bump_local_generation :: "token \<Rightarrow> token_store \<Rightarrow> token_store" where
  "bump_local_generation k st =
     (case checked_add u64_max (tk_generation (st_tokens st ! k)) 1 of
        Some g \<Rightarrow> update_token k (\<lambda>c. c\<lparr>tk_generation := g\<rparr>) st
      | None \<Rightarrow> st)"

definition wake_all :: "token_store \<Rightarrow> token_store" where
  "wake_all st = st\<lparr>st_wakers := [], st_woken := st_woken st @ map rw_identity (st_wakers st)\<rparr>"

text \<open>\<open>Vec::swap_remove\<close>: the last element takes the place of the removed one.\<close>

definition swap_remove :: "nat \<Rightarrow> 'a list \<Rightarrow> 'a list" where
  "swap_remove i xs = butlast (xs[i := last xs])"

lemma length_swap_remove [simp]: "length (swap_remove i xs) = length xs - 1"
  by (simp add: swap_remove_def)

definition retain_live :: "token_store \<Rightarrow> registered_waker \<Rightarrow> registered_waker" where
  "retain_live st r = r\<lparr>rw_owners := filter (owner_alive st) (rw_owners r)\<rparr>"

definition has_owner :: "token_store \<Rightarrow> token \<Rightarrow> registered_waker \<Rightarrow> bool" where
  "has_owner st k r \<longleftrightarrow> (\<exists>owner \<in> set (rw_owners r). owner_matches st owner k)"

definition drop_owner :: "token_store \<Rightarrow> token \<Rightarrow> registered_waker \<Rightarrow> registered_waker" where
  "drop_owner st k r = r\<lparr>rw_owners := filter (\<lambda>owner. \<not> owner_matches st owner k) (rw_owners r)\<rparr>"

text \<open>The index loop of \<open>wake_local\<close>: a registration that loses its last owner is swapped out.\<close>

function wake_local_loop ::
  "token_store \<Rightarrow> token \<Rightarrow> nat \<Rightarrow> registered_waker list \<Rightarrow> waker list \<Rightarrow> registered_waker list \<times> waker list" where
  "wake_local_loop st k index regs wakers =
     (if index < length regs then
        (let r = retain_live st (regs ! index);
             wakers' = (if has_owner st k r then wakers @ [rw_identity r] else wakers);
             r' = (if has_owner st k r then drop_owner st k r else r);
             regs' = regs[index := r']
         in if rw_owners r' = [] then wake_local_loop st k index (swap_remove index regs') wakers'
            else wake_local_loop st k (index + 1) regs' wakers')
      else (regs, wakers))"
  by pat_completeness auto
termination
  by (relation "measure (\<lambda>(_, _, index, regs, _). length regs - index)") (auto simp: Let_def)

declare wake_local_loop.simps [simp del]

definition wake_local :: "token \<Rightarrow> token_store \<Rightarrow> token_store" where
  "wake_local k st =
     (case wake_local_loop st k 0 (st_wakers st) [] of
        (regs, wakers) \<Rightarrow> st\<lparr>st_wakers := regs, st_woken := st_woken st @ wakers\<rparr>)"

section \<open>Signals\<close>

definition token_request :: "token \<Rightarrow> control_signal \<Rightarrow> token_store \<Rightarrow> token_store" where
  "token_request k s st =
     (if s = NextLoop then
        wake_local k (bump_local_generation k (update_token k (\<lambda>c. c\<lparr>tk_next_loop := True\<rparr>) st))
      else if s = StopThread then
        wake_local k (bump_local_generation k (update_token k (\<lambda>c. c\<lparr>tk_thread_stop := True\<rparr>) st))
      else if s \<notin> {StopTestGraceful, StopTestImmediate} then st
      else if st_stop st < signal_as_u8 s then
        wake_all (bump_generation (st\<lparr>st_stop := signal_as_u8 s\<rparr>))
      else st)"

definition cancel_graceful :: "token \<Rightarrow> token_store \<Rightarrow> token_store" where
  "cancel_graceful k = token_request k StopTestGraceful"

definition cancel_immediate :: "token \<Rightarrow> token_store \<Rightarrow> token_store" where
  "cancel_immediate k = token_request k StopTestImmediate"

definition token_signal :: "token \<Rightarrow> token_store \<Rightarrow> control_signal" where
  "token_signal k st =
     (let stop = signal_from_u8 (st_stop st)
      in if is_stop stop then stop
         else if tk_thread_stop (st_tokens st ! k) then StopThread
         else if tk_next_loop (st_tokens st ! k) then NextLoop
         else Continue)"

definition token_take_signal :: "token \<Rightarrow> token_store \<Rightarrow> control_signal \<times> token_store" where
  "token_take_signal k st =
     (let stop = signal_from_u8 (st_stop st)
      in if is_stop stop then (stop, st)
         else if tk_thread_stop (st_tokens st ! k) then (StopThread, st)
         else if tk_next_loop (st_tokens st ! k)
           then (NextLoop, update_token k (\<lambda>c. c\<lparr>tk_next_loop := False\<rparr>) st)
         else (Continue, st))"

definition is_cancelled :: "token \<Rightarrow> token_store \<Rightarrow> bool" where
  "is_cancelled k st \<longleftrightarrow> is_stop (token_signal k st)"

definition token_generation :: "token \<Rightarrow> token_store \<Rightarrow> u64" where
  "token_generation k st = max (st_generation st) (tk_generation (st_tokens st ! k))"

definition token_wake :: "token \<Rightarrow> token_store \<Rightarrow> token_store" where
  "token_wake k st =
     wake_local k (bump_local_generation k (update_token k (\<lambda>c. c\<lparr>tk_wake_ready := True\<rparr>) st))"

definition is_wake_ready :: "token \<Rightarrow> token_store \<Rightarrow> bool" where
  "is_wake_ready k st = tk_wake_ready (st_tokens st ! k)"

definition take_wake :: "token \<Rightarrow> token_store \<Rightarrow> bool \<times> token_store" where
  "take_wake k st = (tk_wake_ready (st_tokens st ! k), update_token k (\<lambda>c. c\<lparr>tk_wake_ready := False\<rparr>) st)"

section \<open>Registration\<close>

definition live_registrations :: "token_store \<Rightarrow> registered_waker list" where
  "live_registrations st = filter (\<lambda>r. rw_owners r \<noteq> []) (map (retain_live st) (st_wakers st))"

definition owner_count :: "registered_waker list \<Rightarrow> usize" where
  "owner_count regs = foldl (\<lambda>n r. saturating_add usize_max n (length (rw_owners r))) 0 regs"

text \<open>\<open>iter_mut().find\<close>: the first registration with this identity is updated.\<close>

fun update_first :: "('a \<Rightarrow> bool) \<Rightarrow> ('a \<Rightarrow> 'a) \<Rightarrow> 'a list \<Rightarrow> 'a list" where
  "update_first P f [] = []"
| "update_first P f (x # xs) = (if P x then f x # xs else x # update_first P f xs)"

definition register_waker :: "token \<Rightarrow> waker \<Rightarrow> token_store \<Rightarrow> token_store" where
  "register_waker k w st =
     (let regs = live_registrations st;
          capacity = owner_count regs < MAX_SCHEDULED_WAKEUPS;
          regs' =
            (if \<exists>r \<in> set regs. rw_identity r = w then
               update_first (\<lambda>r. rw_identity r = w)
                 (\<lambda>r. if \<not> has_owner st k r \<and> capacity then r\<lparr>rw_owners := rw_owners r @ [k]\<rparr> else r) regs
             else if capacity \<and> length regs < MAX_SCHEDULED_WAKEUPS then
               regs @ [\<lparr>rw_identity = w, rw_owners = [k]\<rparr>]
             else regs)
      in st\<lparr>st_wakers := regs'\<rparr>)"

section \<open>What waking does\<close>

definition survivors :: "token_store \<Rightarrow> token \<Rightarrow> registered_waker \<Rightarrow> registered_waker" where
  "survivors st k r = r\<lparr>rw_owners := filter (\<lambda>owner. owner_alive st owner \<and> owner \<noteq> k) (rw_owners r)\<rparr>"

definition subscribed :: "token_store \<Rightarrow> token \<Rightarrow> registered_waker \<Rightarrow> bool" where
  "subscribed st k r \<longleftrightarrow> owner_alive st k \<and> k \<in> set (rw_owners r)"

lemma has_owner_retain_live [simp]: "has_owner st k (retain_live st r) = subscribed st k r"
  by (auto simp: has_owner_def retain_live_def subscribed_def owner_matches_def)

lemma rw_identity_simps [simp]:
  "rw_identity (retain_live st r) = rw_identity r"
  "rw_identity (survivors st k r) = rw_identity r"
  by (simp_all add: retain_live_def survivors_def)

lemma strip_registration:
  "(if subscribed st k r then drop_owner st k (retain_live st r) else retain_live st r) = survivors st k r"
  by (cases r) (auto simp: subscribed_def drop_owner_def retain_live_def survivors_def owner_matches_def intro!: filter_cong)

lemma swap_remove_parts:
  assumes "i < length xs"
  shows "take i (swap_remove i xs) = take i xs" and "mset (drop i (swap_remove i xs)) = mset (drop (Suc i) xs)"
proof -
  obtain ys y where xs: "xs = ys @ [y]" using assms by (metis length_0_conv not_less_zero rev_exhaust)
  have "swap_remove i xs = (if i < length ys then ys[i := y] else ys)"
    using assms by (auto simp: swap_remove_def xs list_update_append less_Suc_eq)
  moreover have "drop i (ys[i := y]) = y # drop (Suc i) ys" if "i < length ys"
    using that by (metis Cons_nth_drop_Suc drop_update_cancel length_list_update lessI nth_list_update_eq)
  ultimately show "take i (swap_remove i xs) = take i xs" "mset (drop i (swap_remove i xs)) = mset (drop (Suc i) xs)"
    using assms by (auto simp: xs)
qed

lemma wake_local_loop_spec:
  "wake_local_loop st k i regs ws = (regs', ws') \<Longrightarrow>
   mset regs' = mset (take i regs) + filter_mset (\<lambda>r. rw_owners r \<noteq> []) (image_mset (survivors st k) (mset (drop i regs))) \<and>
   mset ws' = mset ws + image_mset rw_identity (filter_mset (subscribed st k) (mset (drop i regs)))"
proof (induction st k i regs ws arbitrary: regs' ws' rule: wake_local_loop.induct)
  case (1 st k i regs ws)
  show ?case
  proof (cases "i < length regs")
    case True
    let ?r = "survivors st k (regs ! i)" and ?ws = "if subscribed st k (regs ! i) then ws @ [rw_identity (regs ! i)] else ws"
    have step: "wake_local_loop st k i regs ws =
        (if rw_owners ?r = [] then wake_local_loop st k i (swap_remove i (regs[i := ?r])) ?ws
         else wake_local_loop st k (i + 1) (regs[i := ?r]) ?ws)"
      using True by (subst wake_local_loop.simps) (simp add: Let_def strip_registration)
    have dr: "drop i regs = regs ! i # drop (Suc i) regs" using True by (simp add: Cons_nth_drop_Suc)
    show ?thesis
    proof (cases "rw_owners ?r = []")
      case e: True
      have "mset (drop i (swap_remove i (regs[i := ?r]))) = mset (drop (Suc i) regs)"
        "take i (swap_remove i (regs[i := ?r])) = take i regs"
        using swap_remove_parts [of i "regs[i := ?r]"] True by simp_all
      moreover have "wake_local_loop st k i (swap_remove i (regs[i := ?r])) ?ws = (regs', ws')"
        using step "1.prems" e by simp
      ultimately show ?thesis
        using "1.IH"(1) [OF True refl refl refl refl] e True by (auto simp: strip_registration dr)
    next
      case False
      have "wake_local_loop st k (i + 1) (regs[i := ?r]) ?ws = (regs', ws')"
        using step "1.prems" False by simp
      moreover have "take (Suc i) (regs[i := ?r]) = take i regs @ [?r]"
        using True by (simp add: take_Suc_conv_app_nth)
      ultimately show ?thesis
        using "1.IH"(2) [OF True refl refl refl refl] False True by (auto simp: strip_registration dr)
    qed
  next
    case False
    then show ?thesis using "1.prems" by (subst (asm) wake_local_loop.simps) simp
  qed
qed

lemma wake_local_fields [simp]:
  "st_tokens (wake_local k st) = st_tokens st"
  "st_stop (wake_local k st) = st_stop st"
  "st_generation (wake_local k st) = st_generation st"
  by (simp_all add: wake_local_def split: prod.splits)

lemma owner_alive_wake_local [simp]: "owner_alive (wake_local k st) = owner_alive st"
  by (simp add: owner_alive_def fun_eq_iff)

lemma wake_local_effect:
  "mset (st_wakers (wake_local k st)) =
     filter_mset (\<lambda>r. rw_owners r \<noteq> []) (image_mset (survivors st k) (mset (st_wakers st)))"
  "mset (st_woken (wake_local k st)) =
     mset (st_woken st) + image_mset rw_identity (filter_mset (subscribed st k) (mset (st_wakers st)))"
proof -
  obtain regs ws where l: "wake_local_loop st k 0 (st_wakers st) [] = (regs, ws)" by fastforce
  show "mset (st_wakers (wake_local k st)) =
     filter_mset (\<lambda>r. rw_owners r \<noteq> []) (image_mset (survivors st k) (mset (st_wakers st)))"
    "mset (st_woken (wake_local k st)) =
     mset (st_woken st) + image_mset rw_identity (filter_mset (subscribed st k) (mset (st_wakers st)))"
    using wake_local_loop_spec [OF l] by (simp_all add: wake_local_def l)
qed

lemma update_token_fields [simp]:
  "st_stop (update_token k f st) = st_stop st"
  "st_generation (update_token k f st) = st_generation st"
  "st_wakers (update_token k f st) = st_wakers st"
  "st_woken (update_token k f st) = st_woken st"
  "length (st_tokens (update_token k f st)) = length (st_tokens st)"
  "j \<noteq> k \<Longrightarrow> st_tokens (update_token k f st) ! j = st_tokens st ! j"
  "k < length (st_tokens st) \<Longrightarrow> st_tokens (update_token k f st) ! k = f (st_tokens st ! k)"
  by (simp_all add: update_token_def)

lemma bump_local_fields [simp]:
  "st_stop (bump_local_generation k st) = st_stop st"
  "st_generation (bump_local_generation k st) = st_generation st"
  "st_wakers (bump_local_generation k st) = st_wakers st"
  "st_woken (bump_local_generation k st) = st_woken st"
  "length (st_tokens (bump_local_generation k st)) = length (st_tokens st)"
  "j \<noteq> k \<Longrightarrow> st_tokens (bump_local_generation k st) ! j = st_tokens st ! j"
  by (simp_all add: bump_local_generation_def split: option.splits)

lemma bump_local_cell:
  assumes "k < length (st_tokens st)"
  shows "st_tokens (bump_local_generation k st) ! k =
    (st_tokens st ! k)\<lparr>tk_generation := tk_generation (st_tokens (bump_local_generation k st) ! k)\<rparr>"
  using assms by (auto simp: bump_local_generation_def split: option.splits)

text \<open>A change of a token's cell that keeps it alive changes no one's liveness.\<close>

lemma owner_alive_update:
  assumes "\<And>c. tk_live (f c) = tk_live c"
  shows "owner_alive (update_token k f st) = owner_alive st"
proof
  fix j
  show "owner_alive (update_token k f st) j = owner_alive st j"
  proof (cases "j = k \<and> k < length (st_tokens st)")
    case True
    then show ?thesis by (simp add: owner_alive_def assms)
  next
    case False
    then show ?thesis by (cases "j = k") (simp_all add: owner_alive_def)
  qed
qed

lemma owner_alive_bump [simp]: "owner_alive (bump_local_generation k st) = owner_alive st"
  by (auto simp: bump_local_generation_def owner_alive_update split: option.splits)

lemma liveness_congs:
  assumes "owner_alive st = owner_alive st'"
  shows "survivors st = survivors st'" and "subscribed st = subscribed st'"
  using assms by (auto simp: survivors_def subscribed_def fun_eq_iff)

text \<open>Setting a bit of token \<open>k\<close> and waking its subscribers.\<close>

definition notify :: "token \<Rightarrow> (token_cell \<Rightarrow> token_cell) \<Rightarrow> token_store \<Rightarrow> token_store" where
  "notify k f st = wake_local k (bump_local_generation k (update_token k f st))"

lemma notify_effect:
  assumes "\<And>c. tk_live (f c) = tk_live c"
  shows "mset (st_wakers (notify k f st)) =
      filter_mset (\<lambda>r. rw_owners r \<noteq> []) (image_mset (survivors st k) (mset (st_wakers st)))"
    and "mset (st_woken (notify k f st)) =
      mset (st_woken st) + image_mset rw_identity (filter_mset (subscribed st k) (mset (st_wakers st)))"
    and "j \<noteq> k \<Longrightarrow> st_tokens (notify k f st) ! j = st_tokens st ! j"
    and "length (st_tokens (notify k f st)) = length (st_tokens st)"
    and "st_stop (notify k f st) = st_stop st"
    and "owner_alive (notify k f st) = owner_alive st"
proof -
  have a: "owner_alive (bump_local_generation k (update_token k f st)) = owner_alive st"
    by (simp add: owner_alive_update assms)
  note c = liveness_congs [OF a]
  show "mset (st_wakers (notify k f st)) =
      filter_mset (\<lambda>r. rw_owners r \<noteq> []) (image_mset (survivors st k) (mset (st_wakers st)))"
    "mset (st_woken (notify k f st)) =
      mset (st_woken st) + image_mset rw_identity (filter_mset (subscribed st k) (mset (st_wakers st)))"
    by (simp_all add: notify_def wake_local_effect c)
  show "owner_alive (notify k f st) = owner_alive st"
    using a by (simp add: notify_def)
qed (simp_all add: notify_def)

lemma token_wake_notify: "token_wake k = notify k (\<lambda>c. c\<lparr>tk_wake_ready := True\<rparr>)"
  by (simp add: token_wake_def notify_def fun_eq_iff)

lemma token_request_cases:
  "token_request k NextLoop = notify k (\<lambda>c. c\<lparr>tk_next_loop := True\<rparr>)"
  "token_request k StopThread = notify k (\<lambda>c. c\<lparr>tk_thread_stop := True\<rparr>)"
  "token_request k Continue = (\<lambda>st. st)"
  "s = StopTestGraceful \<or> s = StopTestImmediate \<Longrightarrow> token_request k s st =
     (if st_stop st < signal_as_u8 s then wake_all (bump_generation (st\<lparr>st_stop := signal_as_u8 s\<rparr>)) else st)"
  by (auto simp: token_request_def notify_def fun_eq_iff)

lemma user_event_notify:
  assumes "st' \<in> {token_wake k st, token_request k NextLoop st, token_request k StopThread st}"
  obtains f where "st' = notify k f st" and "\<forall>c. tk_live (f c) = tk_live c"
  using assms that [of "\<lambda>c. c\<lparr>tk_wake_ready := True\<rparr>"] that [of "\<lambda>c. c\<lparr>tk_next_loop := True\<rparr>"]
    that [of "\<lambda>c. c\<lparr>tk_thread_stop := True\<rparr>"]
  by (auto simp: token_wake_notify token_request_cases)

section \<open>The registry stays bounded\<close>

definition subscriptions :: "registered_waker list \<Rightarrow> nat" where
  "subscriptions regs = (\<Sum>r\<leftarrow>regs. length (rw_owners r))"

definition regs_ok :: "registered_waker list \<Rightarrow> bool" where
  "regs_ok regs \<longleftrightarrow> distinct (map rw_identity regs) \<and> subscriptions regs \<le> MAX_SCHEDULED_WAKEUPS \<and>
     (\<forall>r \<in> set regs. rw_owners r \<noteq> [] \<and> distinct (rw_owners r))"

lemma regs_ok_Nil: "regs_ok []"
  by (simp add: regs_ok_def subscriptions_def)

lemma subscriptions_mset: "subscriptions regs = sum_mset (image_mset (\<lambda>r. length (rw_owners r)) (mset regs))"
  by (simp add: subscriptions_def flip: sum_mset_sum_list)

lemma regs_ok_perm:
  assumes "mset regs = mset regs'" and "regs_ok regs'"
  shows "regs_ok regs"
proof -
  have "mset (map rw_identity regs) = mset (map rw_identity regs')" using assms(1) by simp
  then have "distinct (map rw_identity regs) = distinct (map rw_identity regs')" by (rule mset_eq_imp_distinct_iff)
  moreover have "set regs = set regs'" using assms(1) by (rule mset_eq_setD)
  ultimately show ?thesis using assms by (simp add: regs_ok_def subscriptions_mset)
qed

text \<open>Dropping subscriptions, and registrations left without any, keeps the registry well formed.\<close>

lemma subscriptions_filter_le:
  "subscriptions (filter P (map (\<lambda>r. r\<lparr>rw_owners := filter Q (rw_owners r)\<rparr>) regs)) \<le> subscriptions regs"
proof (induction regs)
  case (Cons r regs)
  then show ?case by (auto simp: subscriptions_def intro!: add_mono intro: trans_le_add2)
qed (simp add: subscriptions_def)

lemma regs_ok_filter:
  assumes "regs_ok regs"
  shows "regs_ok (filter (\<lambda>r. rw_owners r \<noteq> []) (map (\<lambda>r. r\<lparr>rw_owners := filter Q (rw_owners r)\<rparr>) regs))"
    (is "regs_ok (filter ?ne (map ?g regs))")
proof -
  have "map rw_identity (map ?g regs) = map rw_identity regs" by simp
  then have "distinct (map rw_identity (map ?g regs))" using assms by (simp only: regs_ok_def)
  then have "distinct (map rw_identity (filter ?ne (map ?g regs)))" by (rule distinct_map_filter)
  then show ?thesis
    using assms subscriptions_filter_le [of ?ne Q regs] unfolding regs_ok_def by auto
qed

lemma regs_ok_live: "regs_ok (st_wakers st) \<Longrightarrow> regs_ok (live_registrations st)"
  using regs_ok_filter [of "st_wakers st" "owner_alive st"]
  by (simp add: live_registrations_def retain_live_def [abs_def])

lemma regs_ok_notify:
  assumes "regs_ok (st_wakers st)" and "\<And>c. tk_live (f c) = tk_live c"
  shows "regs_ok (st_wakers (notify k f st))"
proof (rule regs_ok_perm)
  show "regs_ok (filter (\<lambda>r. rw_owners r \<noteq> []) (map (survivors st k) (st_wakers st)))"
    using regs_ok_filter [OF assms(1)] by (simp add: survivors_def [abs_def])
  show "mset (st_wakers (notify k f st)) = mset (filter (\<lambda>r. rw_owners r \<noteq> []) (map (survivors st k) (st_wakers st)))"
    by (simp add: notify_effect(1) [of f, OF assms(2)])
qed

lemma owner_count_eq:
  "subscriptions regs \<le> MAX_SCHEDULED_WAKEUPS \<Longrightarrow> owner_count regs = subscriptions regs"
proof -
  have "n + subscriptions regs \<le> usize_max \<Longrightarrow>
      foldl (\<lambda>n r. saturating_add usize_max n (length (rw_owners r))) n regs = n + subscriptions regs" for n
    by (induction regs arbitrary: n) (simp_all add: subscriptions_def saturating_add_def)
  from this [of 0] show "subscriptions regs \<le> MAX_SCHEDULED_WAKEUPS \<Longrightarrow> owner_count regs = subscriptions regs"
    by (simp add: owner_count_def MAX_SCHEDULED_WAKEUPS_def usize_max_def)
qed

text \<open>The first registration with an identity, in a registry with distinct identities.\<close>

lemma update_first_split:
  assumes "\<exists>r \<in> set regs. rw_identity r = w"
  obtains us r vs where "regs = us @ r # vs" and "rw_identity r = w"
    and "update_first (\<lambda>r. rw_identity r = w) f regs = us @ f r # vs"
  using assms
proof (induction regs arbitrary: thesis)
  case (Cons a regs)
  show ?case
  proof (cases "rw_identity a = w")
    case True
    then show ?thesis using Cons.prems(1) [of "[]" a regs] by simp
  next
    case False
    then obtain us r vs where "regs = us @ r # vs" "rw_identity r = w"
        "update_first (\<lambda>r. rw_identity r = w) f regs = us @ f r # vs"
      using Cons.IH Cons.prems(2) by auto
    then show ?thesis using Cons.prems(1) [of "a # us" r vs] False by simp
  qed
qed simp

lemma regs_ok_append_iff:
  "regs_ok (us @ r # vs) \<longleftrightarrow> distinct (map rw_identity us @ rw_identity r # map rw_identity vs) \<and>
     subscriptions us + length (rw_owners r) + subscriptions vs \<le> MAX_SCHEDULED_WAKEUPS \<and>
     rw_owners r \<noteq> [] \<and> distinct (rw_owners r) \<and>
     (\<forall>q \<in> set us \<union> set vs. rw_owners q \<noteq> [] \<and> distinct (rw_owners q))"
  by (auto simp: regs_ok_def subscriptions_def)

lemma has_owner_live: "owner_alive st k \<Longrightarrow> has_owner st k r \<longleftrightarrow> k \<in> set (rw_owners r)"
  by (auto simp: has_owner_def owner_matches_def)

text \<open>Registration with a live token: the registry stays well formed, and with room left the waker
  has a subscription of the token afterwards.\<close>

lemma register_waker_outcome:
  assumes "regs_ok (st_wakers st)" and "owner_alive st k"
  shows "regs_ok (st_wakers (register_waker k w st))"
    and "subscriptions (live_registrations st) < MAX_SCHEDULED_WAKEUPS \<Longrightarrow>
      \<exists>r \<in> set (st_wakers (register_waker k w st)). rw_identity r = w \<and> k \<in> set (rw_owners r)"
proof -
  let ?regs = "live_registrations st"
  define cap where "cap = (subscriptions ?regs < MAX_SCHEDULED_WAKEUPS)"
  note ok = regs_ok_live [OF assms(1)]
  have cap_eq: "(owner_count ?regs < MAX_SCHEDULED_WAKEUPS) = cap"
    using ok owner_count_eq [of ?regs] by (simp add: regs_ok_def cap_def)
  have short: "length ?regs \<le> subscriptions ?regs"
  proof -
    have "(\<forall>r \<in> set rs. rw_owners r \<noteq> []) \<Longrightarrow> length rs \<le> subscriptions rs" for rs
      by (induction rs) (auto simp: subscriptions_def Suc_le_eq add_strict_increasing)
    then show ?thesis using ok by (simp add: regs_ok_def)
  qed
  have "regs_ok (st_wakers (register_waker k w st)) \<and>
    (cap \<longrightarrow> (\<exists>r \<in> set (st_wakers (register_waker k w st)). rw_identity r = w \<and> k \<in> set (rw_owners r)))"
  proof (cases "\<exists>r \<in> set ?regs. rw_identity r = w")
    case True
    let ?f = "\<lambda>r. if \<not> has_owner st k r \<and> cap then r\<lparr>rw_owners := rw_owners r @ [k]\<rparr> else r"
    obtain us r vs where p: "?regs = us @ r # vs" "rw_identity r = w"
        "update_first (\<lambda>r. rw_identity r = w) ?f ?regs = us @ ?f r # vs"
      by (rule update_first_split [OF True])
    have w: "st_wakers (register_waker k w st) = us @ ?f r # vs"
      unfolding register_waker_def Let_def cap_eq using True p(3) by simp
    have "subscriptions us + length (rw_owners r) + subscriptions vs < MAX_SCHEDULED_WAKEUPS" if cap
      using that by (simp add: cap_def p(1) subscriptions_def)
    then have "regs_ok (us @ ?f r # vs)"
      using ok assms(2) unfolding p(1) by (auto simp: regs_ok_append_iff has_owner_live)
    moreover have "cap \<longrightarrow> k \<in> set (rw_owners (?f r))" using assms(2) by (auto simp: has_owner_live)
    ultimately show ?thesis unfolding w using p(2) by auto
  next
    case False
    have room: "cap \<Longrightarrow> length ?regs < MAX_SCHEDULED_WAKEUPS" using short by (simp add: cap_def)
    have w: "st_wakers (register_waker k w st) = (if cap then ?regs @ [\<lparr>rw_identity = w, rw_owners = [k]\<rparr>] else ?regs)"
      unfolding register_waker_def Let_def cap_eq using False room by auto
    have "regs_ok (?regs @ [\<lparr>rw_identity = w, rw_owners = [k]\<rparr>])" if cap
      using ok False that by (auto simp: regs_ok_def subscriptions_def cap_def)
    then show ?thesis unfolding w using ok by auto
  qed
  then show "regs_ok (st_wakers (register_waker k w st))"
    "subscriptions ?regs < MAX_SCHEDULED_WAKEUPS \<Longrightarrow>
      \<exists>r \<in> set (st_wakers (register_waker k w st)). rw_identity r = w \<and> k \<in> set (rw_owners r)"
    by (simp_all add: cap_def)
qed

text \<open>The stores that the public operations can produce from a new token.\<close>

inductive token_reachable :: "token_store \<Rightarrow> bool" where
  tr_new: "token_reachable (fst token_new)"
| tr_clone: "token_reachable st \<Longrightarrow> token_reachable (fst (token_clone_for_user st))"
| tr_child: "token_reachable st \<Longrightarrow> token_reachable (fst (token_child st))"
| tr_drop: "token_reachable st \<Longrightarrow> token_reachable (token_drop k st)"
| tr_request: "token_reachable st \<Longrightarrow> owner_alive st k \<Longrightarrow> token_reachable (token_request k s st)"
| tr_take: "token_reachable st \<Longrightarrow> owner_alive st k \<Longrightarrow> token_reachable (snd (token_take_signal k st))"
| tr_wake: "token_reachable st \<Longrightarrow> owner_alive st k \<Longrightarrow> token_reachable (token_wake k st)"
| tr_take_wake: "token_reachable st \<Longrightarrow> owner_alive st k \<Longrightarrow> token_reachable (snd (take_wake k st))"
| tr_register: "token_reachable st \<Longrightarrow> owner_alive st k \<Longrightarrow> token_reachable (register_waker k w st)"

lemma wake_all_fields [simp]:
  "st_wakers (wake_all st) = []"
  "st_woken (wake_all st) = st_woken st @ map rw_identity (st_wakers st)"
  "st_wakers (bump_generation st) = st_wakers st"
  "st_woken (bump_generation st) = st_woken st"
  by (auto simp: wake_all_def bump_generation_def split: option.splits)

lemma regs_ok_request:
  assumes "regs_ok (st_wakers st)"
  shows "regs_ok (st_wakers (token_request k s st))"
  using assms by (cases s) (auto simp: token_request_cases regs_ok_notify regs_ok_Nil)

lemma token_reachable_regs_ok: "token_reachable st \<Longrightarrow> regs_ok (st_wakers st)"
proof (induction rule: token_reachable.induct)
  case (tr_wake st k)
  then show ?case by (simp add: token_wake_notify regs_ok_notify)
next
  case (tr_register st k w)
  then show ?case using register_waker_outcome(1) by blast
qed (simp_all add: regs_ok_request token_new_def token_clone_for_user_def token_child_def token_drop_def
    token_take_signal_def take_wake_def regs_ok_Nil Let_def)

text \<open>Whatever the users of a run do (clone, drop, request, wake, register), the registry of
  executor wakers never holds more than the configured number of subscriptions, has one entry per
  waker, and no entry without a subscriber or with a duplicate one.\<close>

theorem token_registry_bounded:
  assumes "token_reachable st"
  shows "subscriptions (st_wakers st) \<le> MAX_SCHEDULED_WAKEUPS \<and> distinct (map rw_identity (st_wakers st)) \<and>
    (\<forall>r \<in> set (st_wakers st). rw_owners r \<noteq> [] \<and> distinct (rw_owners r))"
  using token_reachable_regs_ok [OF assms] by (simp add: regs_ok_def)

lemma owner_alive_new: "owner_alive (fst token_new) 0"
  by (simp add: owner_alive_def token_new_def fresh_cell_def)

lemma token_registry_bounded_example:
  "let st = register_waker 0 7 (register_waker 0 7 (fst token_new))
   in st_wakers st = [\<lparr>rw_identity = 7, rw_owners = [0]\<rparr>] \<and> subscriptions (st_wakers st) \<le> MAX_SCHEDULED_WAKEUPS"
proof -
  have "owner_alive (register_waker 0 7 (fst token_new)) 0"
    by (simp add: owner_alive_def token_new_def fresh_cell_def register_waker_def Let_def)
  then have "token_reachable (register_waker 0 7 (register_waker 0 7 (fst token_new)))"
    using owner_alive_new by (blast intro: token_reachable.intros)
  from token_registry_bounded [OF this] show ?thesis
    by (simp add: register_waker_def token_new_def live_registrations_def retain_live_def owner_alive_def
        fresh_cell_def owner_count_def has_owner_def owner_matches_def MAX_SCHEDULED_WAKEUPS_def
        saturating_add_def usize_max_def Let_def)
qed

text \<open>Exactly one registration has a given identity, so waking it is one call.\<close>

lemma count_identity:
  assumes "distinct (map rw_identity regs)" and "r \<in> set regs" and "P r"
  shows "count (image_mset rw_identity (filter_mset P (mset regs))) (rw_identity r) = 1"
proof -
  have "distinct (map rw_identity (filter P regs))" using assms(1) by (rule distinct_map_filter)
  moreover have "rw_identity r \<in> set (map rw_identity (filter P regs))" using assms(2,3) by auto
  ultimately have "count (mset (map rw_identity (filter P regs))) (rw_identity r) = 1"
    by (metis count_mset_0_iff distinct_count_atmost_1 One_nat_def)
  then show ?thesis by simp
qed

lemma notify_wakes:
  assumes "regs_ok (st_wakers st)" and "r \<in> set (st_wakers st)" and "subscribed st k r"
    and "\<And>c. tk_live (f c) = tk_live c"
  shows "count (mset (st_woken (notify k f st))) (rw_identity r) = count (mset (st_woken st)) (rw_identity r) + 1"
    and "\<forall>q \<in> set (st_wakers (notify k f st)). k \<notin> set (rw_owners q)"
proof -
  have "distinct (map rw_identity (st_wakers st))" using assms(1) by (simp add: regs_ok_def)
  from count_identity [OF this assms(2), of "subscribed st k", OF assms(3)]
  show "count (mset (st_woken (notify k f st))) (rw_identity r) = count (mset (st_woken st)) (rw_identity r) + 1"
    by (simp only: notify_effect(2) [of f, OF assms(4)] count_union)
  have "set_mset (mset (st_wakers (notify k f st))) \<subseteq> survivors st k ` set (st_wakers st)"
    unfolding notify_effect(1) [of f, OF assms(4)] by auto
  then show "\<forall>q \<in> set (st_wakers (notify k f st)). k \<notin> set (rw_owners q)"
    by (auto simp: survivors_def)
qed

text \<open>C23: No lost wake-up. When a user registers its waker and the registry has room, then the next
  event that concerns this user (a scheduler wake, a next-loop or thread-stop request of this user,
  or a test stop that escalates, by whichever user) calls that waker exactly once and uses the
  subscription up.\<close>

theorem registered_waker_is_woken:
  assumes "token_reachable st" and "owner_alive st k"
    and "subscriptions (live_registrations st) < MAX_SCHEDULED_WAKEUPS"
    and "st1 = register_waker k w st"
    and "st2 \<in> {token_wake k st1, token_request k NextLoop st1, token_request k StopThread st1} \<or>
      (\<exists>j s. s \<in> {StopTestGraceful, StopTestImmediate} \<and> st_stop st1 < signal_as_u8 s \<and> st2 = token_request j s st1)"
  shows "count (mset (st_woken st2)) w = count (mset (st_woken st1)) w + 1 \<and>
    (\<forall>r \<in> set (st_wakers st2). k \<notin> set (rw_owners r))"
proof -
  note ok = register_waker_outcome [OF token_reachable_regs_ok [OF assms(1)] assms(2), of w, folded assms(4)]
  obtain r where r: "r \<in> set (st_wakers st1)" "rw_identity r = w" "k \<in> set (rw_owners r)"
    using ok(2) [OF assms(3)] by blast
  have "owner_alive st1 k" using assms(2,4) by (simp add: owner_alive_def register_waker_def Let_def)
  then have sub: "subscribed st1 k r" using r(3) by (simp add: subscribed_def)
  from assms(5) show ?thesis
  proof (elim disjE exE conjE)
    assume "st2 \<in> {token_wake k st1, token_request k NextLoop st1, token_request k StopThread st1}"
    then obtain f where "st2 = notify k f st1" "\<forall>c. tk_live (f c) = tk_live c" by (rule user_event_notify)
    then show ?thesis using notify_wakes [OF ok(1) r(1) sub, of f] r(2) by simp
  next
    fix j s
    assume s: "s \<in> {StopTestGraceful, StopTestImmediate}" "st_stop st1 < signal_as_u8 s" "st2 = token_request j s st1"
    have "distinct (map rw_identity (st_wakers st1))" using ok(1) by (simp add: regs_ok_def)
    from count_identity [OF this r(1), of "\<lambda>_. True"]
    have "count (mset (map rw_identity (st_wakers st1))) w = 1" using r(2) by simp
    moreover have "st2 = wake_all (bump_generation (st1\<lparr>st_stop := signal_as_u8 s\<rparr>))"
      using s by (auto simp: token_request_cases)
    ultimately show ?thesis by simp
  qed
qed

theorem registered_waker_is_woken_witness:
  "count (mset (st_woken (token_wake 0 (register_waker 0 7 (fst token_new))))) 7 = 1"
proof -
  have "subscriptions (live_registrations (fst token_new)) < MAX_SCHEDULED_WAKEUPS"
    by (simp add: live_registrations_def token_new_def subscriptions_def MAX_SCHEDULED_WAKEUPS_def)
  then show ?thesis
    using registered_waker_is_woken [OF tr_new owner_alive_new, of "register_waker 0 7 (fst token_new)" 7
        "token_wake 0 (register_waker 0 7 (fst token_new))"]
    by (simp add: token_new_def register_waker_def Let_def)
qed

text \<open>Users are isolated. A scheduler wake or a per-user request of one user changes no signal,
  no wake readiness and no subscription of another user.\<close>

theorem wake_is_user_local:
  assumes "token_reachable st" and "j \<noteq> k"
    and "st' \<in> {token_wake k st, token_request k NextLoop st, token_request k StopThread st}"
  shows "token_signal j st' = token_signal j st \<and> is_wake_ready j st' = is_wake_ready j st \<and>
    (owner_alive st j \<longrightarrow> (\<forall>r \<in> set (st_wakers st). j \<in> set (rw_owners r) \<longrightarrow>
      (\<exists>r' \<in> set (st_wakers st'). rw_identity r' = rw_identity r \<and> j \<in> set (rw_owners r'))))"
proof -
  obtain f where f1: "st' = notify k f st" "\<forall>c. tk_live (f c) = tk_live c"
    using assms(3) by (rule user_event_notify)
  have f: "st' = notify k f st" "\<And>c. tk_live (f c) = tk_live c" using f1 by simp_all
  have "token_signal j st' = token_signal j st" "is_wake_ready j st' = is_wake_ready j st"
    using assms(2) by (simp_all add: f(1) token_signal_def is_wake_ready_def notify_effect [of f, OF f(2)])
  moreover have "\<exists>r' \<in> set (st_wakers st'). rw_identity r' = rw_identity r \<and> j \<in> set (rw_owners r')"
    if "owner_alive st j" "r \<in> set (st_wakers st)" "j \<in> set (rw_owners r)" for r
  proof -
    have "j \<in> set (rw_owners (survivors st k r))" using that assms(2) by (simp add: survivors_def)
    moreover from this have "survivors st k r \<in># mset (st_wakers st')"
      unfolding f(1) notify_effect(1) [of f, OF f(2)] using that(2) by auto
    ultimately show ?thesis by (intro bexI [of _ "survivors st k r"]) simp_all
  qed
  ultimately show ?thesis by blast
qed

lemma wake_is_user_local_example:
  "token_signal 1 (token_request 0 StopThread (fst (token_clone_for_user (fst token_new)))) = Continue"
proof -
  have "token_reachable (fst (token_clone_for_user (fst token_new)))" by (blast intro: token_reachable.intros)
  from wake_is_user_local [OF this, of 1 0 "token_request 0 StopThread (fst (token_clone_for_user (fst token_new)))"]
  show ?thesis
    by (simp add: token_signal_def token_clone_for_user_def token_new_def fresh_cell_def signal_from_u8_def)
qed

end
