(* ===== verification/Scheduler.thy ===== *)
theory Scheduler
  imports Cancellation_Token Ordered_Map "HOL-Library.Product_Lexorder"
begin

text \<open>
  The executor-neutral scheduler of \<open>crates/runtime/src/scheduler.rs\<close>: monotonic instants and
  deadlines, linear wake registrations, the bounded deterministic scheduler, the deadline future and
  the schedule window of a thread group.

  Time is a number of nanoseconds; \<open>DURATION_MAX\<close> is the largest \<open>Duration\<close>. The status cell that a
  registration handle shares with its record is an index into \<open>w_status\<close>. Each method is one
  transformation of the world: the model covers the runs in which the methods of one scheduler do not
  overlap, in any order. Executor wakers return normally, so \<open>wake_token\<close> has no panic branch; owner
  callbacks may panic.
\<close>

section \<open>Instants and deadlines\<close>

type_synonym duration = nat
type_synonym instant = nat
type_synonym deadline = instant

definition DURATION_MAX :: duration where
  "DURATION_MAX = 18446744073709551615 * 1000000000 + 999999999"

definition instant_checked_add :: "instant \<Rightarrow> duration \<Rightarrow> instant option" where
  "instant_checked_add i d = checked_add DURATION_MAX i d"

definition duration_since :: "instant \<Rightarrow> instant \<Rightarrow> duration option" where
  "duration_since i earlier = checked_sub i earlier"

definition deadline_after :: "instant \<Rightarrow> duration \<Rightarrow> deadline option" where
  "deadline_after now d = instant_checked_add now d"

definition deadline_expired :: "deadline \<Rightarrow> instant \<Rightarrow> bool" where
  "deadline_expired d now \<longleftrightarrow> d \<le> now"

definition deadline_remaining :: "deadline \<Rightarrow> instant \<Rightarrow> duration" where
  "deadline_remaining d now = (case duration_since d now of Some v \<Rightarrow> v | None \<Rightarrow> 0)"

datatype scheduler_error =
    Capacity usize
  | DeadlineOverflow duration
  | WakeIdOverflow
  | UnknownWake u64
  | WakeNotPending u64
  | CancellationPanicked
  | TimeWentBackwards instant instant
  | UnsupportedScheduler string

fun scheduler_error_code :: "scheduler_error \<Rightarrow> string" where
  "scheduler_error_code (Capacity _) = ''runtime.scheduler.capacity''"
| "scheduler_error_code (DeadlineOverflow _) = ''runtime.scheduler.deadline-overflow''"
| "scheduler_error_code WakeIdOverflow = ''runtime.scheduler.wake-id-overflow''"
| "scheduler_error_code (UnknownWake _) = ''runtime.scheduler.unknown-wake''"
| "scheduler_error_code (WakeNotPending _) = ''runtime.scheduler.wake-not-pending''"
| "scheduler_error_code CancellationPanicked = ''runtime.scheduler.cancellation-panicked''"
| "scheduler_error_code (TimeWentBackwards _ _) = ''runtime.scheduler.time-backwards''"
| "scheduler_error_code (UnsupportedScheduler _) = ''runtime.scheduler.unsupported''"

section \<open>State\<close>

definition WAKE_PENDING :: nat where "WAKE_PENDING = 0"
definition WAKE_CANCELLED :: nat where "WAKE_CANCELLED = 1"
definition WAKE_CONSUMED :: nat where "WAKE_CONSUMED = 2"
definition WAKE_CANCELLING :: nat where "WAKE_CANCELLING = 3"

lemmas wake_status_defs = WAKE_PENDING_def WAKE_CANCELLED_def WAKE_CONSUMED_def WAKE_CANCELLING_def

record scheduled_wake =
  sw_id :: u64
  sw_deadline :: deadline
  sw_key :: u64

record wake_record =
  wr_wake :: scheduled_wake
  wr_pending :: bool
  wr_consumed :: bool
  wr_token :: token
  wr_state :: nat

record wake_registration =
  reg_id :: u64
  reg_token :: token
  reg_owner :: nat
  reg_state :: nat

record scheduler =
  sc_owner :: nat
  sc_wakes :: "(u64, wake_record) btree_map"
  sc_now :: instant
  sc_next_id :: u64
  sc_max_wakes :: usize

record world =
  w_sched :: scheduler
  w_tokens :: token_store
  w_status :: "nat list"

type_synonym 'a world_op = "(world, scheduler_error, 'a) routine"

definition scheduler_new :: "nat \<Rightarrow> instant \<Rightarrow> usize \<Rightarrow> scheduler" where
  "scheduler_new owner now max_wakes = \<lparr>sc_owner = owner, sc_wakes = [], sc_now = now, sc_next_id = 1,
     sc_max_wakes = min max_wakes MAX_SCHEDULED_WAKEUPS\<rparr>"

abbreviation set_wakes :: "(u64, wake_record) btree_map \<Rightarrow> world \<Rightarrow> world" where
  "set_wakes ws w \<equiv> w\<lparr>w_sched := (w_sched w)\<lparr>sc_wakes := ws\<rparr>\<rparr>"

definition set_status :: "nat \<Rightarrow> nat \<Rightarrow> world \<Rightarrow> world" where
  "set_status s v w = w\<lparr>w_status := (w_status w)[s := v]\<rparr>"

definition wake_token :: "token \<Rightarrow> world \<Rightarrow> world" where
  "wake_token k w = w\<lparr>w_tokens := token_wake k (w_tokens w)\<rparr>"

section \<open>Cancellation\<close>

definition cancel_registration :: "u64 \<Rightarrow> bool world_op" where
  "cancel_registration i = reading (\<lambda>w.
     (case bm_get (sc_wakes (w_sched w)) i of
        None \<Rightarrow> return_err (UnknownWake i)
      | Some r \<Rightarrow>
          if \<not> wr_pending r then return_ok False
          else
            and_then (modify (\<lambda>w. set_wakes (bm_remove i (sc_wakes (w_sched w))) w)) (\<lambda>_.
            and_then (modify (set_status (wr_state r) WAKE_CANCELLED)) (\<lambda>_.
            return_ok True))))"

text \<open>
  The owner callback of a registration is any function; it can return, fail or panic. \<open>None\<close> is an
  owner that no longer exists.
\<close>

datatype callback_outcome = CallbackReturned bool | CallbackFailed scheduler_error | CallbackPanicked

type_synonym owner_callback = "world \<Rightarrow> callback_outcome \<times> world"

definition cancel_with_owner :: "owner_callback option \<Rightarrow> wake_registration \<Rightarrow> bool world_op" where
  "cancel_with_owner owner reg w =
     (if w_status w ! reg_state reg \<noteq> WAKE_PENDING then (Ok False, w)
      else
        (let w = set_status (reg_state reg) WAKE_CANCELLING w
         in case owner of
              None \<Rightarrow> (Ok False, set_status (reg_state reg) WAKE_CANCELLED w)
            | Some callback \<Rightarrow>
                (case callback w of
                   (CallbackReturned cancelled, w) \<Rightarrow>
                     (let w = set_status (reg_state reg) WAKE_CANCELLED w
                      in (Ok cancelled, if cancelled then wake_token (reg_token reg) w else w))
                 | (CallbackFailed e, w) \<Rightarrow> (Err e, set_status (reg_state reg) WAKE_PENDING w)
                 | (CallbackPanicked, w) \<Rightarrow>
                     (Err CancellationPanicked,
                      wake_token (reg_token reg) (set_status (reg_state reg) WAKE_CANCELLED w)))))"

definition registry_callback :: "u64 \<Rightarrow> owner_callback" where
  "registry_callback i w =
     (case cancel_registration i w of
        (Ok c, w') \<Rightarrow> (CallbackReturned c, w')
      | (Err e, w') \<Rightarrow> (CallbackFailed e, w'))"

definition belongs_to_owner :: "wake_registration \<Rightarrow> nat \<Rightarrow> bool" where
  "belongs_to_owner reg owner \<longleftrightarrow> reg_owner reg = owner"

definition cancel_for_owner :: "nat \<Rightarrow> wake_registration \<Rightarrow> bool world_op" where
  "cancel_for_owner owner reg =
     (if \<not> belongs_to_owner reg owner then return_err (UnknownWake (reg_id reg))
      else cancel_with_owner (Some (registry_callback (reg_id reg))) reg)"

definition scheduler_cancel :: "wake_registration \<Rightarrow> bool world_op" where
  "scheduler_cancel reg = reading (\<lambda>w.
     if \<not> belongs_to_owner reg (sc_owner (w_sched w)) then return_err (UnknownWake (reg_id reg))
     else cancel_for_owner (sc_owner (w_sched w)) reg)"

text \<open>Dropping the handle takes the same path and discards the result.\<close>

definition registration_drop :: "wake_registration \<Rightarrow> world \<Rightarrow> world" where
  "registration_drop reg w = snd (cancel_with_owner (Some (registry_callback (reg_id reg))) reg w)"

section \<open>Registration\<close>

definition retain_pending :: "(u64, wake_record) btree_map \<Rightarrow> (u64, wake_record) btree_map" where
  "retain_pending ws = filter (\<lambda>(_, r). wr_pending r) ws"

definition take_wake_id :: "u64 world_op" where
  "take_wake_id = reading (\<lambda>w.
     (let i = sc_next_id (w_sched w)
      in if i = 0 then return_err WakeIdOverflow
         else
           and_then (modify (\<lambda>w. w\<lparr>w_sched := (w_sched w)\<lparr>sc_next_id :=
             (case checked_add u64_max i 1 of Some n \<Rightarrow> n | None \<Rightarrow> 0)\<rparr>\<rparr>)) (\<lambda>_.
           return_ok i)))"

definition store_wake :: "u64 \<Rightarrow> deadline \<Rightarrow> u64 \<Rightarrow> token \<Rightarrow> wake_registration world_op" where
  "store_wake i d key k = (\<lambda>w.
     (let s = length (w_status w);
          r = \<lparr>wr_wake = \<lparr>sw_id = i, sw_deadline = d, sw_key = key\<rparr>, wr_pending = True,
               wr_consumed = False, wr_token = k, wr_state = s\<rparr>
      in (Ok \<lparr>reg_id = i, reg_token = k, reg_owner = sc_owner (w_sched w), reg_state = s\<rparr>,
          set_wakes (bm_insert i r (sc_wakes (w_sched w))) (w\<lparr>w_status := w_status w @ [WAKE_PENDING]\<rparr>))))"

definition register_wake :: "deadline \<Rightarrow> u64 \<Rightarrow> token \<Rightarrow> wake_registration world_op" where
  "register_wake d key k =
     and_then (modify (\<lambda>w. if sc_max_wakes (w_sched w) \<le> length (sc_wakes (w_sched w))
                           then set_wakes (retain_pending (sc_wakes (w_sched w))) w else w)) (\<lambda>_.
     reading (\<lambda>w.
     if sc_max_wakes (w_sched w) \<le> length (sc_wakes (w_sched w)) then
       return_err (Capacity (sc_max_wakes (w_sched w)))
     else
       and_then take_wake_id (\<lambda>i.
       and_then (store_wake i d key k) (\<lambda>reg.
       and_then (if deadline_expired d (sc_now (w_sched w)) then modify (wake_token k) else return_ok ()) (\<lambda>_.
       return_ok reg)))))"

definition register_after :: "duration \<Rightarrow> u64 \<Rightarrow> token \<Rightarrow> wake_registration world_op" where
  "register_after delay key k = reading (\<lambda>w.
     and_then (lift_result (ok_or (deadline_after (sc_now (w_sched w)) delay) (DeadlineOverflow delay))) (\<lambda>d.
     register_wake d key k))"

section \<open>Virtual time\<close>

definition is_ready :: "world \<Rightarrow> wake_record \<Rightarrow> bool" where
  "is_ready w r \<longleftrightarrow> wr_pending r \<and> w_status w ! wr_state r = WAKE_PENDING \<and>
     deadline_expired (sw_deadline (wr_wake r)) (sc_now (w_sched w))"

definition wake_order :: "wake_record \<Rightarrow> instant \<times> u64 \<times> u64" where
  "wake_order r = (sw_deadline (wr_wake r), sw_key (wr_wake r), sw_id (wr_wake r))"

text \<open>
  Ready records are marked consumed, removed, sorted by deadline, key and identity, and their tokens
  are woken in that order.
\<close>

definition poll_ready :: "world \<Rightarrow> scheduled_wake list \<times> world" where
  "poll_ready w =
     (let ready = filter (is_ready w) (map snd (sc_wakes (w_sched w)));
          w1 = fold (\<lambda>r. set_status (wr_state r) WAKE_CONSUMED) ready w;
          w2 = set_wakes (fold (\<lambda>r. bm_remove (sw_id (wr_wake r))) ready (sc_wakes (w_sched w1))) w1;
          sorted = sort_key wake_order ready
      in (map wr_wake sorted, fold (\<lambda>r. wake_token (wr_token r)) sorted w2))"

definition advance_to :: "instant \<Rightarrow> scheduled_wake list world_op" where
  "advance_to target = (\<lambda>w.
     if target < sc_now (w_sched w) then (Err (TimeWentBackwards (sc_now (w_sched w)) target), w)
     else (case poll_ready (w\<lparr>w_sched := (w_sched w)\<lparr>sc_now := target\<rparr>\<rparr>) of (wakes, w') \<Rightarrow> (Ok wakes, w')))"

definition advance_by :: "duration \<Rightarrow> scheduled_wake list world_op" where
  "advance_by d = reading (\<lambda>w.
     and_then (lift_result (ok_or (instant_checked_add (sc_now (w_sched w)) d) (DeadlineOverflow d))) (\<lambda>target.
     advance_to target))"

fun min_deadline :: "deadline list \<Rightarrow> deadline option" where
  "min_deadline [] = None"
| "min_deadline (d # ds) = Some (foldl min d ds)"

definition next_deadline :: "world \<Rightarrow> deadline option" where
  "next_deadline w =
     min_deadline (map (\<lambda>(_, r). sw_deadline (wr_wake r)) (retain_pending (sc_wakes (w_sched w))))"

section \<open>The deadline future\<close>

record deadline_future =
  df_deadline :: deadline
  df_token :: token
  df_registration :: "wake_registration option"

datatype 'a poll_outcome = PollReady 'a | PollPending

definition future_new :: "deadline \<Rightarrow> token \<Rightarrow> deadline_future" where
  "future_new d k = \<lparr>df_deadline = d, df_token = k, df_registration = None\<rparr>"

definition future_cancel :: "deadline_future \<Rightarrow> world \<Rightarrow> (scheduler_error, unit) result \<times> deadline_future \<times> world" where
  "future_cancel fut w =
     (case df_registration fut of
        None \<Rightarrow> (Ok (), fut, w)
      | Some reg \<Rightarrow>
          (case scheduler_cancel reg w of
             (Ok _, w') \<Rightarrow> (Ok (), fut\<lparr>df_registration := None\<rparr>, registration_drop reg w')
           | (Err e, w') \<Rightarrow> (Err e, fut\<lparr>df_registration := None\<rparr>, registration_drop reg w')))"

definition finish_with ::
  "control_signal \<Rightarrow> deadline_future \<Rightarrow> world \<Rightarrow>
   (scheduler_error, control_signal) result poll_outcome \<times> deadline_future \<times> world" where
  "finish_with s fut w =
     (case future_cancel fut w of
        (Ok _, fut', w') \<Rightarrow> (PollReady (Ok s), fut', w')
      | (Err e, fut', w') \<Rightarrow> (PollReady (Err e), fut', w'))"

text \<open>The second half of \<open>poll\<close>: install the waker, then look again.\<close>

definition recheck :: "bool \<Rightarrow> waker \<Rightarrow> deadline_future \<Rightarrow> world \<Rightarrow> world" where
  "recheck registered wk fut w =
     (let k = df_token fut;
          st = register_waker k wk (w_tokens w);
          raced = registered \<and> fst (take_wake k st);
          st = (if registered then snd (take_wake k st) else st)
      in if is_stop (token_signal k st) \<or> raced \<or> deadline_expired (df_deadline fut) (sc_now (w_sched w))
         then w\<lparr>w_tokens := st\<lparr>st_woken := st_woken st @ [wk]\<rparr>\<rparr>
         else w\<lparr>w_tokens := st\<rparr>)"

definition future_poll ::
  "waker \<Rightarrow> deadline_future \<Rightarrow> world \<Rightarrow>
   (scheduler_error, control_signal) result poll_outcome \<times> deadline_future \<times> world" where
  "future_poll wk fut w =
     (let s = token_signal (df_token fut) (w_tokens w)
      in if is_stop s then finish_with s fut w
         else if deadline_expired (df_deadline fut) (sc_now (w_sched w)) then finish_with StopTestGraceful fut w
         else (case df_registration fut of
             Some reg \<Rightarrow> (PollPending, fut, recheck False wk fut w)
           | None \<Rightarrow>
               (case register_wake (df_deadline fut) 0 (df_token fut) w of
                  (Ok reg, w') \<Rightarrow>
                    (let fut' = fut\<lparr>df_registration := Some reg\<rparr>
                     in (PollPending, fut', recheck True wk fut' w'))
                | (Err e, w') \<Rightarrow> (PollReady (Err e), fut, w'))))"

section \<open>The schedule window\<close>

record schedule_window =
  win_start :: instant
  win_end :: "instant option"

definition window_new :: "instant \<Rightarrow> duration option \<Rightarrow> (scheduler_error, schedule_window) result" where
  "window_new start d =
     (case d of
        None \<Rightarrow> Ok \<lparr>win_start = start, win_end = None\<rparr>
      | Some v \<Rightarrow>
          (case instant_checked_add start v of
             Some e \<Rightarrow> Ok \<lparr>win_start = start, win_end = Some e\<rparr>
           | None \<Rightarrow> Err (DeadlineOverflow v)))"

definition window_expired :: "schedule_window \<Rightarrow> instant \<Rightarrow> bool" where
  "window_expired win now \<longleftrightarrow> (case win_end win of Some e \<Rightarrow> e \<le> now | None \<Rightarrow> False)"

definition delay_before_sampler ::
  "schedule_window \<Rightarrow> instant \<Rightarrow> duration \<Rightarrow> (scheduler_error, duration option) result" where
  "delay_before_sampler win now delay =
     (if now < win_start win then Err (TimeWentBackwards now (win_start win))
      else (case win_end win of
          None \<Rightarrow> Ok (Some delay)
        | Some e \<Rightarrow>
            if e \<le> now then Ok None
            else (case duration_since e now of
                Some remaining \<Rightarrow> Ok (Some (min delay remaining))
              | None \<Rightarrow> Err (TimeWentBackwards now e))))"

section \<open>The registry invariant\<close>

definition record_ok :: "world \<Rightarrow> u64 \<Rightarrow> wake_record \<Rightarrow> bool" where
  "record_ok w i r \<longleftrightarrow> sw_id (wr_wake r) = i \<and> wr_pending r \<and> wr_state r < length (w_status w) \<and>
     w_status w ! wr_state r = WAKE_PENDING"

definition id_below :: "u64 \<Rightarrow> u64 \<Rightarrow> bool" where
  "id_below nxt i \<longleftrightarrow> 0 < i \<and> i \<le> u64_max \<and> (nxt \<noteq> 0 \<longrightarrow> i < nxt)"

definition sched_ok :: "world \<Rightarrow> bool" where
  "sched_ok w \<longleftrightarrow> bm_ok (sc_wakes (w_sched w)) \<and>
     (\<forall>(i, r) \<in> set (sc_wakes (w_sched w)). record_ok w i r \<and> id_below (sc_next_id (w_sched w)) i) \<and>
     distinct (map (\<lambda>(_, r). wr_state r) (sc_wakes (w_sched w))) \<and>
     length (sc_wakes (w_sched w)) \<le> sc_max_wakes (w_sched w) \<and> sc_next_id (w_sched w) \<le> u64_max"

abbreviation due :: "instant \<Rightarrow> u64 \<times> wake_record \<Rightarrow> bool" where
  "due now e \<equiv> sw_deadline (wr_wake (snd e)) \<le> now"

lemma set_status_fields [simp]:
  "w_sched (set_status s v w) = w_sched w"
  "w_tokens (set_status s v w) = w_tokens w"
  "w_status (set_status s v w) = (w_status w)[s := v]"
  by (simp_all add: set_status_def)

lemma wake_token_fields [simp]:
  "w_sched (wake_token k w) = w_sched w"
  "w_status (wake_token k w) = w_status w"
  "w_tokens (wake_token k w) = token_wake k (w_tokens w)"
  by (simp_all add: wake_token_def)

lemma fold_set_status [simp]:
  "w_sched (fold (\<lambda>r. set_status (f r) v) rs w) = w_sched w"
  "w_tokens (fold (\<lambda>r. set_status (f r) v) rs w) = w_tokens w"
  "length (w_status (fold (\<lambda>r. set_status (f r) v) rs w)) = length (w_status w)"
  by (induction rs arbitrary: w) simp_all

lemma status_fold_set_status:
  "s < length (w_status w) \<Longrightarrow>
   w_status (fold (\<lambda>r. set_status (f r) v) rs w) ! s = (if s \<in> f ` set rs then v else w_status w ! s)"
  by (induction rs arbitrary: w) (auto simp: nth_list_update)

lemma fold_wake_token [simp]:
  "w_sched (fold (\<lambda>r. wake_token (f r)) rs w) = w_sched w"
  "w_status (fold (\<lambda>r. wake_token (f r)) rs w) = w_status w"
  "w_tokens (fold (\<lambda>r. wake_token (f r)) rs w) = fold (\<lambda>r. token_wake (f r)) rs (w_tokens w)"
  by (induction rs arbitrary: w) simp_all

lemma fold_bm_remove: "fold (\<lambda>r. bm_remove (f r)) rs m = filter (\<lambda>e. fst e \<notin> f ` set rs) m"
  by (induction rs arbitrary: m) (auto simp: bm_remove_def intro!: filter_cong)

lemma is_ready_iff:
  "sched_ok w \<Longrightarrow> (i, r) \<in> set (sc_wakes (w_sched w)) \<Longrightarrow> is_ready w r \<longleftrightarrow> due (sc_now (w_sched w)) (i, r)"
  by (auto simp: sched_ok_def record_ok_def is_ready_def deadline_expired_def)

lemma ready_records:
  assumes "sched_ok w"
  shows "filter (is_ready w) (map snd (sc_wakes (w_sched w))) = map snd (filter (due (sc_now (w_sched w))) (sc_wakes (w_sched w)))"
proof -
  have "filter (\<lambda>e. is_ready w (snd e)) (sc_wakes (w_sched w)) = filter (due (sc_now (w_sched w))) (sc_wakes (w_sched w))"
    using is_ready_iff [OF assms] by (intro filter_cong) auto
  then show ?thesis by (simp add: filter_map comp_def)
qed

lemma in_due_iff:
  assumes "sched_ok w" and "e \<in> set (sc_wakes (w_sched w))"
  shows "fst e \<in> (\<lambda>r. sw_id (wr_wake r)) ` set (map snd (filter P (sc_wakes (w_sched w)))) \<longleftrightarrow> P e"
proof -
  have ids: "sw_id (wr_wake (snd d)) = fst d" if "d \<in> set (sc_wakes (w_sched w))" for d
    using assms(1) that by (auto simp: sched_ok_def record_ok_def)
  have "(\<lambda>r. sw_id (wr_wake r)) ` set (map snd (filter P (sc_wakes (w_sched w)))) = fst ` set (filter P (sc_wakes (w_sched w)))"
    unfolding set_map image_image by (intro image_cong refl) (simp add: ids)
  moreover have "inj_on fst (set (sc_wakes (w_sched w)))"
    using assms(1) by (simp add: sched_ok_def bm_ok_def strict_sorted_iff distinct_map)
  then have "fst e \<in> fst ` set (filter P (sc_wakes (w_sched w))) \<longleftrightarrow> e \<in> set (filter P (sc_wakes (w_sched w)))"
    using assms(2) by (intro inj_on_image_mem_iff) auto
  ultimately show ?thesis using assms(2) by simp
qed

text \<open>What polling does to the registry: the due records go, the others stay as they are.\<close>

lemma poll_ready_effect:
  assumes "sched_ok w" and "poll_ready w = (wakes, w')"
  defines "ready \<equiv> map snd (filter (due (sc_now (w_sched w))) (sc_wakes (w_sched w)))"
  shows "wakes = map wr_wake (sort_key wake_order ready)"
    and "w_sched w' = (w_sched w)\<lparr>sc_wakes := filter (\<lambda>e. \<not> due (sc_now (w_sched w)) e) (sc_wakes (w_sched w))\<rparr>"
    and "length (w_status w') = length (w_status w)"
    and "s < length (w_status w) \<Longrightarrow> w_status w' ! s = (if s \<in> wr_state ` set ready then WAKE_CONSUMED else w_status w ! s)"
    and "w_tokens w' = fold (\<lambda>r. token_wake (wr_token r)) (sort_key wake_order ready) (w_tokens w)"
proof -
  let ?w1 = "fold (\<lambda>r. set_status (wr_state r) WAKE_CONSUMED) ready w"
  let ?w2 = "set_wakes (fold (\<lambda>r. bm_remove (sw_id (wr_wake r))) ready (sc_wakes (w_sched ?w1))) ?w1"
  have w': "w' = fold (\<lambda>r. wake_token (wr_token r)) (sort_key wake_order ready) ?w2"
    and "wakes = map wr_wake (sort_key wake_order ready)"
    using assms(2) unfolding poll_ready_def ready_records [OF assms(1)] ready_def [symmetric] Let_def by auto
  then show "wakes = map wr_wake (sort_key wake_order ready)" by simp
  have "filter (\<lambda>e. fst e \<notin> (\<lambda>r. sw_id (wr_wake r)) ` set ready) (sc_wakes (w_sched w)) =
      filter (\<lambda>e. \<not> due (sc_now (w_sched w)) e) (sc_wakes (w_sched w))"
    unfolding ready_def by (intro filter_cong refl) (simp only: in_due_iff [OF assms(1)])
  then show "w_sched w' = (w_sched w)\<lparr>sc_wakes := filter (\<lambda>e. \<not> due (sc_now (w_sched w)) e) (sc_wakes (w_sched w))\<rparr>"
    by (simp add: w' fold_bm_remove)
  show "length (w_status w') = length (w_status w)" by (simp add: w')
  show "s < length (w_status w) \<Longrightarrow> w_status w' ! s = (if s \<in> wr_state ` set ready then WAKE_CONSUMED else w_status w ! s)"
    by (simp add: w' status_fold_set_status)
  show "w_tokens w' = fold (\<lambda>r. token_wake (wr_token r)) (sort_key wake_order ready) (w_tokens w)"
    by (simp add: w')
qed

lemma sched_okD:
  assumes "sched_ok w"
  shows "bm_ok (sc_wakes (w_sched w))"
    and "bm_get (sc_wakes (w_sched w)) i = Some r \<Longrightarrow> record_ok w i r \<and> id_below (sc_next_id (w_sched w)) i"
  using assms bm_entry [of "sc_wakes (w_sched w)" i r] by (auto simp: sched_ok_def)

lemma distinct_states:
  assumes "sched_ok w" and "(i, r) \<in> set (sc_wakes (w_sched w))" and "(j, q) \<in> set (sc_wakes (w_sched w))"
    and "wr_state r = wr_state q"
  shows "(i, r) = (j, q)"
proof -
  have "inj_on (\<lambda>(_, r). wr_state r) (set (sc_wakes (w_sched w)))"
    using assms(1) by (simp add: sched_ok_def distinct_map)
  from inj_onD [OF this _ assms(2,3)] show ?thesis using assms(4) by simp
qed

text \<open>Dropping records and changing the status cells of dropped records keeps the invariant.\<close>

lemma sched_ok_filter:
  assumes "sched_ok w" and "w_sched w' = (w_sched w)\<lparr>sc_wakes := filter P (sc_wakes (w_sched w)), sc_now := now\<rparr>"
    and "length (w_status w') = length (w_status w)"
    and "\<And>e. e \<in> set (sc_wakes (w_sched w)) \<Longrightarrow> P e \<Longrightarrow> w_status w' ! wr_state (snd e) = w_status w ! wr_state (snd e)"
  shows "sched_ok w'"
proof -
  have "length (filter P (sc_wakes (w_sched w))) \<le> sc_max_wakes (w_sched w)"
    using assms(1) by (auto simp: sched_ok_def intro: order_trans [OF length_filter_le])
  moreover have "bm_ok (filter P (sc_wakes (w_sched w)))"
    using assms(1) by (simp add: sched_ok_def bm_ok_def strict_sorted_iff sorted_filter distinct_map_filter)
  moreover have "distinct (map (\<lambda>(_, r). wr_state r) (filter P (sc_wakes (w_sched w))))"
    using assms(1) by (simp add: sched_ok_def distinct_map_filter)
  moreover have "record_ok w' i r \<and> id_below (sc_next_id (w_sched w')) i"
    if "(i, r) \<in> set (sc_wakes (w_sched w))" "P (i, r)" for i r
    using assms(1,2,3) assms(4) [OF that] that by (auto simp: sched_ok_def record_ok_def)
  ultimately show ?thesis
    using assms(1,2) unfolding sched_ok_def by auto
qed

lemma sched_ok_poll:
  assumes "sched_ok w" and "poll_ready w = (wakes, w')"
  shows "sched_ok w'"
proof (rule sched_ok_filter [OF assms(1)])
  show "w_sched w' = (w_sched w)\<lparr>sc_wakes := filter (\<lambda>e. \<not> due (sc_now (w_sched w)) e) (sc_wakes (w_sched w)),
      sc_now := sc_now (w_sched w)\<rparr>"
    using poll_ready_effect(2) [OF assms] by simp
  show "length (w_status w') = length (w_status w)" by (rule poll_ready_effect(3) [OF assms])
  fix e assume e: "e \<in> set (sc_wakes (w_sched w))" "\<not> due (sc_now (w_sched w)) e"
  have "wr_state (snd e) \<notin> wr_state ` set (map snd (filter (due (sc_now (w_sched w))) (sc_wakes (w_sched w))))"
    using distinct_states [OF assms(1), of "fst e" "snd e"] e by auto
  moreover have "wr_state (snd e) < length (w_status w)"
    using assms(1) e(1) by (auto simp: sched_ok_def record_ok_def)
  ultimately show "w_status w' ! wr_state (snd e) = w_status w ! wr_state (snd e)"
    using poll_ready_effect(4) [OF assms] by simp
qed

lemma sched_ok_time: "sched_ok w \<Longrightarrow> sched_ok (w\<lparr>w_sched := (w_sched w)\<lparr>sc_now := t\<rparr>\<rparr>)"
  by (auto simp: sched_ok_def record_ok_def)

lemma sched_ok_tokens: "w_sched w' = w_sched w \<Longrightarrow> w_status w' = w_status w \<Longrightarrow> sched_ok w' = sched_ok w"
  by (simp add: sched_ok_def record_ok_def)

section \<open>Registration\<close>

lemma retain_pending_ok: "sched_ok w \<Longrightarrow> retain_pending (sc_wakes (w_sched w)) = sc_wakes (w_sched w)"
  by (auto simp: sched_ok_def record_ok_def retain_pending_def filter_id_conv)

definition wake_entry :: "world \<Rightarrow> u64 \<Rightarrow> deadline \<Rightarrow> u64 \<Rightarrow> token \<Rightarrow> wake_record" where
  "wake_entry w i d key k = \<lparr>wr_wake = \<lparr>sw_id = i, sw_deadline = d, sw_key = key\<rparr>, wr_pending = True,
     wr_consumed = False, wr_token = k, wr_state = length (w_status w)\<rparr>"

definition next_wake_id :: "u64 \<Rightarrow> u64" where
  "next_wake_id i = (case checked_add u64_max i 1 of Some n \<Rightarrow> n | None \<Rightarrow> 0)"

lemma register_wake_cases:
  assumes "sched_ok w"
  shows "register_wake d key k w =
    (if sc_max_wakes (w_sched w) \<le> length (sc_wakes (w_sched w)) then (Err (Capacity (sc_max_wakes (w_sched w))), w)
     else if sc_next_id (w_sched w) = 0 then (Err WakeIdOverflow, w)
     else (let i = sc_next_id (w_sched w);
               w1 = w\<lparr>w_sched := (w_sched w)\<lparr>sc_next_id := next_wake_id i,
                        sc_wakes := bm_insert i (wake_entry w i d key k) (sc_wakes (w_sched w))\<rparr>,
                      w_status := w_status w @ [WAKE_PENDING]\<rparr>
           in (Ok \<lparr>reg_id = i, reg_token = k, reg_owner = sc_owner (w_sched w), reg_state = length (w_status w)\<rparr>,
               if d \<le> sc_now (w_sched w) then wake_token k w1 else w1)))"
proof -
  have id: "(if sc_max_wakes (w_sched w) \<le> length (sc_wakes (w_sched w))
      then set_wakes (retain_pending (sc_wakes (w_sched w))) w else w) = w"
    using retain_pending_ok [OF assms] by simp
  show ?thesis
    by (auto simp: register_wake_def id take_wake_id_def store_wake_def and_then_def deadline_expired_def
        wake_entry_def next_wake_id_def Let_def)
qed

lemma id_below_next: "id_below nxt i \<Longrightarrow> nxt \<noteq> 0 \<Longrightarrow> nxt \<le> u64_max \<Longrightarrow> id_below (next_wake_id nxt) i"
  by (auto simp: id_below_def next_wake_id_def checked_add_def)

lemma id_below_self: "nxt \<noteq> 0 \<Longrightarrow> nxt \<le> u64_max \<Longrightarrow> id_below (next_wake_id nxt) nxt"
  by (auto simp: id_below_def next_wake_id_def checked_add_def)

lemma next_wake_id_le: "next_wake_id n \<le> u64_max"
  by (auto simp: next_wake_id_def checked_add_def)

lemma fresh_wake_id:
  assumes "sched_ok w" and "sc_next_id (w_sched w) \<noteq> 0"
  shows "bm_get (sc_wakes (w_sched w)) (sc_next_id (w_sched w)) = None"
proof (cases "bm_get (sc_wakes (w_sched w)) (sc_next_id (w_sched w))")
  case (Some r)
  then show ?thesis using sched_okD(2) [OF assms(1) Some] assms(2) by (simp add: id_below_def)
qed

lemma bm_insert_set:
  "bm_ok m \<Longrightarrow> bm_get m k = None \<Longrightarrow> set (bm_insert k v m) = insert (k, v) (set m)"
  using bm_entry [of m] bm_entry [OF bm_ok_insert, of m] by (auto simp: bm_get_insert split: if_splits)

lemma mset_bm_insert:
  "bm_ok m \<Longrightarrow> bm_get m k = None \<Longrightarrow> mset (bm_insert k v m) = add_mset (k, v) (mset m)"
proof (rule set_eq_iff_mset_eq_distinct [THEN iffD1, of _ "(k, v) # m", simplified])
  assume a: "bm_ok m" "bm_get m k = None"
  show "set (bm_insert k v m) = insert (k, v) (set m)" by (rule bm_insert_set [OF a])
  show "distinct (bm_insert k v m)"
    using bm_ok_insert [OF a(1), of k v] by (simp add: bm_ok_def strict_sorted_iff distinct_map)
  show "(k, v) \<notin> set m \<and> distinct m"
    using a bm_entry [OF a(1)] by (simp add: bm_ok_def strict_sorted_iff distinct_map)
qed

lemma register_wake_ok:
  assumes "sched_ok w" and "register_wake d key k w = (res, w')"
  shows "sched_ok w'"
proof (cases "sc_max_wakes (w_sched w) \<le> length (sc_wakes (w_sched w)) \<or> sc_next_id (w_sched w) = 0")
  case True
  then have "w' = w" using assms(2) by (auto simp: register_wake_cases [OF assms(1)] split: if_splits)
  then show ?thesis using assms(1) by simp
next
  case False
  let ?i = "sc_next_id (w_sched w)" and ?ws = "sc_wakes (w_sched w)"
  let ?r = "wake_entry w ?i d key k"
  have f: "bm_get ?ws ?i = None" using fresh_wake_id [OF assms(1)] False by simp
  have fields: "w_sched w' = (w_sched w)\<lparr>sc_next_id := next_wake_id ?i, sc_wakes := bm_insert ?i ?r ?ws\<rparr>"
    "w_status w' = w_status w @ [WAKE_PENDING]"
    using assms(2) False by (auto simp: register_wake_cases [OF assms(1)] Let_def split: if_splits)
  have m: "mset (bm_insert ?i ?r ?ws) = add_mset (?i, ?r) (mset ?ws)"
    by (rule mset_bm_insert [OF sched_okD(1) [OF assms(1)] f])
  have set: "set (bm_insert ?i ?r ?ws) = insert (?i, ?r) (set ?ws)"
    by (rule bm_insert_set [OF sched_okD(1) [OF assms(1)] f])
  have len: "length (bm_insert ?i ?r ?ws) = Suc (length ?ws)" using arg_cong [OF m, of size] by simp
  have "?i \<le> u64_max" using assms(1) by (simp add: sched_ok_def)
  then have nid: "id_below (next_wake_id ?i) ?i" using False id_below_self by simp
  have st: "wr_state r < length (w_status w)" if "(j, r) \<in> set ?ws" for j r
    using assms(1) that by (auto simp: sched_ok_def record_ok_def)
  have "mset (map (\<lambda>(_, r). wr_state r) (bm_insert ?i ?r ?ws)) = mset (length (w_status w) # map (\<lambda>(_, r). wr_state r) ?ws)"
    using m by (simp add: wake_entry_def)
  moreover have "distinct (length (w_status w) # map (\<lambda>(_, r). wr_state r) ?ws)"
    using assms(1) st by (fastforce simp: sched_ok_def)
  ultimately have "distinct (map (\<lambda>(_, r). wr_state r) (bm_insert ?i ?r ?ws))"
    using mset_eq_imp_distinct_iff by blast
  moreover have "record_ok w' j r \<and> id_below (next_wake_id ?i) j" if "(j, r) \<in> insert (?i, ?r) (set ?ws)" for j r
  proof (cases "(j, r) \<in> set ?ws")
    case True
    then have "record_ok w j r" "id_below ?i j" using assms(1) by (auto simp: sched_ok_def)
    then show ?thesis using id_below_next False \<open>?i \<le> u64_max\<close> st [OF True]
      by (auto simp: record_ok_def fields nth_append)
  qed (use that nid in \<open>auto simp: record_ok_def fields wake_entry_def\<close>)
  ultimately show ?thesis
    using False len next_wake_id_le bm_ok_insert [OF sched_okD(1) [OF assms(1)]]
    unfolding sched_ok_def fields by (auto simp: set)
qed

section \<open>Cancellation\<close>

text \<open>A handle and the record it belongs to.\<close>

definition owns_cell :: "(u64, wake_record) btree_map \<Rightarrow> wake_registration \<Rightarrow> bool" where
  "owns_cell ws g \<longleftrightarrow> (\<forall>i r. bm_get ws i = Some r \<longrightarrow> (i = reg_id g) = (wr_state r = reg_state g))"

definition handle_ok :: "world \<Rightarrow> wake_registration \<Rightarrow> bool" where
  "handle_ok w g \<longleftrightarrow> reg_owner g = sc_owner (w_sched w) \<and> reg_state g < length (w_status w) \<and>
     id_below (sc_next_id (w_sched w)) (reg_id g) \<and>
     (w_status w ! reg_state g = WAKE_PENDING \<longleftrightarrow> bm_get (sc_wakes (w_sched w)) (reg_id g) \<noteq> None) \<and>
     owns_cell (sc_wakes (w_sched w)) g"

lemma handle_state:
  "handle_ok w g \<Longrightarrow> bm_get (sc_wakes (w_sched w)) i = Some r \<Longrightarrow> wr_state r = reg_state g \<longleftrightarrow> i = reg_id g"
  unfolding handle_ok_def owns_cell_def by blast

lemma scheduler_cancel_cases:
  assumes "sched_ok w" and "handle_ok w g"
  shows "scheduler_cancel g w =
    (if bm_get (sc_wakes (w_sched w)) (reg_id g) = None then (Ok False, w)
     else (Ok True, wake_token (reg_token g)
       (set_status (reg_state g) WAKE_CANCELLED (set_wakes (bm_remove (reg_id g) (sc_wakes (w_sched w))) w))))"
proof (cases "bm_get (sc_wakes (w_sched w)) (reg_id g)")
  case None
  then have "w_status w ! reg_state g \<noteq> WAKE_PENDING" using assms(2) by (auto simp: handle_ok_def)
  then show ?thesis
    using None assms(2) by (simp add: scheduler_cancel_def cancel_for_owner_def belongs_to_owner_def cancel_with_owner_def handle_ok_def)
next
  case (Some r)
  then have "w_status w ! reg_state g = WAKE_PENDING" "wr_state r = reg_state g" "reg_owner g = sc_owner (w_sched w)"
    using assms(2) handle_state [OF assms(2) Some] by (auto simp: handle_ok_def)
  moreover have "wr_pending r" using sched_okD(2) [OF assms(1) Some] by (simp add: record_ok_def)
  ultimately show ?thesis
    using Some by (simp add: scheduler_cancel_def cancel_for_owner_def belongs_to_owner_def cancel_with_owner_def
        registry_callback_def cancel_registration_def and_then_def set_status_def)
qed

lemma scheduler_cancel_ok:
  assumes "sched_ok w" and "handle_ok w g" and "scheduler_cancel g w = (res, w')"
  shows "sched_ok w'"
proof (cases "bm_get (sc_wakes (w_sched w)) (reg_id g)")
  case None
  then show ?thesis using assms by (simp add: scheduler_cancel_cases)
next
  case (Some r)
  let ?w = "set_status (reg_state g) WAKE_CANCELLED (set_wakes (bm_remove (reg_id g) (sc_wakes (w_sched w))) w)"
  have "sched_ok ?w"
  proof (rule sched_ok_filter [OF assms(1), where P = "\<lambda>e. fst e \<noteq> reg_id g" and now = "sc_now (w_sched w)"])
    fix e assume e: "e \<in> set (sc_wakes (w_sched w))" "fst e \<noteq> reg_id g"
    then have ge: "bm_get (sc_wakes (w_sched w)) (fst e) = Some (snd e)"
      using bm_entry [OF sched_okD(1) [OF assms(1)], of "fst e" "snd e"] by simp
    have "wr_state (snd e) \<noteq> reg_state g" using handle_state [OF assms(2) ge] e(2) by simp
    then show "w_status ?w ! wr_state (snd e) = w_status w ! wr_state (snd e)" by simp
  qed (simp_all add: bm_remove_def)
  then show ?thesis using assms(3) Some sched_ok_tokens [of w' ?w] by (auto simp: scheduler_cancel_cases [OF assms(1,2)])
qed

section \<open>Runs\<close>

text \<open>
  A run of a scheduler with its history: the handles issued, the wakes delivered and the identities
  whose cancellation succeeded. Between scheduler calls the tokens may change in any way.
\<close>

inductive sched_run :: "world \<Rightarrow> wake_registration list \<Rightarrow> scheduled_wake list \<Rightarrow> u64 list \<Rightarrow> bool" where
  run_new: "sched_run \<lparr>w_sched = scheduler_new owner now max_wakes, w_tokens = st, w_status = []\<rparr> [] [] []"
| run_register: "sched_run w gs fs cs \<Longrightarrow> register_wake d key k w = (Ok g, w') \<Longrightarrow> sched_run w' (gs @ [g]) fs cs"
| run_refused: "sched_run w gs fs cs \<Longrightarrow> register_wake d key k w = (Err e, w') \<Longrightarrow> sched_run w' gs fs cs"
| run_advance: "sched_run w gs fs cs \<Longrightarrow> advance_to t w = (Ok wakes, w') \<Longrightarrow> sched_run w' gs (fs @ wakes) cs"
| run_cancel: "sched_run w gs fs cs \<Longrightarrow> g \<in> set gs \<Longrightarrow> scheduler_cancel g w = (Ok c, w') \<Longrightarrow>
    sched_run w' gs fs (if c then cs @ [reg_id g] else cs)"
| run_tokens: "sched_run w gs fs cs \<Longrightarrow> sched_run (w\<lparr>w_tokens := st\<rparr>) gs fs cs"

definition history_ok :: "world \<Rightarrow> wake_registration list \<Rightarrow> scheduled_wake list \<Rightarrow> u64 list \<Rightarrow> bool" where
  "history_ok w gs fs cs \<longleftrightarrow> sched_ok w \<and> (\<forall>g \<in> set gs. handle_ok w g) \<and> distinct (map reg_id gs) \<and>
     mset (map reg_id gs) = mset (map sw_id fs) + mset cs + mset (map fst (sc_wakes (w_sched w))) \<and>
     (\<forall>f \<in> set fs. sw_deadline f \<le> sc_now (w_sched w))"

lemma handle_ok_tokens: "w_sched w' = w_sched w \<Longrightarrow> w_status w' = w_status w \<Longrightarrow> handle_ok w' g = handle_ok w g"
  by (simp add: handle_ok_def)

lemma history_tokens:
  "w_sched w' = w_sched w \<Longrightarrow> w_status w' = w_status w \<Longrightarrow> history_ok w' gs fs cs = history_ok w gs fs cs"
  using sched_ok_tokens [of w' w] handle_ok_tokens [of w' w] by (simp add: history_ok_def)

lemma handle_ok_register:
  assumes "sched_ok w" and "register_wake d key k w = (Ok g, w')"
  shows "handle_ok w' g" and "handle_ok w h \<Longrightarrow> handle_ok w' h \<and> reg_id h \<noteq> reg_id g"
    and "mset (map fst (sc_wakes (w_sched w'))) = add_mset (reg_id g) (mset (map fst (sc_wakes (w_sched w))))"
    and "sc_now (w_sched w') = sc_now (w_sched w)"
proof -
  let ?i = "sc_next_id (w_sched w)" and ?ws = "sc_wakes (w_sched w)"
  let ?r = "wake_entry w ?i d key k"
  have nz: "?i \<noteq> 0" and g: "g = \<lparr>reg_id = ?i, reg_token = k, reg_owner = sc_owner (w_sched w), reg_state = length (w_status w)\<rparr>"
    and fields: "w_sched w' = (w_sched w)\<lparr>sc_next_id := next_wake_id ?i, sc_wakes := bm_insert ?i ?r ?ws\<rparr>"
      "w_status w' = w_status w @ [WAKE_PENDING]"
    using assms(2) by (auto simp: register_wake_cases [OF assms(1)] Let_def split: if_splits)
  note ok = sched_okD(1) [OF assms(1)]
  have f: "bm_get ?ws ?i = None" using fresh_wake_id [OF assms(1) nz] .
  have le: "?i \<le> u64_max" using assms(1) by (simp add: sched_ok_def)
  have old: "wr_state r < length (w_status w)" if "bm_get ?ws i = Some r" for i r
    using sched_okD(2) [OF assms(1) that] by (simp add: record_ok_def)
  show "handle_ok w' g"
    using id_below_self [OF nz le] f
    by (auto simp: handle_ok_def owns_cell_def g fields bm_get_insert [OF ok] wake_entry_def dest: old)
  show "handle_ok w' h \<and> reg_id h \<noteq> reg_id g" if h: "handle_ok w h"
  proof -
    have "reg_id h \<noteq> ?i" using h nz by (auto simp: handle_ok_def id_below_def)
    moreover have "owns_cell (bm_insert ?i ?r ?ws) h"
      unfolding owns_cell_def
    proof (intro allI impI)
      fix i r assume r: "bm_get (bm_insert ?i ?r ?ws) i = Some r"
      show "(i = reg_id h) = (wr_state r = reg_state h)"
      proof (cases "i = ?i")
        case True
        then show ?thesis using r calculation h by (auto simp: bm_get_insert [OF ok] wake_entry_def handle_ok_def)
      next
        case False
        then show ?thesis using r handle_state [OF h, of i r] by (simp add: bm_get_insert [OF ok])
      qed
    qed
    ultimately show ?thesis
      using h id_below_next [OF _ nz le] by (simp add: handle_ok_def g fields bm_get_insert [OF ok] nth_append)
  qed
  show "mset (map fst (sc_wakes (w_sched w'))) = add_mset (reg_id g) (mset (map fst ?ws))"
    using mset_bm_insert [OF ok f, of ?r] by (simp add: fields g)
  show "sc_now (w_sched w') = sc_now (w_sched w)" by (simp add: fields)
qed

lemma history_register:
  assumes "history_ok w gs fs cs" and "register_wake d key k w = (Ok g, w')"
  shows "history_ok w' (gs @ [g]) fs cs"
proof -
  have ok: "sched_ok w" using assms(1) by (simp add: history_ok_def)
  note h = handle_ok_register [OF ok assms(2)]
  have "reg_id g \<notin> set (map reg_id gs)" using h(2) assms(1) by (fastforce simp: history_ok_def)
  then show ?thesis using assms(1) h register_wake_ok [OF ok assms(2)] by (simp add: history_ok_def)
qed

lemma history_refused:
  assumes "history_ok w gs fs cs" and "register_wake d key k w = (Err e, w')"
  shows "w' = w"
proof -
  have ok: "sched_ok w" using assms(1) by (simp add: history_ok_def)
  show ?thesis using assms(2) by (auto simp: register_wake_cases [OF ok] Let_def split: if_splits)
qed

lemma bm_get_filter:
  assumes "bm_ok m"
  shows "bm_get (filter P m) k = Some v \<longleftrightarrow> bm_get m k = Some v \<and> P (k, v)"
proof -
  have "bm_ok (filter P m)" using assms by (simp add: bm_ok_def strict_sorted_iff sorted_filter distinct_map_filter)
  then show ?thesis using bm_entry [OF assms, of k v] bm_entry [of "filter P m" k v] by auto
qed

lemma handle_ok_poll:
  assumes "sched_ok w" and "handle_ok w g" and "poll_ready w = (wakes, w')"
  shows "handle_ok w' g"
proof -
  let ?now = "sc_now (w_sched w)" and ?ws = "sc_wakes (w_sched w)"
  note ok = sched_okD(1) [OF assms(1)] and e = poll_ready_effect [OF assms(1,3)]
  have get: "bm_get (sc_wakes (w_sched w')) i = Some r \<longleftrightarrow> bm_get ?ws i = Some r \<and> \<not> due ?now (i, r)" for i r
    by (simp add: e(2) bm_get_filter [OF ok])
  have g: "reg_state g < length (w_status w)" using assms(2) by (simp add: handle_ok_def)
  have "reg_state g \<in> wr_state ` set (map snd (filter (due ?now) ?ws)) \<longleftrightarrow>
      (\<exists>r. bm_get ?ws (reg_id g) = Some r \<and> due ?now (reg_id g, r))" (is "?lhs = ?rhs")
  proof
    assume ?lhs
    then obtain i r where r: "(i, r) \<in> set ?ws" "due ?now (i, r)" "reg_state g = wr_state r" by auto
    then have gi: "bm_get ?ws i = Some r" using bm_entry [OF ok] by simp
    have "i = reg_id g" using handle_state [OF assms(2) gi] r(3) by simp
    then show ?rhs using r(2) gi by auto
  next
    assume ?rhs
    then obtain r where r: "bm_get ?ws (reg_id g) = Some r" "due ?now (reg_id g, r)" by blast
    then have "(reg_id g, r) \<in> set (filter (due ?now) ?ws)" using bm_entry [OF ok] by simp
    moreover have "reg_state g = wr_state r" using handle_state [OF assms(2) r(1)] by simp
    moreover from calculation(1) have "wr_state (snd (reg_id g, r)) \<in> wr_state ` set (map snd (filter (due ?now) ?ws))"
      unfolding set_map by (intro imageI)
    ultimately show ?lhs by simp
  qed
  note ready = this
  have old: "(w_status w ! reg_state g = WAKE_PENDING) = (bm_get ?ws (reg_id g) \<noteq> None)"
    using assms(2) by (simp add: handle_ok_def)
  have "(w_status w' ! reg_state g = WAKE_PENDING) = (bm_get (sc_wakes (w_sched w')) (reg_id g) \<noteq> None)"
  proof (cases "bm_get ?ws (reg_id g)")
    case None
    then have "bm_get (sc_wakes (w_sched w')) (reg_id g) = None" using get [of "reg_id g"]
      by (cases "bm_get (sc_wakes (w_sched w')) (reg_id g)") auto
    moreover have "w_status w' ! reg_state g = w_status w ! reg_state g" unfolding e(4) [OF g] ready None by simp
    moreover have "w_status w ! reg_state g \<noteq> WAKE_PENDING" unfolding old None by simp
    ultimately show ?thesis by simp
  next
    case (Some r)
    have "bm_get (sc_wakes (w_sched w')) (reg_id g) \<noteq> None \<longleftrightarrow>
        (\<exists>q. bm_get (sc_wakes (w_sched w')) (reg_id g) = Some q)" by (rule not_None_eq)
    also have "\<dots> \<longleftrightarrow> \<not> due ?now (reg_id g, r)" unfolding get Some by simp
    finally have "bm_get (sc_wakes (w_sched w')) (reg_id g) \<noteq> None \<longleftrightarrow> \<not> due ?now (reg_id g, r)" .
    moreover have "(w_status w' ! reg_state g = WAKE_PENDING) = (\<not> due ?now (reg_id g, r))"
      using old unfolding e(4) [OF g] ready Some by (simp add: wake_status_defs)
    ultimately show ?thesis by simp
  qed
  moreover have "owns_cell (sc_wakes (w_sched w')) g"
    unfolding owns_cell_def get using handle_state [OF assms(2)] by blast
  ultimately show ?thesis
    using assms(2) e(3) e(2) unfolding handle_ok_def by simp
qed

lemma poll_ready_ids:
  assumes "sched_ok w" and "poll_ready w = (wakes, w')"
  shows "mset (map fst (sc_wakes (w_sched w))) = mset (map sw_id wakes) + mset (map fst (sc_wakes (w_sched w')))"
    and "f \<in> set wakes \<Longrightarrow> sw_deadline f \<le> sc_now (w_sched w)"
proof -
  let ?D = "filter (due (sc_now (w_sched w))) (sc_wakes (w_sched w))"
  note e = poll_ready_effect [OF assms]
  have "map (\<lambda>e. sw_id (wr_wake (snd e))) ?D = map fst ?D"
    using assms(1) by (auto simp: sched_ok_def record_ok_def)
  moreover have "mset (map sw_id wakes) = mset (map (\<lambda>e. sw_id (wr_wake (snd e))) ?D)"
    unfolding e(1) by (simp add: multiset.map_comp comp_def)
  ultimately have fired: "mset (map sw_id wakes) = mset (map fst ?D)" by (simp only:)
  let ?N = "filter (\<lambda>e. \<not> due (sc_now (w_sched w)) e) (sc_wakes (w_sched w))"
  have rest: "sc_wakes (w_sched w') = ?N" using e(2) by simp
  have "mset (sc_wakes (w_sched w)) = mset ?D + mset ?N" unfolding mset_filter by (rule multiset_partition)
  from arg_cong [OF this, of "image_mset fst"]
  show "mset (map fst (sc_wakes (w_sched w))) = mset (map sw_id wakes) + mset (map fst (sc_wakes (w_sched w')))"
    unfolding fired rest by (simp only: mset_map image_mset_union)
  show "f \<in> set wakes \<Longrightarrow> sw_deadline f \<le> sc_now (w_sched w)" unfolding e(1) by auto
qed

lemma history_advance:
  assumes "history_ok w gs fs cs" and "advance_to t w = (Ok wakes, w')"
  shows "history_ok w' gs (fs @ wakes) cs"
proof -
  let ?w = "w\<lparr>w_sched := (w_sched w)\<lparr>sc_now := t\<rparr>\<rparr>"
  have p: "poll_ready ?w = (wakes, w')" and t: "sc_now (w_sched w) \<le> t"
    using assms(2) by (auto simp: advance_to_def split: if_splits prod.splits)
  have ok: "sched_ok ?w" using assms(1) sched_ok_time by (simp add: history_ok_def)
  note ids = poll_ready_ids [OF ok p]
  have "handle_ok w' g" if "g \<in> set gs" for g
    using that assms(1) handle_ok_poll [OF ok _ p, of g] by (simp add: history_ok_def handle_ok_def)
  moreover have "sc_now (w_sched w') = t" using poll_ready_effect(2) [OF ok p] by simp
  ultimately show ?thesis
    using assms(1) sched_ok_poll [OF ok p] ids t by (auto simp: history_ok_def intro: order_trans)
qed

lemma mset_remove_one: "distinct xs \<Longrightarrow> x \<in> set xs \<Longrightarrow> mset xs = add_mset x (mset (filter (\<lambda>y. y \<noteq> x) xs))"
proof (induction xs)
  case (Cons a xs)
  show ?case
  proof (cases "a = x")
    case True
    then have "filter (\<lambda>y. y \<noteq> x) xs = xs" using Cons.prems(1) by (auto simp: filter_id_conv)
    then show ?thesis using True by (simp del: mset_filter)
  qed (use Cons in auto)
qed simp

lemma history_cancel:
  assumes "history_ok w gs fs cs" and "g \<in> set gs" and "scheduler_cancel g w = (Ok c, w')"
  shows "history_ok w' gs fs (if c then cs @ [reg_id g] else cs)"
proof -
  have ok: "sched_ok w" and h: "handle_ok w g" using assms(1,2) by (simp_all add: history_ok_def)
  note cases = scheduler_cancel_cases [OF ok h]
  show ?thesis
  proof (cases "bm_get (sc_wakes (w_sched w)) (reg_id g)")
    case None
    then show ?thesis using assms cases by simp
  next
    case (Some r)
    let ?ws = "sc_wakes (w_sched w)"
    have c: "c" and fields: "w_sched w' = (w_sched w)\<lparr>sc_wakes := bm_remove (reg_id g) ?ws\<rparr>"
      "w_status w' = (w_status w)[reg_state g := WAKE_CANCELLED]"
      using assms(3) unfolding cases by (auto simp: Some)
    have inj: "inj_on reg_id (set gs)" using assms(1) by (simp add: history_ok_def distinct_map)
    have st: "(i = reg_id f) = (wr_state r = reg_state f)"
      if "handle_ok w f" "bm_get (bm_remove (reg_id g) ?ws) i = Some r" for f i r
      using that(2) handle_state [OF that(1), of i r] by (simp add: bm_get_remove split: if_splits)
    have other: "handle_ok w' f" if f: "f \<in> set gs" for f
    proof -
      have hf: "handle_ok w f" using f assms(1) by (simp add: history_ok_def)
      have "(w_status w' ! reg_state f = WAKE_PENDING) = (bm_get (bm_remove (reg_id g) ?ws) (reg_id f) \<noteq> None)"
      proof (cases "f = g")
        case True
        then show ?thesis using h by (simp add: handle_ok_def fields bm_get_remove wake_status_defs)
      next
        case False
        have ne: "reg_id f \<noteq> reg_id g" using inj False f assms(2) by (meson inj_onD)
        moreover have "reg_state f \<noteq> reg_state g"
          using ne handle_state [OF hf Some] handle_state [OF h Some] by auto
        ultimately show ?thesis using hf by (simp add: handle_ok_def fields bm_get_remove)
      qed
      moreover have "owns_cell (bm_remove (reg_id g) ?ws) f" unfolding owns_cell_def using st [OF hf] by blast
      ultimately show ?thesis using hf unfolding handle_ok_def fields by simp
    qed
    have dist: "distinct (map fst ?ws)" using sched_okD(1) [OF ok] by (simp add: bm_ok_def strict_sorted_iff)
    have mem: "reg_id g \<in> set (map fst ?ws)" using Some dom_bm_get [of ?ws] by auto
    have "map fst (bm_remove (reg_id g) ?ws) = filter (\<lambda>i. i \<noteq> reg_id g) (map fst ?ws)"
      by (simp add: bm_remove_def filter_map comp_def)
    then have "mset (map fst ?ws) = add_mset (reg_id g) (mset (map fst (bm_remove (reg_id g) ?ws)))"
      using mset_remove_one [OF dist mem] by (simp only:)
    then show ?thesis
      using assms(1) c other scheduler_cancel_ok [OF ok h assms(3)] by (simp add: history_ok_def fields)
  qed
qed

lemma sched_run_history: "sched_run w gs fs cs \<Longrightarrow> history_ok w gs fs cs"
proof (induction rule: sched_run.induct)
  case (run_new owner now max_wakes st)
  show ?case by (simp add: history_ok_def sched_ok_def scheduler_new_def bm_ok_def u64_max_def)
next
  case (run_register w gs fs cs d key k g w')
  show ?case by (rule history_register [OF run_register.IH run_register.hyps(2)])
next
  case (run_refused w gs fs cs d key k e w')
  from history_refused [OF run_refused.IH run_refused.hyps(2)] run_refused.IH show ?case by simp
next
  case (run_advance w gs fs cs t wakes w')
  show ?case by (rule history_advance [OF run_advance.IH run_advance.hyps(2)])
next
  case (run_cancel w gs fs cs g c w')
  show ?case by (rule history_cancel [OF run_cancel.IH run_cancel.hyps(2,3)])
next
  case (run_tokens w gs fs cs st)
  then show ?case using history_tokens [of "w\<lparr>w_tokens := st\<rparr>" w] by simp
qed

end
