(* ===== verification/Scheduler_Behaviour.thy ===== *)
theory Scheduler_Behaviour
  imports Scheduler
begin

text \<open>
  What the scheduler of \<open>crates/runtime/src/scheduler.rs\<close> promises to its callers: linear resolution
  of registrations, exact and ordered delivery, refusals without effect, completion of the deadline
  future, and the delay arithmetic of the schedule window.
\<close>

text \<open>C21: Every wake registration is resolved exactly once. In any run of the scheduler, however
  registrations, cancellations, time advances and token changes interleave, each issued identity
  is in exactly one of three places: delivered once, cancelled once, or still pending; identities
  are never issued twice, and nothing is delivered before its deadline.\<close>

theorem wake_resolved_once:
  assumes "sched_run w gs fs cs"
  shows "distinct (map reg_id gs) \<and> distinct (map sw_id fs @ cs @ map fst (sc_wakes (w_sched w))) \<and>
    set (map sw_id fs @ cs @ map fst (sc_wakes (w_sched w))) = set (map reg_id gs) \<and>
    (\<forall>f \<in> set fs. sw_deadline f \<le> sc_now (w_sched w))"
proof -
  note h = sched_run_history [OF assms]
  let ?L = "map sw_id fs @ cs @ map fst (sc_wakes (w_sched w))"
  have m: "mset (map reg_id gs) = mset ?L" using h by (simp add: history_ok_def add.assoc)
  have d: "distinct (map reg_id gs)" using h by (simp add: history_ok_def)
  have "distinct ?L" using d mset_eq_imp_distinct_iff [OF m] by blast
  then show ?thesis using d mset_eq_setD [OF m] h by (simp add: history_ok_def)
qed

definition demo_world :: world where
  "demo_world = \<lparr>w_sched = scheduler_new 9 0 4, w_tokens = fst token_new, w_status = []\<rparr>"

lemma demo_registered:
  "\<exists>g w. sched_run w [g] [] [] \<and> reg_id g = 1 \<and> sc_now (w_sched w) = 0 \<and>
     sc_wakes (w_sched w) = [(1, wake_entry demo_world 1 5 4 0)] \<and> w_status w = [WAKE_PENDING]"
proof -
  have run: "sched_run demo_world [] [] []" unfolding demo_world_def by (rule run_new)
  have ok: "sched_ok demo_world" using sched_run_history [OF run] by (simp add: history_ok_def)
  obtain g w where r: "register_wake 5 4 0 demo_world = (Ok g, w)" "reg_id g = 1" "sc_now (w_sched w) = 0"
      "sc_wakes (w_sched w) = [(1, wake_entry demo_world 1 5 4 0)]" "w_status w = [WAKE_PENDING]"
    by (simp add: register_wake_cases [OF ok] Let_def) (simp add: demo_world_def scheduler_new_def MAX_SCHEDULED_WAKEUPS_def)
  then show ?thesis using run_register [OF run r(1)] by auto
qed

lemma distinct_one:
  assumes "set xs = {a} \<and> distinct xs"
  shows "xs = [a]"
proof (cases xs)
  case (Cons y ys)
  then show ?thesis using assms by (cases ys) auto
qed (use assms in simp)

theorem wake_resolved_once_witness:
  "\<exists>w g fs. sched_run w [g] fs [] \<and> map sw_id fs = [1] \<and> sc_wakes (w_sched w) = []"
proof -
  obtain g w where w: "sched_run w [g] [] []" "reg_id g = 1" "sc_now (w_sched w) = 0"
      "sc_wakes (w_sched w) = [(1, wake_entry demo_world 1 5 4 0)]" "w_status w = [WAKE_PENDING]"
    using demo_registered by blast
  let ?w = "w\<lparr>w_sched := (w_sched w)\<lparr>sc_now := 7\<rparr>\<rparr>"
  obtain wakes w' where p: "poll_ready ?w = (wakes, w')" by (cases "poll_ready ?w")
  have a: "advance_to 7 w = (Ok wakes, w')" using w(3) p by (simp add: advance_to_def)
  have run: "sched_run w' [g] ([] @ wakes) []" by (rule run_advance [OF w(1) a])
  have ok: "sched_ok ?w" using sched_run_history [OF w(1)] sched_ok_time by (simp add: history_ok_def)
  have none: "sc_wakes (w_sched w') = []"
    using poll_ready_effect(2) [OF ok p] w(4) by (simp add: wake_entry_def)
  have "set (map sw_id wakes) = {1} \<and> distinct (map sw_id wakes)"
    using wake_resolved_once [OF run] w(2) none by simp
  then have "map sw_id wakes = [1]" by (rule distinct_one)
  then show ?thesis using run none by (intro exI conjI) simp_all
qed

section \<open>Delivery\<close>

lemma min_deadline_mem: "min_deadline ds = Some d \<Longrightarrow> d \<in> set ds"
proof (cases ds)
  case (Cons a as)
  have "foldl min a as \<in> set (a # as)" for a :: nat and as
  proof (induction as arbitrary: a)
    case (Cons b as)
    from Cons [of "min a b"] show ?case by (auto simp: min_def split: if_splits)
  qed simp
  then show "min_deadline ds = Some d \<Longrightarrow> d \<in> set ds" using Cons by auto
qed simp

text \<open>C22: Advancing virtual time forwards always succeeds and delivers exactly the wakes whose
  deadline has come, in the order of deadline, caller key and identity; the later ones stay
  registered, and the next deadline lies after the new time.\<close>

theorem advance_delivers_exactly_due:
  assumes "sched_run w gs fs cs" and "sc_now (w_sched w) \<le> t"
  shows "\<exists>wakes w'. advance_to t w = (Ok wakes, w') \<and>
    mset wakes = mset (map (\<lambda>e. wr_wake (snd e)) (filter (\<lambda>e. sw_deadline (wr_wake (snd e)) \<le> t) (sc_wakes (w_sched w)))) \<and>
    sorted (map (\<lambda>v. (sw_deadline v, sw_key v, sw_id v)) wakes) \<and>
    sc_wakes (w_sched w') = filter (\<lambda>e. t < sw_deadline (wr_wake (snd e))) (sc_wakes (w_sched w)) \<and>
    sc_now (w_sched w') = t \<and> (\<forall>d. next_deadline w' = Some d \<longrightarrow> t < d)"
proof -
  let ?w = "w\<lparr>w_sched := (w_sched w)\<lparr>sc_now := t\<rparr>\<rparr>"
  let ?D = "filter (due t) (sc_wakes (w_sched w))"
  obtain wakes w' where p: "poll_ready ?w = (wakes, w')" by (cases "poll_ready ?w")
  have a: "advance_to t w = (Ok wakes, w')" using assms(2) p by (simp add: advance_to_def)
  have ok: "sched_ok ?w" using sched_run_history [OF assms(1)] sched_ok_time by (simp add: history_ok_def)
  note e = poll_ready_effect [OF ok p, simplified]
  have m: "mset wakes = mset (map (\<lambda>e. wr_wake (snd e)) ?D)"
    unfolding e(1) by (simp add: multiset.map_comp comp_def)
  have "map (\<lambda>v. (sw_deadline v, sw_key v, sw_id v)) wakes = map wake_order (sort_key wake_order (map snd ?D))"
    unfolding e(1) by (simp add: wake_order_def)
  then have s: "sorted (map (\<lambda>v. (sw_deadline v, sw_key v, sw_id v)) wakes)" by (simp only: sorted_sort_key)
  have r: "sc_wakes (w_sched w') = filter (\<lambda>e. t < sw_deadline (wr_wake (snd e))) (sc_wakes (w_sched w))"
    using e(2) by (simp add: not_le)
  have "t < d" if "next_deadline w' = Some d" for d
    using min_deadline_mem [OF that [unfolded next_deadline_def]] by (auto simp: retain_pending_def r)
  then show ?thesis using a m s r e(2) by (intro exI [of _ wakes] exI [of _ w'] conjI allI impI) simp_all
qed

theorem advance_delivers_exactly_due_witness:
  "\<exists>w g wakes w'. sched_run w [g] [] [] \<and> advance_to 7 w = (Ok wakes, w') \<and>
     wakes = [\<lparr>sw_id = 1, sw_deadline = 5, sw_key = 4\<rparr>] \<and> sc_wakes (w_sched w') = []"
proof -
  obtain g w where w: "sched_run w [g] [] []" "sc_now (w_sched w) = 0"
      "sc_wakes (w_sched w) = [(1, wake_entry demo_world 1 5 4 0)]"
    using demo_registered by blast
  then show ?thesis using advance_delivers_exactly_due [OF w(1), of 7] by (auto simp: wake_entry_def)
qed

section \<open>Refusals\<close>

text \<open>A scheduler call that fails changes nothing, and it fails only for its documented reason:
  a registration for a full registry or exhausted identities, an advance for a target in the past, a
  cancellation for a handle of another scheduler. The registry never exceeds its capacity.\<close>

theorem scheduler_refusal_atomic:
  assumes "sched_run w gs fs cs"
  shows "length (sc_wakes (w_sched w)) \<le> sc_max_wakes (w_sched w) \<and>
    (register_wake d key k w = (Err e, w') \<longrightarrow> w' = w \<and>
      (e = Capacity (sc_max_wakes (w_sched w)) \<and> length (sc_wakes (w_sched w)) = sc_max_wakes (w_sched w) \<or>
       e = WakeIdOverflow \<and> sc_next_id (w_sched w) = 0)) \<and>
    (advance_to t w = (Err e, w') \<longrightarrow>
      w' = w \<and> e = TimeWentBackwards (sc_now (w_sched w)) t \<and> t < sc_now (w_sched w)) \<and>
    (reg_owner g = sc_owner (w_sched w) \<longrightarrow> g \<in> set gs \<longrightarrow> (\<exists>c. fst (scheduler_cancel g w) = Ok c)) \<and>
    (reg_owner g \<noteq> sc_owner (w_sched w) \<longrightarrow> scheduler_cancel g w = (Err (UnknownWake (reg_id g)), w))"
proof -
  note h = sched_run_history [OF assms]
  then have ok: "sched_ok w" by (simp add: history_ok_def)
  then have len: "length (sc_wakes (w_sched w)) \<le> sc_max_wakes (w_sched w)" by (simp add: sched_ok_def)
  have "register_wake d key k w = (Err e, w') \<longrightarrow> w' = w \<and>
      (e = Capacity (sc_max_wakes (w_sched w)) \<and> length (sc_wakes (w_sched w)) = sc_max_wakes (w_sched w) \<or>
       e = WakeIdOverflow \<and> sc_next_id (w_sched w) = 0)"
    using len by (auto simp: register_wake_cases [OF ok] Let_def split: if_splits)
  moreover have "advance_to t w = (Err e, w') \<longrightarrow>
      w' = w \<and> e = TimeWentBackwards (sc_now (w_sched w)) t \<and> t < sc_now (w_sched w)"
    by (auto simp: advance_to_def split: if_splits prod.splits)
  moreover have "\<exists>c. fst (scheduler_cancel g w) = Ok c" if "g \<in> set gs"
  proof -
    have "handle_ok w g" using h that by (simp add: history_ok_def)
    from scheduler_cancel_cases [OF ok this] show ?thesis
      by (intro exI [of _ "bm_get (sc_wakes (w_sched w)) (reg_id g) \<noteq> None"]) simp
  qed
  moreover have "reg_owner g \<noteq> sc_owner (w_sched w) \<longrightarrow> scheduler_cancel g w = (Err (UnknownWake (reg_id g)), w)"
    by (simp add: scheduler_cancel_def belongs_to_owner_def)
  ultimately show ?thesis using len by blast
qed

lemma scheduler_refusal_atomic_example:
  "let w = \<lparr>w_sched = scheduler_new 9 8 0, w_tokens = fst token_new, w_status = []\<rparr>
   in register_wake 5 4 0 w = (Err (Capacity 0), w) \<and> advance_to 7 w = (Err (TimeWentBackwards 8 7), w)"
proof -
  let ?w = "\<lparr>w_sched = scheduler_new 9 8 0, w_tokens = fst token_new, w_status = []\<rparr>"
  have run: "sched_run ?w [] [] []" by (rule run_new)
  have "fst (register_wake 5 4 0 ?w) = Err (Capacity 0)" "fst (advance_to 7 ?w) = Err (TimeWentBackwards 8 7)"
    by (simp_all add: register_wake_def advance_to_def scheduler_new_def and_then_def retain_pending_def)
  then show ?thesis
    using scheduler_refusal_atomic [OF run, of 5 4 0 "Capacity 0" "snd (register_wake 5 4 0 ?w)"]
      scheduler_refusal_atomic [OF run, where t = 7 and e = "TimeWentBackwards 8 7" and w' = "snd (advance_to 7 ?w)"]
    by (simp add: prod_eq_iff)
qed

section \<open>The schedule window\<close>

text \<open>Before a sampler, the schedule window grants the whole delay when it fits, cuts it to the
  time that is left otherwise, and refuses only once the window is over; a window without duration
  grants every delay. A sampler is never started after the end of the window.\<close>

theorem delay_stays_in_window:
  assumes "window_new start d = Ok win" and "start \<le> now"
  shows "delay_before_sampler win now delay =
    Ok (case d of
          None \<Rightarrow> Some delay
        | Some v \<Rightarrow> if start + v \<le> now then None else Some (min delay (start + v - now))) \<and>
    (\<forall>x. delay_before_sampler win now delay = Ok (Some x) \<longrightarrow> x \<le> delay \<and> (0 < x \<longrightarrow> \<not> window_expired win (now + x - 1))) \<and>
    (window_expired win now \<longleftrightarrow> delay_before_sampler win now delay = Ok None)"
  using assms by (auto simp: window_new_def delay_before_sampler_def window_expired_def duration_since_def
      instant_checked_add_def checked_add_def checked_sub_def split: option.splits if_splits)

lemma delay_stays_in_window_example:
  "\<exists>win. window_new 100 (Some 50) = Ok win \<and> delay_before_sampler win 130 30 = Ok (Some 20) \<and>
     delay_before_sampler win 150 30 = Ok None"
proof -
  obtain win where w: "window_new 100 (Some 50) = Ok win"
    by (simp add: window_new_def instant_checked_add_def checked_add_def DURATION_MAX_def)
  then show ?thesis
    using delay_stays_in_window [OF w, of 130 30] delay_stays_in_window [OF w, of 150 30] by simp
qed

section \<open>The deadline future\<close>

definition listens :: "token \<Rightarrow> waker \<Rightarrow> token_store \<Rightarrow> bool" where
  "listens k wk st \<longleftrightarrow> regs_ok (st_wakers st) \<and> owner_alive st k \<and>
     (\<exists>r \<in> set (st_wakers st). rw_identity r = wk \<and> k \<in> set (rw_owners r))"

lemma token_wake_count:
  "count (mset (st_woken st)) wk \<le> count (mset (st_woken (token_wake j st))) wk"
  by (simp add: token_wake_notify notify_effect)

lemma fold_wake_count:
  "count (mset (st_woken st)) wk \<le> count (mset (st_woken (fold (\<lambda>r. token_wake (f r)) rs st))) wk"
proof (induction rs arbitrary: st)
  case (Cons r rs)
  from order_trans [OF token_wake_count [of st wk "f r"] Cons [of "token_wake (f r) st"]] show ?case by simp
qed simp

lemma token_wake_listens:
  assumes "listens k wk st"
  shows "j \<noteq> k \<Longrightarrow> listens k wk (token_wake j st)"
    and "count (mset (st_woken st)) wk < count (mset (st_woken (token_wake k st))) wk"
proof -
  obtain r where r: "r \<in> set (st_wakers st)" "rw_identity r = wk" "k \<in> set (rw_owners r)"
    and ok: "regs_ok (st_wakers st)" "owner_alive st k"
    using assms by (auto simp: listens_def)
  show "listens k wk (token_wake j st)" if "j \<noteq> k"
  proof -
    have k: "k \<in> set (rw_owners (survivors st j r))" using that r(3) ok(2) by (simp add: survivors_def)
    then have "survivors st j r \<in># mset (st_wakers (token_wake j st))"
      using r(1) by (auto simp: token_wake_notify notify_effect)
    moreover have "owner_alive (token_wake j st) k" using ok(2) by (simp add: token_wake_notify notify_effect)
    moreover have "regs_ok (st_wakers (token_wake j st))" using ok(1) by (simp add: token_wake_notify regs_ok_notify)
    ultimately show ?thesis
      unfolding listens_def using k r(2) by (intro conjI bexI [of _ "survivors st j r"]) simp_all
  qed
  have "subscribed st k r" using r(3) ok(2) by (simp add: subscribed_def)
  from notify_wakes(1) [OF ok(1) r(1) this, of "\<lambda>c. c\<lparr>tk_wake_ready := True\<rparr>"] r(2)
  show "count (mset (st_woken st)) wk < count (mset (st_woken (token_wake k st))) wk"
    by (simp add: token_wake_notify)
qed

lemma fold_wake_listens:
  "listens k wk st \<Longrightarrow> k \<in> f ` set rs \<Longrightarrow>
   count (mset (st_woken st)) wk < count (mset (st_woken (fold (\<lambda>r. token_wake (f r)) rs st))) wk"
proof (induction rs arbitrary: st)
  case (Cons r rs)
  show ?case
  proof (cases "f r = k")
    case True
    from less_le_trans [OF token_wake_listens(2) [OF Cons.prems(1)] fold_wake_count [of "token_wake k st" wk f rs]]
    show ?thesis using True by simp
  next
    case False
    then have "k \<in> f ` set rs" using Cons.prems(2) by auto
    from Cons.IH [OF token_wake_listens(1) [OF Cons.prems(1) False] this]
    show ?thesis using token_wake_count [of st wk "f r"] by simp
  qed
qed simp

lemma fold_wake_signal: "is_stop (token_signal k (fold (\<lambda>r. token_wake (f r)) rs st)) = is_stop (token_signal k st)"
proof (induction rs arbitrary: st)
  case (Cons r rs)
  have "is_stop (token_signal k (token_wake (f r) st)) = is_stop (token_signal k st)"
  proof (cases "k = f r \<and> k < length (st_tokens st)")
    case True
    have "tk_thread_stop (st_tokens (token_wake k st) ! k) = tk_thread_stop (st_tokens st ! k)"
      using True bump_local_cell [of k "update_token k (\<lambda>c. c\<lparr>tk_wake_ready := True\<rparr>) st"]
      by (simp add: token_wake_def) (metis token_cell.select_convs(1) token_cell.surjective token_cell.update_convs(3,4) update_token_fields(7))
    then show ?thesis using True by (simp add: token_signal_def Let_def token_wake_notify notify_effect)
  next
    case False
    have "st_tokens (token_wake (f r) st) ! k = st_tokens st ! k"
    proof (cases "k = f r")
      case True
      then have "length (st_tokens st) \<le> f r" using False by simp
      then show ?thesis by (simp add: token_wake_def bump_local_generation_def update_token_def list_update_beyond split: option.splits)
    next
      case False
      then show ?thesis by (simp add: token_wake_notify notify_effect)
    qed
    then show ?thesis by (simp add: token_signal_def Let_def token_wake_notify notify_effect)
  qed
  then show ?case using Cons by simp
qed simp

text \<open>The first poll of a future that is neither cancelled nor due: one registration, one listener.\<close>

lemma first_poll:
  assumes "sched_run w gs fs cs" and "regs_ok (st_wakers (w_tokens w))" and "owner_alive (w_tokens w) k"
    and "subscriptions (live_registrations (w_tokens w)) < MAX_SCHEDULED_WAKEUPS"
    and "\<not> is_stop (token_signal k (w_tokens w))" and "sc_now (w_sched w) < d"
    and "length (sc_wakes (w_sched w)) < sc_max_wakes (w_sched w)" and "sc_next_id (w_sched w) \<noteq> 0"
  obtains g w1 where "future_poll wk (future_new d k) w = (PollPending, (future_new d k)\<lparr>df_registration := Some g\<rparr>, w1)"
    and "sched_run w1 (gs @ [g]) fs cs" and "listens k wk (w_tokens w1)" and "\<not> is_stop (token_signal k (w_tokens w1))"
    and "\<exists>r. bm_get (sc_wakes (w_sched w1)) (reg_id g) = Some r \<and> wr_token r = k \<and> sw_deadline (wr_wake r) = d"
    and "sc_now (w_sched w1) = sc_now (w_sched w)"
proof -
  have ok: "sched_ok w" using sched_run_history [OF assms(1)] by (simp add: history_ok_def)
  obtain g w0 where r: "register_wake d 0 k w = (Ok g, w0)" and t0: "w_tokens w0 = w_tokens w"
    and n0: "sc_now (w_sched w0) = sc_now (w_sched w)"
    and b0: "\<exists>r. bm_get (sc_wakes (w_sched w0)) (reg_id g) = Some r \<and> wr_token r = k \<and> sw_deadline (wr_wake r) = d"
    using assms(6-8) bt.get_ins [OF sched_okD(1) [OF ok]]
    by (simp add: register_wake_cases [OF ok] Let_def wake_entry_def)
  let ?fut = "(future_new d k)\<lparr>df_registration := Some g\<rparr>"
  let ?w1 = "recheck True wk ?fut w0"
  define st where "st = snd (take_wake k (register_waker k wk (w_tokens w)))"
  have tok: "w_tokens ?w1 = st \<or> w_tokens ?w1 = st\<lparr>st_woken := st_woken st @ [wk]\<rparr>"
    by (simp add: recheck_def Let_def future_new_def t0 st_def)
  have w1: "?w1 = w0\<lparr>w_tokens := w_tokens ?w1\<rparr>" by (simp add: recheck_def Let_def)
  have reg: "register_waker k wk (w_tokens w) = (w_tokens w)\<lparr>st_wakers := st_wakers (register_waker k wk (w_tokens w))\<rparr>"
    by (simp add: register_waker_def Let_def)
  have st_fields: "st_stop st = st_stop (w_tokens w)" "st_wakers st = st_wakers (register_waker k wk (w_tokens w))"
    unfolding st_def take_wake_def snd_conv update_token_fields by (subst reg, simp)+
  have len: "k < length (st_tokens (w_tokens w))" using assms(3) by (simp add: owner_alive_def)
  have cell: "st_tokens st ! k = (st_tokens (w_tokens w) ! k)\<lparr>tk_wake_ready := False\<rparr>" "length (st_tokens st) = length (st_tokens (w_tokens w))"
    unfolding st_def take_wake_def snd_conv by (subst reg, simp add: len)+
  have alive: "owner_alive st k" using assms(3) by (simp add: owner_alive_def cell)
  note o = register_waker_outcome [OF assms(2,3), of wk]
  have "listens k wk st" using o(1) o(2) [OF assms(4)] alive by (simp add: listens_def st_fields)
  then have "listens k wk (w_tokens ?w1)" using tok by (auto simp: listens_def owner_alive_def)
  moreover have "token_signal k (st\<lparr>st_woken := xs\<rparr>) = token_signal k (w_tokens w)" for xs
    by (simp add: token_signal_def st_fields cell)
  from this [of "st_woken st"] this [of "st_woken st @ [wk]"]
  have "\<not> is_stop (token_signal k (w_tokens ?w1))" using tok assms(5) by auto
  moreover have "sched_run ?w1 (gs @ [g]) fs cs"
    by (subst w1) (rule run_tokens [OF run_register [OF assms(1) r]])
  moreover have "future_poll wk (future_new d k) w = (PollPending, ?fut, ?w1)"
    using assms(5,6) r by (simp add: future_poll_def future_new_def deadline_expired_def Let_def)
  moreover have "w_sched ?w1 = w_sched w0" by (subst w1) simp
  ultimately show ?thesis using that b0 n0 by simp
qed

text \<open>C20: A deadline future completes. Polled before its deadline it registers exactly one wake and
  stays pending; when virtual time reaches the deadline, whatever other wakes fire with it, its
  registration is among the delivered wakes, the polling task's waker is called, and the next poll is
  ready with a graceful stop.\<close>

theorem deadline_future_completes:
  assumes "sched_run w gs fs cs" and "token_reachable (w_tokens w)" and "owner_alive (w_tokens w) k"
    and "subscriptions (live_registrations (w_tokens w)) < MAX_SCHEDULED_WAKEUPS"
    and "\<not> is_stop (token_signal k (w_tokens w))" and "sc_now (w_sched w) < d"
    and "length (sc_wakes (w_sched w)) < sc_max_wakes (w_sched w)" and "sc_next_id (w_sched w) \<noteq> 0"
    and "d \<le> t"
  shows "\<exists>g fut1 w1 wakes w2 fut2 w3.
    future_poll wk (future_new d k) w = (PollPending, fut1, w1) \<and> df_registration fut1 = Some g \<and>
    advance_to t w1 = (Ok wakes, w2) \<and> reg_id g \<in> set (map sw_id wakes) \<and>
    count (mset (st_woken (w_tokens w1))) wk < count (mset (st_woken (w_tokens w2))) wk \<and>
    future_poll wk fut1 w2 = (PollReady (Ok StopTestGraceful), fut2, w3) \<and> df_registration fut2 = None"
proof -
  let ?fut = "\<lambda>g. (future_new d k)\<lparr>df_registration := Some g\<rparr>"
  obtain g w1 where f: "future_poll wk (future_new d k) w = (PollPending, ?fut g, w1)"
    and run: "sched_run w1 (gs @ [g]) fs cs" and l: "listens k wk (w_tokens w1)"
    and sig: "\<not> is_stop (token_signal k (w_tokens w1))"
    and b: "\<exists>r. bm_get (sc_wakes (w_sched w1)) (reg_id g) = Some r \<and> wr_token r = k \<and> sw_deadline (wr_wake r) = d"
    and now: "sc_now (w_sched w1) = sc_now (w_sched w)"
    by (rule first_poll [OF assms(1) token_reachable_regs_ok [OF assms(2)] assms(3-8)])
  obtain r where r: "bm_get (sc_wakes (w_sched w1)) (reg_id g) = Some r" "wr_token r = k" "sw_deadline (wr_wake r) = d"
    using b by blast
  let ?w = "w1\<lparr>w_sched := (w_sched w1)\<lparr>sc_now := t\<rparr>\<rparr>"
  let ?D = "map snd (filter (due t) (sc_wakes (w_sched w1)))"
  obtain wakes w2 where p: "poll_ready ?w = (wakes, w2)" by (cases "poll_ready ?w")
  have a: "advance_to t w1 = (Ok wakes, w2)" using assms(6,9) now p by (simp add: advance_to_def)
  have ok1: "sched_ok w1" using sched_run_history [OF run] by (simp add: history_ok_def)
  note e = poll_ready_effect [OF sched_ok_time [OF ok1] p, simplified]
  have mem: "(reg_id g, r) \<in> set (sc_wakes (w_sched w1))" using bm_entry [OF sched_okD(1) [OF ok1]] r(1) by simp
  have D: "r \<in> set ?D" using mem r(3) assms(9) by (force simp: image_iff)
  have "sw_id (wr_wake r) = reg_id g" using sched_okD(2) [OF ok1 r(1)] by (simp add: record_ok_def)
  then have fired: "reg_id g \<in> set (map sw_id wakes)" unfolding e(1) using D by force
  have "k \<in> wr_token ` set (sort_key wake_order ?D)" unfolding set_sort using D r(2) by blast
  then have woken: "count (mset (st_woken (w_tokens w1))) wk < count (mset (st_woken (w_tokens w2))) wk"
    unfolding e(5) by (rule fold_wake_listens [OF l])
  have h2: "history_ok w2 (gs @ [g]) (fs @ wakes) cs" by (rule history_advance [OF sched_run_history [OF run] a])
  have gone: "bm_get (sc_wakes (w_sched w2)) (reg_id g) = None"
  proof (rule ccontr)
    assume "bm_get (sc_wakes (w_sched w2)) (reg_id g) \<noteq> None"
    then obtain q where "bm_get (filter (\<lambda>e. \<not> due t e) (sc_wakes (w_sched w1))) (reg_id g) = Some q" using e(2) by auto
    then show False using bm_get_filter [OF sched_okD(1) [OF ok1]] r(1,3) assms(9) by auto
  qed
  have hg: "handle_ok w2 g" and ok2: "sched_ok w2" using h2 by (simp_all add: history_ok_def)
  have c: "scheduler_cancel g w2 = (Ok False, w2)" using scheduler_cancel_cases [OF ok2 hg] gone by simp
  have "is_stop (token_signal k (w_tokens w2)) = False" unfolding e(5) fold_wake_signal using sig by simp
  then have "future_poll wk (?fut g) w2 = (PollReady (Ok StopTestGraceful), (?fut g)\<lparr>df_registration := None\<rparr>, registration_drop g w2)"
    using e(2) assms(9) by (simp add: future_poll_def Let_def deadline_expired_def finish_with_def future_cancel_def c future_new_def)
  moreover have "df_registration ((?fut g)\<lparr>df_registration := None\<rparr>) = None" "df_registration (?fut g) = Some g"
    by (simp_all add: future_new_def)
  ultimately show ?thesis using f a fired woken by blast
qed

theorem deadline_future_completes_witness:
  "\<exists>fut1 w1 wakes w2 fut2 w3. future_poll 7 (future_new 5 0) demo_world = (PollPending, fut1, w1) \<and>
     advance_to 9 w1 = (Ok wakes, w2) \<and> 7 \<in> set (st_woken (w_tokens w2)) \<and>
     future_poll 7 fut1 w2 = (PollReady (Ok StopTestGraceful), fut2, w3)"
proof -
  have "sched_run demo_world [] [] []" unfolding demo_world_def by (rule run_new)
  moreover have "token_reachable (w_tokens demo_world)" by (simp add: demo_world_def tr_new)
  ultimately have "\<exists>g fut1 w1 wakes w2 fut2 w3.
    future_poll 7 (future_new 5 0) demo_world = (PollPending, fut1, w1) \<and> df_registration fut1 = Some g \<and>
    advance_to 9 w1 = (Ok wakes, w2) \<and> reg_id g \<in> set (map sw_id wakes) \<and>
    count (mset (st_woken (w_tokens w1))) 7 < count (mset (st_woken (w_tokens w2))) 7 \<and>
    future_poll 7 fut1 w2 = (PollReady (Ok StopTestGraceful), fut2, w3) \<and> df_registration fut2 = None"
    by (rule deadline_future_completes)
      (simp_all add: demo_world_def scheduler_new_def MAX_SCHEDULED_WAKEUPS_def token_new_def fresh_cell_def owner_alive_def
        live_registrations_def subscriptions_def token_signal_def signal_from_u8_def)
  then obtain g fut1 w1 wakes w2 fut2 w3 where
    r: "future_poll 7 (future_new 5 0) demo_world = (PollPending, fut1, w1)" "advance_to 9 w1 = (Ok wakes, w2)"
       "count (mset (st_woken (w_tokens w1))) 7 < count (mset (st_woken (w_tokens w2))) 7"
       "future_poll 7 fut1 w2 = (PollReady (Ok StopTestGraceful), fut2, w3)" by blast
  have "0 < count (mset (st_woken (w_tokens w2))) 7" by (rule le_less_trans [OF le0 r(3)])
  then have "7 \<in> set (st_woken (w_tokens w2))" by (simp only: count_greater_zero_iff set_mset_mset)
  then show ?thesis using r by blast
qed

end
