(* ===== verification/Critical_Section.thy ===== *)
theory Critical_Section
  imports Scheduler "HOL-Library.Char_ord" "HOL-Library.List_Lexorder"
begin

text \<open>
  The named critical sections of \<open>crates/runtime/src/coordination.rs\<close>: a bounded coordinator in which
  virtual users acquire named locks at once or wait for them in a queue per lock, with run generations
  and a generation of the wait state.

  A \<open>BTreeMap\<close> by lock name is a sorted list of entries, names ordered by their bytes. The wakers that an
  operation calls are appended to a log. A method holds the mutex of the coordinator, so each one is one
  transformation of the state.
\<close>

named_theorems critical_simps \<open>evaluation of the coordinator\<close>

section \<open>Generations and errors\<close>

type_synonym coordination_generation = u64

definition generation_new :: "u64 \<Rightarrow> coordination_generation option" where
  "generation_new v = (if v = 0 then None else Some v)"

definition generation_initial :: coordination_generation where
  "generation_initial = 1"

definition generation_next :: "coordination_generation \<Rightarrow> coordination_generation option" where
  "generation_next g = Option.bind (checked_add u64_max g 1) generation_new"

definition bump_generation :: "coordination_generation \<Rightarrow> bool \<times> coordination_generation" where
  "bump_generation g = (case generation_next g of None \<Rightarrow> (False, g) | Some n \<Rightarrow> (True, n))"

datatype critical_section_error =
    InvalidName
  | InvalidOwner
  | HeldCapacity usize
  | WaiterCapacity usize
  | Busy string u64
  | Queued string
  | NotOwner string u64
  | AccountingInvariant
  | StaleGeneration string coordination_generation coordination_generation
  | GenerationOverflow

fun critical_code :: "critical_section_error \<Rightarrow> string" where
  "critical_code InvalidName = ''runtime.critical-section.invalid-name''"
| "critical_code InvalidOwner = ''runtime.critical-section.invalid-owner''"
| "critical_code (HeldCapacity _) = ''runtime.critical-section.capacity''"
| "critical_code (WaiterCapacity _) = ''runtime.critical-section.waiter-capacity''"
| "critical_code (Busy _ _) = ''runtime.critical-section.busy''"
| "critical_code (Queued _) = ''runtime.critical-section.queued''"
| "critical_code (NotOwner _ _) = ''runtime.critical-section.not-owner''"
| "critical_code AccountingInvariant = ''runtime.critical-section.accounting-invariant''"
| "critical_code (StaleGeneration _ _ _) = ''runtime.critical-section.stale-generation''"
| "critical_code GenerationOverflow = ''runtime.critical-section.generation-overflow''"

section \<open>State\<close>

definition MAX_LOCK_NAME_BYTES :: usize where
  "MAX_LOCK_NAME_BYTES = 4096"

definition MAX_HELD_LOCKS :: usize where
  "MAX_HELD_LOCKS = 65536"

definition MAX_CRITICAL_WAITERS :: usize where
  "MAX_CRITICAL_WAITERS = 65536"

record held_lock =
  hl_owner :: u64
  hl_generation :: coordination_generation

record critical_waiter =
  cw_owner :: u64
  cw_generation :: coordination_generation
  cw_waker :: waker

record critical_state =
  cs_generation :: coordination_generation
  cs_wait_generation :: coordination_generation
  cs_held :: "(string, held_lock) btree_map"
  cs_waiters :: "(string, critical_waiter list) btree_map"
  cs_waiter_count :: usize

definition critical_state_default :: critical_state where
  "critical_state_default =
     \<lparr>cs_generation = generation_initial, cs_wait_generation = generation_initial, cs_held = [], cs_waiters = [],
      cs_waiter_count = 0\<rparr>"

type_synonym 'a critical_op = "(critical_state, critical_section_error, 'a) routine"

definition validate_lock_name :: "string \<Rightarrow> (critical_section_error, unit) result" where
  "validate_lock_name name = (if name = [] \<or> MAX_LOCK_NAME_BYTES < length name then Err InvalidName else Ok ())"

definition validate_owner :: "u64 \<Rightarrow> (critical_section_error, unit) result" where
  "validate_owner i = (if i = 0 then Err InvalidOwner else Ok ())"

definition validate_generation ::
  "critical_state \<Rightarrow> coordination_generation \<Rightarrow> string \<Rightarrow> (critical_section_error, unit) result" where
  "validate_generation st g name = (if cs_generation st \<noteq> g then Err (StaleGeneration name (cs_generation st) g) else Ok ())"

definition bump_wait_generation :: "unit critical_op" where
  "bump_wait_generation st =
     (case bump_generation (cs_wait_generation st) of (bumped, g) \<Rightarrow>
        if bumped then (Ok (), st\<lparr>cs_wait_generation := g\<rparr>) else (Err GenerationOverflow, st))"

section \<open>Transitions under the mutex\<close>

definition hold :: "string \<Rightarrow> u64 \<Rightarrow> coordination_generation \<Rightarrow> critical_state \<Rightarrow> critical_state" where
  "hold name i g st = st\<lparr>cs_held := bm_insert name \<lparr>hl_owner = i, hl_generation = g\<rparr> (cs_held st)\<rparr>"

definition has_waiters :: "critical_state \<Rightarrow> string \<Rightarrow> bool" where
  "has_waiters st name = (case bm_get (cs_waiters st) name of None \<Rightarrow> False | Some q \<Rightarrow> q \<noteq> [])"

definition try_acquire_locked :: "string \<Rightarrow> u64 \<Rightarrow> usize \<Rightarrow> unit critical_op" where
  "try_acquire_locked name i max_held st =
     (case bm_get (cs_held st) name of
        Some h \<Rightarrow> (Err (Busy name (hl_owner h)), st)
      | None \<Rightarrow>
          if has_waiters st name then (Err (Queued name), st)
          else if max_held \<le> length (cs_held st) then (Err (HeldCapacity max_held), st)
          else (Ok (), hold name i (cs_generation st) st))"

definition release_locked :: "string \<Rightarrow> u64 \<Rightarrow> unit critical_op" where
  "release_locked name i st =
     (case bm_get (cs_held st) name of
        Some h \<Rightarrow>
          if hl_owner h = i \<and> hl_generation h = cs_generation st then
            and_then (if cs_waiter_count st \<noteq> 0 then bump_wait_generation else return_ok ()) (\<lambda>_.
            modify (\<lambda>st. st\<lparr>cs_held := bm_remove name (cs_held st)\<rparr>)) st
          else (Err (NotOwner name (hl_owner h)), st)
      | None \<Rightarrow> (Err (NotOwner name i), st))"

definition is_waiter :: "u64 \<Rightarrow> coordination_generation \<Rightarrow> critical_waiter \<Rightarrow> bool" where
  "is_waiter i g w \<longleftrightarrow> cw_owner w = i \<and> cw_generation w = g"

text \<open>\<open>iter_mut().find\<close> with the assignment of the waker: \<open>None\<close> when there is no such waiter.\<close>

fun refresh_queue :: "u64 \<Rightarrow> coordination_generation \<Rightarrow> waker \<Rightarrow> critical_waiter list \<Rightarrow> critical_waiter list option" where
  "refresh_queue i g wk [] = None"
| "refresh_queue i g wk (w # q) =
     (if is_waiter i g w then Some (w\<lparr>cw_waker := wk\<rparr> # q) else map_option ((#) w) (refresh_queue i g wk q))"

definition refresh_waker :: "string \<Rightarrow> u64 \<Rightarrow> coordination_generation \<Rightarrow> waker \<Rightarrow> critical_state \<Rightarrow> critical_state option" where
  "refresh_waker name i g wk st =
     (case bm_get (cs_waiters st) name of
        None \<Rightarrow> None
      | Some q \<Rightarrow> map_option (\<lambda>q'. st\<lparr>cs_waiters := bm_insert name q' (cs_waiters st)\<rparr>) (refresh_queue i g wk q))"

definition is_front :: "critical_state \<Rightarrow> string \<Rightarrow> u64 \<Rightarrow> coordination_generation \<Rightarrow> bool" where
  "is_front st name i g =
     (case bm_get (cs_waiters st) name of Some (w # q) \<Rightarrow> is_waiter i g w | _ \<Rightarrow> False)"

definition set_queue :: "string \<Rightarrow> critical_waiter list \<Rightarrow> critical_state \<Rightarrow> critical_state" where
  "set_queue name q st =
     st\<lparr>cs_waiters := (if q = [] then bm_remove name (cs_waiters st) else bm_insert name q (cs_waiters st))\<rparr>"

text \<open>The admission of the first waiter: it leaves the queue and holds the lock.\<close>

definition admit :: "string \<Rightarrow> u64 \<Rightarrow> coordination_generation \<Rightarrow> unit critical_op" where
  "admit name i g =
     and_then bump_wait_generation (\<lambda>_.
     reading (\<lambda>st.
       case checked_sub (cs_waiter_count st) 1 of
         None \<Rightarrow> return_err AccountingInvariant
       | Some n \<Rightarrow>
           (case bm_get (cs_waiters st) name of
              None \<Rightarrow> return_err AccountingInvariant
            | Some q \<Rightarrow> modify (\<lambda>st. hold name i g (set_queue name (tl q) st\<lparr>cs_waiter_count := n\<rparr>)))))"

definition enqueue ::
  "string \<Rightarrow> u64 \<Rightarrow> coordination_generation \<Rightarrow> waker \<Rightarrow> usize \<Rightarrow> critical_state \<Rightarrow>
   (critical_section_error, unit) result poll_outcome \<times> critical_state" where
  "enqueue name i g wk max_waiters st =
     (if max_waiters \<le> cs_waiter_count st then (PollReady (Err (WaiterCapacity max_waiters)), st)
      else case checked_add usize_max (cs_waiter_count st) 1 of
          None \<Rightarrow> (PollReady (Err AccountingInvariant), st)
        | Some n \<Rightarrow>
            (case bump_wait_generation st of
               (Err e, st') \<Rightarrow> (PollReady (Err e), st')
             | (Ok _, st') \<Rightarrow>
                 (PollPending,
                  st'\<lparr>cs_waiters := bm_insert name
                        ((case bm_get (cs_waiters st') name of None \<Rightarrow> [] | Some q \<Rightarrow> q) @
                         [\<lparr>cw_owner = i, cw_generation = g, cw_waker = wk\<rparr>]) (cs_waiters st'),
                      cs_waiter_count := n\<rparr>)))"

definition poll_acquire_locked ::
  "string \<Rightarrow> u64 \<Rightarrow> coordination_generation \<Rightarrow> waker \<Rightarrow> usize \<Rightarrow> usize \<Rightarrow> critical_state \<Rightarrow>
   (critical_section_error, unit) result poll_outcome \<times> critical_state" where
  "poll_acquire_locked name i g wk max_held max_waiters st =
     (let held = bm_get (cs_held st) name
      in if (case held of None \<Rightarrow> False | Some h \<Rightarrow> hl_owner h = i \<and> hl_generation h = g)
         then (PollReady (Err (Busy name (hl_owner (the held)))), st)
         else if held = None \<and> is_front st name i g then
           (if max_held \<le> length (cs_held st) then
              (PollPending, case refresh_waker name i g wk st of Some st' \<Rightarrow> st' | None \<Rightarrow> st)
            else (case admit name i g st of (r, st') \<Rightarrow> (PollReady r, st')))
         else case refresh_waker name i g wk st of
             Some st' \<Rightarrow> (PollPending, st')
           | None \<Rightarrow>
               if held \<noteq> None \<or> has_waiters st name then enqueue name i g wk max_waiters st
               else if max_held \<le> length (cs_held st) then (PollReady (Err (HeldCapacity max_held)), st)
               else (PollReady (Ok ()), hold name i g st))"

definition next_waiter_waker :: "critical_state \<Rightarrow> string \<Rightarrow> waker option" where
  "next_waiter_waker st name =
     (case bm_get (cs_waiters st) name of Some (w # q) \<Rightarrow> Some (cw_waker w) | _ \<Rightarrow> None)"

definition available_waiter_wakers :: "critical_state \<Rightarrow> usize \<Rightarrow> waker list" where
  "available_waiter_wakers st max_held =
     (case checked_sub max_held (length (cs_held st)) of
        None \<Rightarrow> []
      | Some available \<Rightarrow>
          take available (map (\<lambda>(name, q). cw_waker (hd q))
            (filter (\<lambda>(name, q). q \<noteq> [] \<and> bm_get (cs_held st) name = None) (cs_waiters st))))"

fun remove_waiter :: "u64 \<Rightarrow> coordination_generation \<Rightarrow> critical_waiter list \<Rightarrow> critical_waiter list option" where
  "remove_waiter i g [] = None"
| "remove_waiter i g (w # q) = (if is_waiter i g w then Some q else map_option ((#) w) (remove_waiter i g q))"

definition cancel_waiter_locked :: "string \<Rightarrow> u64 \<Rightarrow> coordination_generation \<Rightarrow> bool critical_op" where
  "cancel_waiter_locked name i g st =
     (case Option.bind (bm_get (cs_waiters st) name) (remove_waiter i g) of
        None \<Rightarrow> (Ok False, st)
      | Some q \<Rightarrow>
          (case bump_wait_generation st of
             (Err e, st') \<Rightarrow> (Err e, st')
           | (Ok _, st') \<Rightarrow>
               (case checked_sub (cs_waiter_count st') 1 of
                  None \<Rightarrow> (Err AccountingInvariant, st'\<lparr>cs_waiters := bm_insert name q (cs_waiters st')\<rparr>)
                | Some n \<Rightarrow> (Ok True, set_queue name q st'\<lparr>cs_waiter_count := n\<rparr>))))"

section \<open>The coordinator\<close>

record critical_coordinator =
  cc_state :: critical_state
  cc_max_held :: usize
  cc_max_waiters :: usize
  cc_woken :: "waker list"

definition critical_with_limits :: "usize \<Rightarrow> usize \<Rightarrow> critical_coordinator" where
  "critical_with_limits max_held max_waiters =
     \<lparr>cc_state = critical_state_default, cc_max_held = min max_held MAX_HELD_LOCKS,
      cc_max_waiters = min max_waiters MAX_CRITICAL_WAITERS, cc_woken = []\<rparr>"

definition critical_new :: "usize \<Rightarrow> critical_coordinator" where
  "critical_new max_held = critical_with_limits max_held max_held"

definition critical_wait_snapshot :: "critical_coordinator \<Rightarrow> coordination_generation \<times> usize \<times> duration option" where
  "critical_wait_snapshot c = (cs_wait_generation (cc_state c), cs_waiter_count (cc_state c), None)"

type_synonym 'a coordinator_op = "critical_coordinator \<Rightarrow> (critical_section_error, 'a) result \<times> critical_coordinator"

text \<open>A transition of the state inside a method of the coordinator, and the wakers called after it.\<close>

definition locked :: "(critical_state \<Rightarrow> 'b \<times> critical_state) \<Rightarrow> critical_coordinator \<Rightarrow> 'b \<times> critical_coordinator" where
  "locked f c = (case f (cc_state c) of (r, st) \<Rightarrow> (r, c\<lparr>cc_state := st\<rparr>))"

definition wake_all_of :: "waker list \<Rightarrow> critical_coordinator \<Rightarrow> critical_coordinator" where
  "wake_all_of wks c = c\<lparr>cc_woken := cc_woken c @ wks\<rparr>"

definition busy_owner :: "critical_state \<Rightarrow> u64" where
  "busy_owner st =
     (case cs_held st of
        (_, h) # _ \<Rightarrow> hl_owner h
      | [] \<Rightarrow> (case filter (\<lambda>q. q \<noteq> []) (map snd (cs_waiters st)) of q # _ \<Rightarrow> cw_owner (hd q) | [] \<Rightarrow> 1))"

definition advance_generation :: "coordination_generation coordinator_op" where
  "advance_generation = locked (\<lambda>st.
     if cs_held st \<noteq> [] \<or> cs_waiter_count st \<noteq> 0 then (Err (Busy ''generation'' (busy_owner st)), st)
     else case generation_next (cs_generation st) of
         None \<Rightarrow> (Err GenerationOverflow, st)
       | Some g \<Rightarrow>
           and_then bump_wait_generation (\<lambda>_. and_then (modify (\<lambda>st. st\<lparr>cs_generation := g\<rparr>)) (\<lambda>_. return_ok g)) st)"

definition validated :: "string \<Rightarrow> u64 \<Rightarrow> (critical_section_error, unit) result" where
  "validated name i = (case validate_lock_name name of Err e \<Rightarrow> Err e | Ok _ \<Rightarrow> validate_owner i)"

definition try_acquire_generation :: "string \<Rightarrow> u64 \<Rightarrow> coordination_generation \<Rightarrow> unit coordinator_op" where
  "try_acquire_generation name i g c =
     locked (and_then (lift_result (validated name i)) (\<lambda>_.
       reading (\<lambda>st. and_then (lift_result (validate_generation st g name)) (\<lambda>_.
       try_acquire_locked name i (cc_max_held c))))) c"

definition release_generation :: "string \<Rightarrow> u64 \<Rightarrow> coordination_generation \<Rightarrow> unit coordinator_op" where
  "release_generation name i g c =
     locked (and_then (lift_result (validated name i)) (\<lambda>_.
       reading (\<lambda>st. and_then (lift_result (validate_generation st g name)) (\<lambda>_.
       release_locked name i)))) c"

definition poll_acquire_generation ::
  "string \<Rightarrow> u64 \<Rightarrow> coordination_generation \<Rightarrow> waker \<Rightarrow> critical_coordinator \<Rightarrow>
   (critical_section_error, unit) result poll_outcome \<times> critical_coordinator" where
  "poll_acquire_generation name i g wk c =
     (case validated name i of
        Err e \<Rightarrow> (PollReady (Err e), c)
      | Ok _ \<Rightarrow>
          (case validate_generation (cc_state c) g name of
             Err e \<Rightarrow> (PollReady (Err e), c)
           | Ok _ \<Rightarrow> locked (poll_acquire_locked name i g wk (cc_max_held c) (cc_max_waiters c)) c))"

definition cancel_acquire_generation :: "string \<Rightarrow> u64 \<Rightarrow> coordination_generation \<Rightarrow> bool coordinator_op" where
  "cancel_acquire_generation name i g c =
     (case locked (and_then (lift_result (validated name i)) (\<lambda>_.
        reading (\<lambda>st. and_then (lift_result (validate_generation st g name)) (\<lambda>_.
        cancel_waiter_locked name i g)))) c of
        (Err e, c') \<Rightarrow> (Err e, c')
      | (Ok cancelled, c') \<Rightarrow>
          (Ok cancelled,
           wake_all_of (if cancelled then (case next_waiter_waker (cc_state c') name of None \<Rightarrow> [] | Some wk \<Rightarrow> [wk]) else []) c'))"

definition try_acquire :: "string \<Rightarrow> u64 \<Rightarrow> unit coordinator_op" where
  "try_acquire name i c =
     locked (and_then (lift_result (validated name i)) (\<lambda>_. try_acquire_locked name i (cc_max_held c))) c"

definition critical_release :: "string \<Rightarrow> u64 \<Rightarrow> unit coordinator_op" where
  "critical_release name i c =
     (case validated name i of
        Err e \<Rightarrow> (Err e, c)
      | Ok _ \<Rightarrow>
          (case locked (release_locked name i) c of (r, c') \<Rightarrow>
             (r, wake_all_of (if is_ok r then available_waiter_wakers (cc_state c') (cc_max_held c) else []) c')))"

definition poll_acquire ::
  "string \<Rightarrow> u64 \<Rightarrow> waker \<Rightarrow> critical_coordinator \<Rightarrow> (critical_section_error, unit) result poll_outcome \<times> critical_coordinator" where
  "poll_acquire name i wk c = poll_acquire_generation name i (cs_generation (cc_state c)) wk c"

definition cancel_acquire :: "string \<Rightarrow> u64 \<Rightarrow> bool coordinator_op" where
  "cancel_acquire name i c = cancel_acquire_generation name i (cs_generation (cc_state c)) c"

end
