(* ===== verification/Critical_Behaviour.thy ===== *)
theory Critical_Behaviour
  imports Critical_Section
begin

text \<open>
  Properties of the critical sections. Each lock is specified as a holder and a first-come first-served
  queue; every operation of the coordinator is one step of the lock it names, and the accounting of the
  coordinator never fails. Whom a release wakes, and two ways in which a waiter is forgotten.
\<close>

section \<open>Locks\<close>

type_synonym lock = "u64 option \<times> u64 list"

definition holder :: "critical_state \<Rightarrow> string \<Rightarrow> u64 option" where
  "holder st name = map_option hl_owner (bm_get (cs_held st) name)"

definition queue :: "critical_state \<Rightarrow> string \<Rightarrow> u64 list" where
  "queue st name = (case bm_get (cs_waiters st) name of None \<Rightarrow> [] | Some q \<Rightarrow> map cw_owner q)"

definition lock :: "critical_state \<Rightarrow> string \<Rightarrow> lock" where
  "lock st name = (holder st name, queue st name)"

datatype lock_event = Quiet | Grant u64 | Wait u64 | Leave u64 | Free u64

inductive lock_step :: "lock_event \<Rightarrow> lock \<Rightarrow> lock \<Rightarrow> bool" where
  quiet: "lock_step Quiet l l"
| grant: "lock_step (Grant i) (None, []) (Some i, [])"
| admit: "lock_step (Grant i) (None, i # q) (Some i, q)"
| wait: "h \<noteq> Some i \<Longrightarrow> i \<notin> set q \<Longrightarrow> h \<noteq> None \<or> q \<noteq> [] \<Longrightarrow> lock_step (Wait i) (h, q) (h, q @ [i])"
| leave: "i \<in> set q \<Longrightarrow> lock_step (Leave i) (h, q) (h, remove1 i q)"
| free: "lock_step (Free i) (Some i, q) (None, q)"

definition waiting :: "(string, critical_waiter list) btree_map \<Rightarrow> nat" where
  "waiting ws = sum_list (map (length \<circ> snd) ws)"

definition queue_ok :: "coordination_generation \<Rightarrow> held_lock option \<Rightarrow> critical_waiter list \<Rightarrow> bool" where
  "queue_ok g held q \<longleftrightarrow> q \<noteq> [] \<and> distinct (map cw_owner q) \<and> (\<forall>w \<in> set q. cw_generation w = g) \<and>
     (\<forall>h. held = Some h \<longrightarrow> hl_owner h \<notin> cw_owner ` set q)"

definition critical_ok :: "usize \<Rightarrow> usize \<Rightarrow> critical_state \<Rightarrow> bool" where
  "critical_ok max_held max_waiters st \<longleftrightarrow>
     bm_ok (cs_held st) \<and> bm_ok (cs_waiters st) \<and>
     (\<forall>name h. bm_get (cs_held st) name = Some h \<longrightarrow> hl_generation h = cs_generation st) \<and>
     (\<forall>name q. bm_get (cs_waiters st) name = Some q \<longrightarrow> queue_ok (cs_generation st) (bm_get (cs_held st) name) q) \<and>
     length (cs_held st) \<le> max_held \<and> cs_waiter_count st = waiting (cs_waiters st) \<and> cs_waiter_count st \<le> max_waiters"

section \<open>Accounting\<close>

definition queued_length :: "(string, critical_waiter list) btree_map \<Rightarrow> string \<Rightarrow> nat" where
  "queued_length ws name = (case bm_get ws name of None \<Rightarrow> 0 | Some q \<Rightarrow> length q)"

lemma waiting_insert: "waiting (bm_insert name q ws) + queued_length ws name = waiting ws + length q" if "bm_ok ws"
  using that
proof (induction name q ws rule: bm_insert.induct)
  case (2 k v j w m)
  have "bm_get m k = None" if "k < j"
  proof -
    have "k \<notin> fst ` set m" using 2(2) that by (fastforce simp: bm_ok_def)
    then show ?thesis by (metis domIff dom_bm_get)
  qed
  moreover have "bm_ok m" using 2(2) by (simp add: bm_ok_def)
  ultimately show ?case using 2(1) by (auto simp: waiting_def queued_length_def)
qed (simp add: waiting_def queued_length_def)

lemma waiting_remove: "waiting (bm_remove name ws) + queued_length ws name = waiting ws" if "bm_ok ws"
  using that
proof (induction ws)
  case (Cons e ws)
  obtain k q where e: "e = (k, q)" by (cases e)
  have "bm_remove k ws = ws \<and> queued_length ws k = 0"
  proof -
    have "k \<notin> fst ` set ws" using Cons(2) e by (fastforce simp: bm_ok_def)
    moreover from this have "bm_get ws k = None" by (metis domIff dom_bm_get)
    ultimately show ?thesis by (auto simp: bm_remove_def queued_length_def filter_id_conv)
  qed
  moreover have "bm_ok ws" using Cons(2) by (simp add: bm_ok_def)
  ultimately show ?case using Cons(1) by (auto simp: e bm_remove_def waiting_def queued_length_def)
qed (simp add: waiting_def bm_remove_def queued_length_def)

lemma length_bm_insert: "bm_ok m \<Longrightarrow> bm_get m k = None \<Longrightarrow> length (bm_insert k v m) = Suc (length m)"
  using bt.length_keys_ins_fresh [of m k v] by (simp add: bm_keys_def)

lemma length_bm_remove: "length (bm_remove k m) \<le> length m"
  by (simp add: bm_remove_def)


lemma refresh_queue_Some:
  assumes "refresh_queue i g wk q = Some q'"
  shows "map cw_owner q' = map cw_owner q" and "map cw_generation q' = map cw_generation q" and "i \<in> set (map cw_owner q)"
  using assms by (induction q arbitrary: q') (auto simp: is_waiter_def split: if_splits)

lemma refresh_queue_None: "refresh_queue i g wk q = None \<longleftrightarrow> (\<forall>w \<in> set q. \<not> is_waiter i g w)"
  by (induction q) auto

lemma remove_waiter_Some:
  assumes "remove_waiter i g q = Some q'" and "\<forall>w \<in> set q. cw_generation w = g"
  shows "map cw_owner q' = remove1 i (map cw_owner q)" and "set q' \<subseteq> set q" and "i \<in> set (map cw_owner q)"
    and "length q = Suc (length q')"
  using assms by (induction q arbitrary: q') (auto simp: is_waiter_def split: if_splits)

lemma remove_waiter_None: "remove_waiter i g q = None \<longleftrightarrow> (\<forall>w \<in> set q. \<not> is_waiter i g w)"
  by (induction q) auto

lemma queue_ok_owners:
  "map cw_owner q' = map cw_owner q \<Longrightarrow> map cw_generation q' = map cw_generation q \<Longrightarrow> queue_ok g held q \<Longrightarrow> queue_ok g held q'"
  unfolding queue_ok_def by (metis (no_types, lifting) image_set list.map_disc_iff in_set_conv_nth length_map nth_map)

lemma queue_ok_remove:
  "map cw_owner q' = remove1 i (map cw_owner q) \<Longrightarrow> set q' \<subseteq> set q \<Longrightarrow> queue_ok g held q \<Longrightarrow> q' \<noteq> [] \<Longrightarrow> queue_ok g held q'"
  by (auto simp: queue_ok_def distinct_remove1)

section \<open>The invariant under elementary changes\<close>

named_theorems critical_intros \<open>preservation of the invariant\<close>

lemma ok_wait_generation [critical_intros]:
  "critical_ok mh mw st \<Longrightarrow> critical_ok mh mw (st\<lparr>cs_wait_generation := x\<rparr>)"
  by (simp add: critical_ok_def)

lemma ok_queue_of: "critical_ok mh mw st \<Longrightarrow> bm_get (cs_waiters st) name = Some q \<Longrightarrow>
    queue_ok (cs_generation st) (bm_get (cs_held st) name) q"
  by (simp add: critical_ok_def)

lemma ok_hold:
  assumes "critical_ok mh mw st" and "bm_get (cs_held st) name = None" and "length (cs_held st) < mh" and "i \<notin> set (queue st name)"
  shows "critical_ok mh mw (hold name i (cs_generation st) st)"
  using assms length_bm_insert [of "cs_held st" name]
  by (auto simp: critical_ok_def hold_def bm_ok_insert bm_get_insert queue_def queue_ok_def split: option.splits)

lemma ok_release [critical_intros]:
  assumes "critical_ok mh mw st"
  shows "critical_ok mh mw (st\<lparr>cs_held := bm_remove name (cs_held st)\<rparr>)"
  using assms length_bm_remove [of name "cs_held st"]
  by (auto simp: critical_ok_def queue_ok_def bm_ok_remove bm_get_remove intro: order_trans split: if_splits)

lemma ok_insert_queue:
  assumes "critical_ok mh mw st" and "queue_ok (cs_generation st) (bm_get (cs_held st) name) q"
    and "n + queued_length (cs_waiters st) name = cs_waiter_count st + length q" and "n \<le> mw"
  shows "critical_ok mh mw (st\<lparr>cs_waiters := bm_insert name q (cs_waiters st), cs_waiter_count := n\<rparr>)"
  using assms waiting_insert [of "cs_waiters st" name q] by (auto simp: critical_ok_def bm_ok_insert bm_get_insert)

lemma ok_set_queue:
  assumes "critical_ok mh mw st" and "q \<noteq> [] \<Longrightarrow> queue_ok (cs_generation st) (bm_get (cs_held st) name) q"
    and "n + queued_length (cs_waiters st) name = cs_waiter_count st + length q" and "n \<le> mw"
  shows "critical_ok mh mw (set_queue name q st\<lparr>cs_waiter_count := n\<rparr>)"
proof (cases "q = []")
  case True
  then show ?thesis using assms(1,3,4) waiting_remove [of "cs_waiters st" name]
    by (auto simp: set_queue_def critical_ok_def bm_ok_remove bm_get_remove)
next
  case False
  then show ?thesis using ok_insert_queue [OF assms(1) assms(2) [OF False] assms(3,4)] by (simp add: set_queue_def)
qed

lemma lock_hold: "critical_ok mh mw st \<Longrightarrow>
    lock (hold name i g st) n = (if n = name then (Some i, queue st name) else lock st n)"
  by (simp add: lock_def holder_def queue_def hold_def critical_ok_def bm_get_insert)

lemma lock_set_queue: "critical_ok mh mw st \<Longrightarrow>
    lock (set_queue name q st\<lparr>cs_waiter_count := c\<rparr>) n = (if n = name then (holder st name, map cw_owner q) else lock st n)"
  by (simp add: lock_def holder_def queue_def set_queue_def critical_ok_def bm_get_insert bm_get_remove)

lemma lock_insert_queue: "critical_ok mh mw st \<Longrightarrow>
    lock (st\<lparr>cs_waiters := bm_insert name q (cs_waiters st), cs_waiter_count := c\<rparr>) n =
      (if n = name then (holder st name, map cw_owner q) else lock st n)"
  by (simp add: lock_def holder_def queue_def critical_ok_def bm_get_insert)

lemma lock_release:
  "lock (st\<lparr>cs_held := bm_remove name (cs_held st)\<rparr>) n = (if n = name then (None, queue st name) else lock st n)"
  by (simp add: lock_def holder_def queue_def bm_get_remove)

lemma lock_wait_generation [simp]: "lock (st\<lparr>cs_wait_generation := x\<rparr>) n = lock st n"
  by (simp add: lock_def holder_def queue_def)

lemma bump_wait_generation_cases:
  obtains "bump_wait_generation st = (Err GenerationOverflow, st)" "cs_wait_generation st \<ge> u64_max"
  | "bump_wait_generation st = (Ok (), st\<lparr>cs_wait_generation := cs_wait_generation st + 1\<rparr>)" "cs_wait_generation st < u64_max"
  by (cases "cs_wait_generation st < u64_max")
    (auto simp: bump_wait_generation_def bump_generation_def generation_next_def generation_new_def)


section \<open>Each transition is one step of one lock\<close>

text \<open>What the transitions of a lock keep: the invariant, the generation and all other locks.\<close>

definition only :: "string \<Rightarrow> usize \<Rightarrow> usize \<Rightarrow> critical_state \<Rightarrow> critical_state \<Rightarrow> bool" where
  "only name mh mw st st' \<longleftrightarrow> critical_ok mh mw st' \<and> cs_generation st' = cs_generation st \<and> (\<forall>n. n \<noteq> name \<longrightarrow> lock st' n = lock st n)"

lemma lock_simps: "lock st name = (holder st name, queue st name)"
  by (simp add: lock_def)

lemma has_waiters_iff: "critical_ok mh mw st \<Longrightarrow> has_waiters st name \<longleftrightarrow> queue st name \<noteq> []"
  by (auto simp: has_waiters_def queue_def split: option.splits)

lemma try_acquire_effect:
  assumes "critical_ok mh mw st" and "try_acquire_locked name i mh st = (r, st')"
  shows "only name mh mw st st' \<and>
    (case r of Err e \<Rightarrow> st' = st \<and> e \<noteq> AccountingInvariant | Ok _ \<Rightarrow> lock_step (Grant i) (lock st name) (lock st' name))"
proof (cases "bm_get (cs_held st) name = None \<and> queue st name = [] \<and> length (cs_held st) < mh")
  case True
  then have "r = Ok ()" "st' = hold name i (cs_generation st) st"
    using assms(2) has_waiters_iff [OF assms(1), of name] by (auto simp: try_acquire_locked_def)
  moreover have "cs_generation (hold name i g st) = cs_generation st" for g by (simp add: hold_def)
  moreover have "lock st name = (None, [])" using True by (simp add: lock_def holder_def)
  ultimately show ?thesis
    using True ok_hold [OF assms(1), of name i] by (simp add: only_def lock_hold [OF assms(1)] lock_step.grant)
next
  case False
  then have "st' = st \<and> (\<exists>e. r = Err e \<and> e \<noteq> AccountingInvariant)"
    using assms(2) has_waiters_iff [OF assms(1), of name] by (auto simp: try_acquire_locked_def split: option.splits if_splits)
  then show ?thesis using assms(1) by (auto simp: only_def)
qed

lemma release_effect:
  assumes "critical_ok mh mw st" and "release_locked name i st = (r, st')"
  shows "only name mh mw st st' \<and>
    (case r of Err e \<Rightarrow> st' = st \<and> e \<noteq> AccountingInvariant | Ok _ \<Rightarrow> lock_step (Free i) (lock st name) (lock st' name))"
proof (cases r)
  case (Inl e)
  then have "st' = st \<and> e \<noteq> AccountingInvariant"
    using assms(2) by (cases st rule: bump_wait_generation_cases)
      (auto simp: release_locked_def and_then_def split: option.splits if_splits)
  then show ?thesis using Inl assms(1) by (simp add: only_def)
next
  case (Inr u)
  then obtain h where h: "bm_get (cs_held st) name = Some h" "hl_owner h = i"
    using assms(2) by (auto simp: release_locked_def split: option.splits if_splits)
  then have l: "lock st name = (Some i, queue st name)" by (simp add: lock_def holder_def)
  obtain g where "st' = st\<lparr>cs_wait_generation := g\<rparr>\<lparr>cs_held := bm_remove name (cs_held st)\<rparr>"
  proof (cases st rule: bump_wait_generation_cases)
    case 1
    then show ?thesis using assms(2) h Inr that [of "cs_wait_generation st"]
      by (auto simp: release_locked_def and_then_def split: if_splits)
  next
    case 2
    then show ?thesis using assms(2) h Inr that [of "cs_wait_generation st"] that [of "cs_wait_generation st + 1"]
      by (auto simp: release_locked_def and_then_def split: if_splits)
  qed
  then show ?thesis using Inr ok_release [OF ok_wait_generation [OF assms(1), of g], of name] l
      lock_release [of name "st\<lparr>cs_wait_generation := g\<rparr>"]
    by (simp add: only_def lock_step.free) (simp add: lock_def queue_def holder_def lock_step.free)
qed

lemma admit_effect:
  assumes "critical_ok mh mw st" and "bm_get (cs_held st) name = None" and "is_front st name i (cs_generation st)"
    and "length (cs_held st) < mh" and "admit name i (cs_generation st) st = (r, st')"
  shows "only name mh mw st st' \<and>
    (case r of Err e \<Rightarrow> st' = st \<and> e \<noteq> AccountingInvariant | Ok _ \<Rightarrow> lock_step (Grant i) (lock st name) (lock st' name))"
proof (cases st rule: bump_wait_generation_cases)
  case 1
  then show ?thesis using assms(1,5) by (auto simp: only_def admit_def)
next
  case 2
  obtain w q where q: "bm_get (cs_waiters st) name = Some (w # q)" "cw_owner w = i"
    using assms(3) by (auto simp: is_front_def is_waiter_def split: option.splits list.splits)
  let ?st = "st\<lparr>cs_wait_generation := cs_wait_generation st + 1\<rparr>"
  let ?n = "cs_waiter_count st - 1"
  have ok: "critical_ok mh mw ?st" by (rule ok_wait_generation [OF assms(1)])
  have "queued_length (cs_waiters st) name = Suc (length q)" by (simp add: queued_length_def q)
  moreover have "queued_length (cs_waiters st) name \<le> cs_waiter_count st"
    using waiting_remove [of "cs_waiters st" name] assms(1) by (simp add: critical_ok_def)
  ultimately have n: "?n + queued_length (cs_waiters st) name = cs_waiter_count st + length q" "1 \<le> cs_waiter_count st" by simp_all
  have oq: "queue_ok (cs_generation st) None (w # q)" using ok_queue_of [OF assms(1) q(1)] assms(2) by simp
  let ?st1 = "set_queue name q ?st\<lparr>cs_waiter_count := ?n\<rparr>"
  have ok1: "critical_ok mh mw ?st1"
  proof (rule ok_set_queue [OF ok])
    show "q \<noteq> [] \<Longrightarrow> queue_ok (cs_generation ?st) (bm_get (cs_held ?st) name) q" using oq assms(2) by (simp add: queue_ok_def)
    show "?n + queued_length (cs_waiters ?st) name = cs_waiter_count ?st + length q" using n by simp
    show "?n \<le> mw" using assms(1) unfolding critical_ok_def by linarith
  qed
  have l1: "lock ?st1 n = (if n = name then (None, map cw_owner q) else lock st n)" for n
    using assms(2) by (subst lock_set_queue [OF ok]) (simp add: holder_def)
  have r: "r = Ok () \<and> st' = hold name i (cs_generation st) ?st1"
    using assms(5) n(2) q by (simp add: admit_def 2)
  have "critical_ok mh mw (hold name i (cs_generation ?st1) ?st1)"
  proof (rule ok_hold [OF ok1])
    show "bm_get (cs_held ?st1) name = None" "length (cs_held ?st1) < mh" using assms(2,4) by (simp_all add: set_queue_def)
    show "i \<notin> set (queue ?st1 name)" using l1 [of name] oq q(2) by (auto simp: lock_def queue_ok_def)
  qed
  moreover have "cs_generation ?st1 = cs_generation st" by (simp add: set_queue_def)
  moreover have "lock st name = (None, i # map cw_owner q)" using q assms(2) by (simp add: lock_def holder_def queue_def)
  moreover have "queue ?st1 name = map cw_owner q" using l1 [of name] by (simp add: lock_def)
  moreover have "cs_generation (hold name i g ?st1) = cs_generation ?st1" for g by (simp add: hold_def)
  ultimately show ?thesis using r lock_hold [OF ok1, of name i "cs_generation st"] l1
    by (simp only: only_def) (auto simp: lock_step.admit)
qed


lemma refresh_effect:
  assumes "critical_ok mh mw st" and "refresh_waker name i g wk st = Some st'"
  shows "only name mh mw st st' \<and> lock st' name = lock st name \<and> i \<in> set (queue st name)"
proof -
  obtain q q' where q: "bm_get (cs_waiters st) name = Some q" "refresh_queue i g wk q = Some q'"
      "st' = st\<lparr>cs_waiters := bm_insert name q' (cs_waiters st)\<rparr>"
    using assms(2) by (auto simp: refresh_waker_def split: option.splits)
  note o = refresh_queue_Some [OF q(2)]
  have len: "length q' = length q" using o(1) by (metis length_map)
  have st': "st' = st\<lparr>cs_waiters := bm_insert name q' (cs_waiters st), cs_waiter_count := cs_waiter_count st\<rparr>" by (simp add: q(3))
  have "critical_ok mh mw st'" unfolding st'
  proof (rule ok_insert_queue [OF assms(1)])
    show "queue_ok (cs_generation st) (bm_get (cs_held st) name) q'"
      using queue_ok_owners [OF o(1,2)] ok_queue_of [OF assms(1) q(1)] by simp
    show "cs_waiter_count st + queued_length (cs_waiters st) name = cs_waiter_count st + length q'"
      by (simp add: queued_length_def q(1) len)
    show "cs_waiter_count st \<le> mw" using assms(1) by (simp add: critical_ok_def)
  qed
  moreover have "lock st' n = lock st n" for n
    unfolding st' lock_insert_queue [OF assms(1)] using q(1) o(1) by (simp add: lock_def queue_def)
  ultimately show ?thesis using o(3) q by (simp add: only_def queue_def)
qed

lemma refresh_waker_None:
  assumes "critical_ok mh mw st"
  shows "refresh_waker name i (cs_generation st) wk st = None \<longleftrightarrow> i \<notin> set (queue st name)"
proof (cases "bm_get (cs_waiters st) name")
  case (Some q)
  then have "\<forall>w \<in> set q. cw_generation w = cs_generation st" using ok_queue_of [OF assms Some] by (simp add: queue_ok_def)
  then show ?thesis using Some by (auto simp: refresh_waker_def refresh_queue_None queue_def is_waiter_def)
qed (simp add: refresh_waker_def queue_def)

lemma enqueue_effect:
  assumes "critical_ok mh mw st" and "mw \<le> MAX_CRITICAL_WAITERS" and "enqueue name i (cs_generation st) wk mw st = (r, st')"
    and "holder st name \<noteq> Some i" and "i \<notin> set (queue st name)" and "holder st name \<noteq> None \<or> queue st name \<noteq> []"
  shows "only name mh mw st st' \<and>
    (case r of PollReady v \<Rightarrow> st' = st \<and> (\<exists>e. v = Err e \<and> e \<noteq> AccountingInvariant) | PollPending \<Rightarrow> lock_step (Wait i) (lock st name) (lock st' name))"
proof (cases "cs_waiter_count st < mw \<and> cs_wait_generation st < u64_max")
  case True
  let ?st = "st\<lparr>cs_wait_generation := cs_wait_generation st + 1\<rparr>"
  let ?q = "(case bm_get (cs_waiters st) name of None \<Rightarrow> [] | Some q \<Rightarrow> q) @ [\<lparr>cw_owner = i, cw_generation = cs_generation st, cw_waker = wk\<rparr>]"
  let ?st1 = "?st\<lparr>cs_waiters := bm_insert name ?q (cs_waiters ?st), cs_waiter_count := cs_waiter_count st + 1\<rparr>"
  have b: "bump_wait_generation st = (Ok (), ?st)" using True by (cases st rule: bump_wait_generation_cases) simp_all
  have fits: "cs_waiter_count st + 1 \<le> usize_max"
    using True assms(2) by (simp add: MAX_CRITICAL_WAITERS_def usize_max_def)
  then have r: "r = PollPending \<and> st' = ?st1"
    using assms(3) True by (simp add: enqueue_def b)
  have ok: "critical_ok mh mw ?st" by (rule ok_wait_generation [OF assms(1)])
  have "critical_ok mh mw ?st1"
  proof (rule ok_insert_queue [OF ok])
    show "queue_ok (cs_generation ?st) (bm_get (cs_held ?st) name) ?q"
      using ok_queue_of [OF assms(1), of name] assms(4,5)
      by (auto simp: queue_ok_def holder_def queue_def split: option.splits)
    show "cs_waiter_count st + 1 + queued_length (cs_waiters ?st) name = cs_waiter_count ?st + length ?q"
      by (simp add: queued_length_def split: option.splits)
    show "cs_waiter_count st + 1 \<le> mw" using True by simp
  qed
  moreover have "lock ?st1 n = (if n = name then (holder st name, queue st name @ [i]) else lock st n)" for n
    by (subst lock_insert_queue [OF ok]) (auto simp: holder_def queue_def lock_def split: option.splits)
  ultimately show ?thesis
    using r assms(4-6) by (simp add: only_def lock_simps [of st] lock_step.wait)
next
  case False
  then have "\<exists>e. r = PollReady (Err e) \<and> e \<noteq> AccountingInvariant \<and> st' = st"
    using assms(2,3) by (cases st rule: bump_wait_generation_cases)
      (auto simp: enqueue_def MAX_CRITICAL_WAITERS_def usize_max_def split: if_splits option.splits)
  then show ?thesis using assms(1) by (auto simp: only_def)
qed

lemma poll_effect:
  assumes "critical_ok mh mw st" and "mw \<le> MAX_CRITICAL_WAITERS"
    and "poll_acquire_locked name i (cs_generation st) wk mh mw st = (r, st')"
  shows "only name mh mw st st' \<and>
    (case r of
       PollReady (Err e) \<Rightarrow> st' = st \<and> e \<noteq> AccountingInvariant
     | PollReady (Ok _) \<Rightarrow> lock_step (Grant i) (lock st name) (lock st' name)
     | PollPending \<Rightarrow> lock_step (if i \<in> set (queue st name) then Quiet else Wait i) (lock st name) (lock st' name))"
proof -
  let ?g = "cs_generation st"
  have gen: "hl_generation h = ?g" if "bm_get (cs_held st) name = Some h" for h
    using assms(1) that by (simp add: critical_ok_def)
  have own_iff: "(case bm_get (cs_held st) name of None \<Rightarrow> False | Some h \<Rightarrow> hl_owner h = i \<and> hl_generation h = ?g) \<longleftrightarrow> holder st name = Some i"
    using gen by (auto simp: holder_def split: option.splits)
  consider (own) "holder st name = Some i"
    | (front) "bm_get (cs_held st) name = None" "is_front st name i ?g"
    | (queued) "holder st name \<noteq> Some i" "\<not> (bm_get (cs_held st) name = None \<and> is_front st name i ?g)" "i \<in> set (queue st name)"
    | (fresh) "holder st name \<noteq> Some i" "i \<notin> set (queue st name)"
    by metis
  then show ?thesis
  proof cases
    case own
    then have "r = PollReady (Err (Busy name i)) \<and> st' = st"
      using assms(3) gen by (auto simp: poll_acquire_locked_def holder_def)
    then show ?thesis using assms(1) by (simp add: only_def)
  next
    case front
    then have mem: "i \<in> set (queue st name)"
      by (auto simp: is_front_def queue_def is_waiter_def split: option.splits list.splits)
    show ?thesis
    proof (cases "mh \<le> length (cs_held st)")
      case True
      obtain st1 where "refresh_waker name i ?g wk st = Some st1"
        using refresh_waker_None [OF assms(1)] mem by fastforce
      then show ?thesis using refresh_effect [OF assms(1)] front True assms(3) mem
        by (fastforce simp: poll_acquire_locked_def lock_step.quiet)
    next
      case False
      obtain v st1 where a: "admit name i ?g st = (v, st1)" by (cases "admit name i ?g st")
      then have "r = PollReady v \<and> st' = st1" using assms(3) front False by (simp add: poll_acquire_locked_def)
      then show ?thesis using admit_effect [OF assms(1) front _ a] False by (auto split: sum.splits)
    qed
  next
    case queued
    then obtain st1 where st1: "refresh_waker name i ?g wk st = Some st1"
      using refresh_waker_None [OF assms(1)] by fastforce
    then have "r = PollPending \<and> st' = st1"
      using assms(3) queued(2) own_iff queued(1) by (simp add: poll_acquire_locked_def Let_def split: if_splits)
    then show ?thesis using refresh_effect [OF assms(1) st1] queued(3) by (simp add: lock_step.quiet)
  next
    case fresh
    have nf: "\<not> is_front st name i ?g"
      using fresh(2) by (auto simp: is_front_def queue_def is_waiter_def split: option.splits list.splits)
    have nr: "refresh_waker name i ?g wk st = None" using fresh(2) refresh_waker_None [OF assms(1)] by simp
    note nh = own_iff fresh(1)
    show ?thesis
    proof (cases "bm_get (cs_held st) name \<noteq> None \<or> has_waiters st name")
      case True
      then have e: "enqueue name i ?g wk mw st = (r, st')"
        using assms(3) nf nr nh by (simp add: poll_acquire_locked_def)
      have "holder st name \<noteq> None \<or> queue st name \<noteq> []"
        using True has_waiters_iff [OF assms(1)] by (auto simp: holder_def)
      then show ?thesis using enqueue_effect [OF assms(1,2) e fresh] fresh(2) by (auto split: poll_outcome.splits)
    next
      case False
      then have t: "try_acquire_locked name i mh st = (case r of PollReady v \<Rightarrow> v | _ \<Rightarrow> Ok (), st')" "r \<noteq> PollPending"
        using assms(3) nf nr nh by (auto simp: poll_acquire_locked_def try_acquire_locked_def Let_def split: if_splits)
      then show ?thesis using try_acquire_effect [OF assms(1) t(1)] by (auto split: poll_outcome.splits sum.splits)
    qed
  qed
qed

lemma cancel_effect:
  assumes "critical_ok mh mw st" and "cancel_waiter_locked name i (cs_generation st) st = (r, st')"
  shows "only name mh mw st st' \<and>
    (case r of
       Err e \<Rightarrow> st' = st \<and> e \<noteq> AccountingInvariant
     | Ok cancelled \<Rightarrow> cancelled = (i \<in> set (queue st name)) \<and>
         lock_step (if cancelled then Leave i else Quiet) (lock st name) (lock st' name))"
proof (cases "Option.bind (bm_get (cs_waiters st) name) (remove_waiter i (cs_generation st))")
  case None
  have "i \<notin> set (queue st name)"
  proof (cases "bm_get (cs_waiters st) name")
    case (Some q)
    then have "\<forall>w \<in> set q. cw_generation w = cs_generation st" using ok_queue_of [OF assms(1) Some] by (simp add: queue_ok_def)
    then show ?thesis using Some None by (auto simp: queue_def remove_waiter_None is_waiter_def)
  qed (simp add: queue_def)
  then show ?thesis using None assms by (auto simp: cancel_waiter_locked_def only_def lock_step.quiet)
next
  case (Some q')
  then obtain q where q: "bm_get (cs_waiters st) name = Some q" "remove_waiter i (cs_generation st) q = Some q'"
    by (auto simp: bind_eq_Some_conv)
  have oq: "queue_ok (cs_generation st) (bm_get (cs_held st) name) q" by (rule ok_queue_of [OF assms(1) q(1)])
  note rm = remove_waiter_Some [OF q(2)]
  show ?thesis
  proof (cases st rule: bump_wait_generation_cases)
    case 1
    then show ?thesis using Some assms by (auto simp: cancel_waiter_locked_def only_def)
  next
    case 2
    let ?st = "st\<lparr>cs_wait_generation := cs_wait_generation st + 1\<rparr>"
    let ?n = "cs_waiter_count st - 1"
    have len: "length q = Suc (length q')" using rm(4) oq by (simp add: queue_ok_def)
    have "queued_length (cs_waiters st) name \<le> cs_waiter_count st"
      using waiting_remove [of "cs_waiters st" name] assms(1) by (simp add: critical_ok_def)
    then have n: "?n + queued_length (cs_waiters st) name = cs_waiter_count st + length q'" "1 \<le> cs_waiter_count st"
      using len by (simp_all add: queued_length_def q(1))
    have ok: "critical_ok mh mw ?st" by (rule ok_wait_generation [OF assms(1)])
    let ?st1 = "set_queue name q' ?st\<lparr>cs_waiter_count := ?n\<rparr>"
    have r: "r = Ok True \<and> st' = ?st1" using assms(2) Some n(2) by (simp add: cancel_waiter_locked_def 2)
    have "critical_ok mh mw ?st1"
    proof (rule ok_set_queue [OF ok])
      show "q' \<noteq> [] \<Longrightarrow> queue_ok (cs_generation ?st) (bm_get (cs_held ?st) name) q'"
        using queue_ok_remove [OF rm(1,2) oq] oq by (simp add: queue_ok_def)
      show "?n + queued_length (cs_waiters ?st) name = cs_waiter_count ?st + length q'" using n by simp
      show "?n \<le> mw" using assms(1) unfolding critical_ok_def by linarith
    qed
    moreover have "lock ?st1 n = (if n = name then (holder st name, remove1 i (queue st name)) else lock st n)" for n
      using rm(1) oq by (subst lock_set_queue [OF ok]) (simp add: holder_def queue_def q(1) queue_ok_def)
    moreover have "i \<in> set (queue st name)" using rm(3) oq by (simp add: queue_def q(1) queue_ok_def)
    moreover have "cs_generation ?st1 = cs_generation st" by (simp add: set_queue_def)
    ultimately show ?thesis using r by (simp only: only_def lock_simps [of st name]) (auto simp: lock_step.leave)
  qed
qed


section \<open>Runs\<close>

datatype critical_command =
    TryAcquire string u64
  | TryAcquireIn string u64 coordination_generation
  | PollIn string u64 coordination_generation waker
  | Release string u64
  | ReleaseIn string u64 coordination_generation
  | CancelIn string u64 coordination_generation
  | Advance

datatype critical_answer = Acquired | Pending | Released | Withdrawn bool | Advanced coordination_generation
  | Refused critical_section_error

definition answer :: "('a \<Rightarrow> critical_answer) \<Rightarrow> (critical_section_error, 'a) result \<times> critical_coordinator \<Rightarrow> critical_answer \<times> critical_coordinator" where
  "answer f rc = (case rc of (Ok x, c) \<Rightarrow> (f x, c) | (Err e, c) \<Rightarrow> (Refused e, c))"

fun critical_step :: "critical_command \<Rightarrow> critical_coordinator \<Rightarrow> critical_answer \<times> critical_coordinator" where
  "critical_step (TryAcquire name i) c = answer (\<lambda>_. Acquired) (try_acquire name i c)"
| "critical_step (TryAcquireIn name i g) c = answer (\<lambda>_. Acquired) (try_acquire_generation name i g c)"
| "critical_step (PollIn name i g wk) c =
     (case poll_acquire_generation name i g wk c of
        (PollReady r, c') \<Rightarrow> answer (\<lambda>_. Acquired) (r, c')
      | (PollPending, c') \<Rightarrow> (Pending, c'))"
| "critical_step (Release name i) c = answer (\<lambda>_. Released) (critical_release name i c)"
| "critical_step (ReleaseIn name i g) c = answer (\<lambda>_. Released) (release_generation name i g c)"
| "critical_step (CancelIn name i g) c = answer Withdrawn (cancel_acquire_generation name i g c)"
| "critical_step Advance c = answer Advanced (advance_generation c)"

fun critical_run :: "critical_command list \<Rightarrow> critical_coordinator \<Rightarrow> critical_coordinator" where
  "critical_run [] c = c"
| "critical_run (cmd # cmds) c = critical_run cmds (snd (critical_step cmd c))"

fun addressed :: "critical_command \<Rightarrow> (string \<times> u64) option" where
  "addressed (TryAcquire name i) = Some (name, i)"
| "addressed (TryAcquireIn name i _) = Some (name, i)"
| "addressed (PollIn name i _ _) = Some (name, i)"
| "addressed (Release name i) = Some (name, i)"
| "addressed (ReleaseIn name i _) = Some (name, i)"
| "addressed (CancelIn name i _) = Some (name, i)"
| "addressed Advance = None"

text \<open>The event that an answer announces for a lock with the given queue.\<close>

fun announced :: "u64 \<Rightarrow> u64 list \<Rightarrow> critical_answer \<Rightarrow> lock_event" where
  "announced i q Acquired = Grant i"
| "announced i q Released = Free i"
| "announced i q Pending = (if i \<in> set q then Quiet else Wait i)"
| "announced i q (Withdrawn b) = (if b then Leave i else Quiet)"
| "announced i q _ = Quiet"

definition event_at :: "critical_command \<Rightarrow> critical_answer \<Rightarrow> critical_state \<Rightarrow> string \<Rightarrow> lock_event" where
  "event_at cmd ans st n =
     (case addressed cmd of Some (name, i) \<Rightarrow> if n = name then announced i (queue st n) ans else Quiet | None \<Rightarrow> Quiet)"

definition coordinator_ok :: "critical_coordinator \<Rightarrow> bool" where
  "coordinator_ok c \<longleftrightarrow> critical_ok (cc_max_held c) (cc_max_waiters c) (cc_state c) \<and> cc_max_waiters c \<le> MAX_CRITICAL_WAITERS"

definition fair_step :: "critical_command \<Rightarrow> critical_answer \<Rightarrow> critical_coordinator \<Rightarrow> critical_coordinator \<Rightarrow> bool" where
  "fair_step cmd ans c c' \<longleftrightarrow>
     (\<forall>n. lock_step (event_at cmd ans (cc_state c) n) (lock (cc_state c) n) (lock (cc_state c') n)) \<and>
     (case ans of Refused e \<Rightarrow> c' = c \<and> e \<noteq> AccountingInvariant | _ \<Rightarrow> True)"

lemma fair_stepI:
  assumes "addressed cmd = Some (name, i)" and "only name mh mw (cc_state c) (cc_state c')"
    and "lock_step (announced i (queue (cc_state c) name) ans) (lock (cc_state c) name) (lock (cc_state c') name)"
    and "\<And>e. ans = Refused e \<Longrightarrow> c' = c \<and> e \<noteq> AccountingInvariant"
  shows "fair_step cmd ans c c'"
  using assms by (auto simp: fair_step_def event_at_def only_def lock_step.quiet split: critical_answer.splits)

lemma fair_refusal: "e \<noteq> AccountingInvariant \<Longrightarrow> fair_step cmd (Refused e) c c"
  by (auto simp: fair_step_def event_at_def lock_step.quiet split: option.splits)

lemma coordinator_same [simp]: "c\<lparr>cc_state := cc_state c\<rparr> = (c :: critical_coordinator)"
  by simp

lemma validated_cases:
  obtains e where "validated name i = Err e" "e \<noteq> AccountingInvariant" | "validated name i = Ok ()"
  by (cases "name = [] \<or> MAX_LOCK_NAME_BYTES < length name"; cases "i = 0")
    (auto simp: validated_def validate_lock_name_def validate_owner_def)


text \<open>A transition of the state, embedded in the coordinator and answered.\<close>

definition steps_fairly :: "critical_command \<Rightarrow> critical_coordinator \<Rightarrow> critical_answer \<times> critical_coordinator \<Rightarrow> bool" where
  "steps_fairly cmd c ac \<longleftrightarrow>
     (case ac of (ans, c') \<Rightarrow> coordinator_ok c' \<and> cc_max_held c' = cc_max_held c \<and> cc_max_waiters c' = cc_max_waiters c \<and>
        fair_step cmd ans c c')"

lemma steps_refused: "coordinator_ok c \<Longrightarrow> e \<noteq> AccountingInvariant \<Longrightarrow> steps_fairly cmd c (Refused e, c)"
  by (simp add: steps_fairly_def fair_refusal)

lemma steps_locked:
  assumes "coordinator_ok c" and "addressed cmd = Some (name, i)"
    and "only name (cc_max_held c) (cc_max_waiters c) (cc_state c) st"
    and "lock_step (announced i (queue (cc_state c) name) ans) (lock (cc_state c) name) (lock st name)"
    and "\<And>e. ans \<noteq> Refused e"
  shows "steps_fairly cmd c (ans, wake_all_of wks (c\<lparr>cc_state := st\<rparr>))"
  using assms fair_stepI [of cmd name i "cc_max_held c" "cc_max_waiters c" c "wake_all_of wks (c\<lparr>cc_state := st\<rparr>)" ans]
  by (simp add: steps_fairly_def coordinator_ok_def only_def wake_all_of_def)

lemma wake_none: "wake_all_of [] c = c"
  by (simp add: wake_all_of_def)

lemma steps_result:
  assumes "coordinator_ok c" and "addressed cmd = Some (name, i)"
    and "only name (cc_max_held c) (cc_max_waiters c) (cc_state c) st"
    and "case r of Err e \<Rightarrow> st = cc_state c \<and> e \<noteq> AccountingInvariant
      | Ok x \<Rightarrow> lock_step (announced i (queue (cc_state c) name) (f x)) (lock (cc_state c) name) (lock st name)"
    and "\<And>x e. f x \<noteq> Refused e" and "\<And>e. r = Err e \<Longrightarrow> wks = []"
  shows "steps_fairly cmd c (answer f (r, wake_all_of wks (c\<lparr>cc_state := st\<rparr>)))"
  using assms steps_locked [OF assms(1-3)] steps_refused [OF assms(1)]
  by (cases r) (auto simp: answer_def wake_none)

lemma stale_cases:
  obtains e where "validate_generation st g name = Err e" "e \<noteq> AccountingInvariant"
  | "validate_generation st g name = Ok ()" "g = cs_generation st"
  by (cases "g = cs_generation st") (auto simp: validate_generation_def)

lemma answer_refused: "answer f (Err e, c) = (Refused e, c)"
  by (simp add: answer_def)

lemma coordinator_okD: "coordinator_ok c \<Longrightarrow> critical_ok (cc_max_held c) (cc_max_waiters c) (cc_state c)"
  by (simp add: coordinator_ok_def)

lemma step_try:
  assumes "coordinator_ok c" and "addressed cmd = Some (name, i)"
  shows "steps_fairly cmd c (answer (\<lambda>_. Acquired) (locked (try_acquire_locked name i (cc_max_held c)) c))"
proof -
  obtain r st' where e: "try_acquire_locked name i (cc_max_held c) (cc_state c) = (r, st')" by fastforce
  show ?thesis
    using steps_result [OF assms, of st' "\<lambda>_. Acquired" r "[]"] try_acquire_effect [OF coordinator_okD [OF assms(1)] e]
    by (cases r) (simp_all add: locked_def wake_none e)
qed

lemma step_release:
  assumes "coordinator_ok c" and "addressed cmd = Some (name, i)" and "release_locked name i (cc_state c) = (r, st')"
    and "\<And>e. r = Err e \<Longrightarrow> wks = []"
  shows "steps_fairly cmd c (answer (\<lambda>_. Released) (r, wake_all_of wks (c\<lparr>cc_state := st'\<rparr>)))"
  using steps_result [OF assms(1,2), of st' "\<lambda>_. Released" r wks] release_effect [OF coordinator_okD [OF assms(1)] assms(3)] assms(4)
  by (cases r) simp_all

lemma step_poll:
  assumes "coordinator_ok c"
  shows "steps_fairly (PollIn name i g wk) c (critical_step (PollIn name i g wk) c)"
proof (cases name i rule: validated_cases)
  case valid: 2
  show ?thesis
  proof (cases "cc_state c" g name rule: stale_cases)
    case current: 2
    obtain r st' where e: "poll_acquire_locked name i (cs_generation (cc_state c)) wk (cc_max_held c) (cc_max_waiters c) (cc_state c) = (r, st')"
      by fastforce
    have a: "addressed (PollIn name i g wk) = Some (name, i)" by simp
    have eff: "only name (cc_max_held c) (cc_max_waiters c) (cc_state c) st'" "case r of
       PollReady (Err e) \<Rightarrow> st' = cc_state c \<and> e \<noteq> AccountingInvariant
     | PollReady (Ok _) \<Rightarrow> lock_step (Grant i) (lock (cc_state c) name) (lock st' name)
     | PollPending \<Rightarrow> lock_step (if i \<in> set (queue (cc_state c) name) then Quiet else Wait i) (lock (cc_state c) name) (lock st' name)"
      using poll_effect [OF coordinator_okD [OF assms] _ e] assms by (simp_all add: coordinator_ok_def)
    show ?thesis
    proof (cases r)
      case (PollReady v)
      then show ?thesis using valid current e steps_result [OF assms a eff(1), of "\<lambda>_. Acquired" v "[]"] eff(2)
        by (cases v) (simp_all add: poll_acquire_generation_def locked_def wake_none)
    next
      case PollPending
      then show ?thesis using valid current e steps_locked [OF assms a eff(1), of Pending "[]"] eff(2)
        by (simp add: poll_acquire_generation_def locked_def wake_none)
    qed
  qed (use valid steps_refused [OF assms] in \<open>simp add: poll_acquire_generation_def answer_refused\<close>)
qed (use steps_refused [OF assms] in \<open>simp add: poll_acquire_generation_def answer_refused\<close>)

lemma step_cancel:
  assumes "coordinator_ok c"
  shows "steps_fairly (CancelIn name i g) c (critical_step (CancelIn name i g) c)"
proof (cases name i rule: validated_cases)
  case valid: 2
  show ?thesis
  proof (cases "cc_state c" g name rule: stale_cases)
    case current: 2
    obtain r st' where e: "cancel_waiter_locked name i (cs_generation (cc_state c)) (cc_state c) = (r, st')" by fastforce
    have a: "addressed (CancelIn name i g) = Some (name, i)" by simp
    have "only name (cc_max_held c) (cc_max_waiters c) (cc_state c) st'" "case r of
       Err e \<Rightarrow> st' = cc_state c \<and> e \<noteq> AccountingInvariant
     | Ok b \<Rightarrow> lock_step (announced i (queue (cc_state c) name) (Withdrawn b)) (lock (cc_state c) name) (lock st' name)"
      using cancel_effect [OF coordinator_okD [OF assms] e] by (auto split: sum.splits)
    note steps_result [OF assms a this]
    moreover have "critical_step (CancelIn name i g) c = answer Withdrawn (r, wake_all_of
        (case r of Ok True \<Rightarrow> (case next_waiter_waker st' name of None \<Rightarrow> [] | Some wk \<Rightarrow> [wk]) | _ \<Rightarrow> []) (c\<lparr>cc_state := st'\<rparr>))"
      using valid current e by (auto simp: cancel_acquire_generation_def locked_def wake_none split: sum.splits)
    ultimately show ?thesis by simp
  qed (use valid steps_refused [OF assms] in \<open>simp add: cancel_acquire_generation_def locked_def answer_refused\<close>)
qed (use steps_refused [OF assms] in \<open>simp add: cancel_acquire_generation_def locked_def answer_refused\<close>)

lemma no_waiters: "critical_ok mh mw st \<Longrightarrow> cs_waiter_count st = 0 \<Longrightarrow> cs_waiters st = []"
proof -
  assume ok: "critical_ok mh mw st" and "cs_waiter_count st = 0"
  then have "\<forall>e \<in> set (cs_waiters st). snd e = []" by (auto simp: critical_ok_def waiting_def)
  moreover have "snd e \<noteq> []" if "e \<in> set (cs_waiters st)" for e
    using ok that bm_entry [of "cs_waiters st" "fst e" "snd e"] by (auto simp: critical_ok_def queue_ok_def)
  ultimately show ?thesis by (metis ex_in_conv list.set(1) list.set_intros(1) neq_Nil_conv)
qed

lemma step_advance:
  assumes "coordinator_ok c"
  shows "steps_fairly Advance c (critical_step Advance c)"
proof (cases "cs_held (cc_state c) \<noteq> [] \<or> cs_waiter_count (cc_state c) \<noteq> 0")
  case True
  then show ?thesis using steps_refused [OF assms] by (auto simp: advance_generation_def locked_def answer_refused)
next
  case False
  then have empty: "cs_held (cc_state c) = []" "cs_waiters (cc_state c) = []" "cs_waiter_count (cc_state c) = 0"
    using no_waiters [OF coordinator_okD [OF assms]] by simp_all
  show ?thesis
  proof (cases "generation_next (cs_generation (cc_state c)) = None")
    case True
    then show ?thesis using False steps_refused [OF assms] by (simp add: advance_generation_def locked_def answer_refused)
  next
    case next_gen: False
    show ?thesis
    proof (cases "cc_state c" rule: bump_wait_generation_cases)
      case 1
      then show ?thesis using False next_gen steps_refused [OF assms]
        by (auto simp: advance_generation_def locked_def answer_refused)
    next
      case 2
      then show ?thesis using False next_gen empty assms
        by (auto simp: advance_generation_def locked_def answer_def steps_fairly_def coordinator_ok_def critical_ok_def
            fair_step_def event_at_def lock_def holder_def queue_def lock_step.quiet)
    qed
  qed
qed

lemma step_fair:
  assumes "coordinator_ok c"
  shows "steps_fairly cmd c (critical_step cmd c)"
proof (cases cmd)
  case (TryAcquire name i)
  then show ?thesis using steps_refused [OF assms] step_try [OF assms, of cmd name i]
    by (cases name i rule: validated_cases) (auto simp: try_acquire_def locked_def answer_refused)
next
  case (TryAcquireIn name i g)
  then show ?thesis using steps_refused [OF assms] step_try [OF assms, of cmd name i]
    by (cases name i rule: validated_cases; cases "cc_state c" g name rule: stale_cases)
      (auto simp: try_acquire_generation_def locked_def answer_refused)
next
  case (Release name i)
  obtain r st' where e: "release_locked name i (cc_state c) = (r, st')" by fastforce
  then show ?thesis using Release steps_refused [OF assms]
      step_release [OF assms _ e, of cmd "if is_ok r then available_waiter_wakers st' (cc_max_held c) else []"]
    by (cases name i rule: validated_cases) (auto simp: critical_release_def locked_def answer_refused)
next
  case (ReleaseIn name i g)
  obtain r st' where e: "release_locked name i (cc_state c) = (r, st')" by fastforce
  then show ?thesis using ReleaseIn steps_refused [OF assms] step_release [OF assms _ e, of cmd "[]"]
    by (cases name i rule: validated_cases; cases "cc_state c" g name rule: stale_cases)
      (auto simp: release_generation_def locked_def answer_refused wake_none)
qed (use step_poll [OF assms] step_cancel [OF assms] step_advance [OF assms] in simp_all)

lemma run_ok: "coordinator_ok c \<Longrightarrow> coordinator_ok (critical_run cmds c)"
proof (induction cmds arbitrary: c)
  case (Cons cmd cmds)
  then show ?case using step_fair [OF Cons.prems, of cmd] by (simp add: steps_fairly_def split_def)
qed simp

lemma new_ok: "coordinator_ok (critical_with_limits mh mw)"
  by (simp add: coordinator_ok_def critical_ok_def critical_with_limits_def critical_state_default_def waiting_def bm_ok_def)


section \<open>First come, first served\<close>

text \<open>
  While a user that waits in front of another one neither gets the lock nor gives up, the other one
  does not get it, and the order of the two stays.
\<close>

lemma lock_step_fifo:
  assumes "lock_step ev (h, xs @ a # ys) (h', q')" and "distinct (xs @ a # ys)" and "b \<in> set ys"
    and "ev \<noteq> Grant a" and "ev \<noteq> Leave a"
  shows "ev \<noteq> Grant b \<and> (\<exists>xs' ys'. q' = xs' @ a # ys' \<and> (b \<in> set ys' \<or> ev = Leave b))"
  using assms(1)
proof cases
  case (admit i)
  then show ?thesis using assms(2-4) by (cases xs) auto
next
  case (leave i)
  show ?thesis
  proof (cases "i \<in> set xs")
    case True
    then show ?thesis using leave assms(3) by (auto simp: remove1_append)
  next
    case False
    have "b \<in> set (remove1 i ys) \<or> i = b" using assms(3) by (metis in_set_remove1)
    then show ?thesis using leave False assms(5) by (auto simp: remove1_append)
  qed
next
  case (wait i)
  then show ?thesis using assms(3) by (intro conjI exI [of _ xs] exI [of _ "ys @ [i]"]) auto
qed (use assms(2-4) in auto)

text \<open>A user that waits for a lock passed the checks of the arguments when it came.\<close>

definition waiters_valid :: "critical_state \<Rightarrow> bool" where
  "waiters_valid st \<longleftrightarrow> (\<forall>n. \<forall>i \<in> set (queue st n). validated n i = Ok ())"

lemma lock_step_queue: "lock_step ev (h, q) (h', q') \<Longrightarrow> i \<in> set q' \<Longrightarrow> i \<in> set q \<or> ev = Wait i"
  by (auto elim!: lock_step.cases dest: subsetD [OF set_remove1_subset])

lemma pending_validated:
  "critical_step cmd c = (Pending, c') \<Longrightarrow> addressed cmd = Some (name, i) \<Longrightarrow> validated name i = Ok ()"
  by (cases cmd; cases name i rule: validated_cases)
    (auto simp: answer_def poll_acquire_generation_def split: prod.splits sum.splits poll_outcome.splits)

lemma step_waiters_valid:
  assumes "coordinator_ok c" and "waiters_valid (cc_state c)" and "critical_step cmd c = (ans, c')"
  shows "waiters_valid (cc_state c')"
  unfolding waiters_valid_def
proof (intro allI ballI)
  fix n i assume i: "i \<in> set (queue (cc_state c') n)"
  have "lock_step (event_at cmd ans (cc_state c) n) (lock (cc_state c) n) (lock (cc_state c') n)"
    using step_fair [OF assms(1), of cmd] assms(3) by (simp add: steps_fairly_def fair_step_def)
  then consider "i \<in> set (queue (cc_state c) n)" | "event_at cmd ans (cc_state c) n = Wait i"
    unfolding lock_def using lock_step_queue [OF _ i] by blast
  then show "validated n i = Ok ()"
  proof cases
    case 1
    then show ?thesis using assms(2) by (simp add: waiters_valid_def)
  next
    case 2
    then have "addressed cmd = Some (n, i)" "ans = Pending"
      by (auto simp: event_at_def split: option.splits if_splits) (cases ans; simp split: if_splits)+
    then show ?thesis using pending_validated assms(3) by simp
  qed
qed

lemma run_waiters_valid: "coordinator_ok c \<Longrightarrow> waiters_valid (cc_state c) \<Longrightarrow> waiters_valid (cc_state (critical_run cmds c))"
proof (induction cmds arbitrary: c)
  case (Cons cmd cmds)
  obtain ans c' where s: "critical_step cmd c = (ans, c')" by fastforce
  then have "coordinator_ok c'" using step_fair [OF Cons.prems(1), of cmd] by (simp add: steps_fairly_def)
  then show ?case using Cons.IH [of c'] step_waiters_valid [OF Cons.prems s] s by simp
qed simp

section \<open>Properties\<close>

text \<open>C24: Critical sections are exclusive and fair. In every run of the coordinator, over any sequence of
  acquisitions, polls, releases, cancellations and generation changes, each operation is exactly one
  step of a lock with one holder and a first-come first-served queue, as its answer announces, and no
  step of any other lock. A refused operation changes nothing, and the internal accounting never fails.\<close>

theorem critical_sections_fair:
  fixes cmds mh mw
  defines "c \<equiv> critical_run cmds (critical_with_limits mh mw)"
  shows "coordinator_ok c \<and> fair_step cmd (fst (critical_step cmd c)) c (snd (critical_step cmd c))"
  using run_ok [OF new_ok] step_fair [of c cmd] by (simp add: c_def steps_fairly_def split_def)

lemma available_all:
  assumes "length (filter (\<lambda>(name, q). q \<noteq> [] \<and> bm_get (cs_held st) name = None) (cs_waiters st)) + length (cs_held st) \<le> mh"
    and "bm_ok (cs_waiters st)" and "bm_get (cs_waiters st) n = Some (w # q)" and "bm_get (cs_held st) n = None"
  shows "cw_waker w \<in> set (available_waiter_wakers st mh)"
proof -
  have "(n, w # q) \<in> set (filter (\<lambda>(name, q). q \<noteq> [] \<and> bm_get (cs_held st) name = None) (cs_waiters st))"
    using assms(2-4) by (simp add: bm_entry)
  then have "cw_waker w \<in> (\<lambda>(name, q). cw_waker (hd q)) ` set (filter (\<lambda>(name, q). q \<noteq> [] \<and> bm_get (cs_held st) name = None) (cs_waiters st))"
    by force
  then show ?thesis using assms(1) by (simp add: available_waiter_wakers_def)
qed


definition eligible :: "critical_state \<Rightarrow> (string \<times> critical_waiter list) list" where
  "eligible st = filter (\<lambda>(name, q). q \<noteq> [] \<and> bm_get (cs_held st) name = None) (cs_waiters st)"

lemma front_admitted:
  assumes "coordinator_ok c" and "waiters_valid (cc_state c)" and "bm_get (cs_waiters (cc_state c)) n = Some (w # q)"
    and "bm_get (cs_held (cc_state c)) n = None" and "length (cs_held (cc_state c)) < cc_max_held c"
    and "cs_wait_generation (cc_state c) < u64_max"
  shows "fst (poll_acquire n (cw_owner w) wk c) = PollReady (Ok ()) \<and>
    holder (cc_state (snd (poll_acquire n (cw_owner w) wk c))) n = Some (cw_owner w)"
proof -
  let ?g = "cs_generation (cc_state c)"
  have ok: "critical_ok (cc_max_held c) (cc_max_waiters c) (cc_state c)" by (rule coordinator_okD [OF assms(1)])
  have "validated n (cw_owner w) = Ok ()" using assms(2,3) by (simp add: waiters_valid_def queue_def)
  then have p: "poll_acquire n (cw_owner w) wk c =
      locked (poll_acquire_locked n (cw_owner w) ?g wk (cc_max_held c) (cc_max_waiters c)) c"
    by (simp add: poll_acquire_def poll_acquire_generation_def validate_generation_def)
  have front: "is_front (cc_state c) n (cw_owner w) ?g"
    using ok_queue_of [OF ok assms(3)] assms(3) by (simp add: is_front_def is_waiter_def queue_ok_def)
  obtain r st' where e: "admit n (cw_owner w) ?g (cc_state c) = (r, st')" by fastforce
  have l: "poll_acquire_locked n (cw_owner w) ?g wk (cc_max_held c) (cc_max_waiters c) (cc_state c) = (PollReady r, st')"
    using assms(4,5) front e by (simp add: poll_acquire_locked_def)
  have "cs_waiter_count (cc_state c) \<noteq> 0" using no_waiters [OF ok] assms(3) by (metis bm_get_code(1) option.distinct(1))
  then have "r = Ok ()" using e assms(3,6)
    by (cases "cc_state c" rule: bump_wait_generation_cases) (auto simp: admit_def)
  then have "lock_step (Grant (cw_owner w)) (lock (cc_state c) n) (lock st' n)"
    using admit_effect [OF ok assms(4) front assms(5) e] by simp
  then have "holder st' n = Some (cw_owner w)" by (auto simp: lock_def elim: lock_step.cases)
  then show ?thesis using \<open>r = Ok ()\<close> by (simp add: p locked_def l)
qed

text \<open>C25: A released lock is handed over. When a release succeeds and the bound on held locks has room for
  every free lock with waiters, the release calls the waker of the first waiter of each of them, and the
  poll of that waiter acquires the lock at once.\<close>

theorem release_hands_over:
  assumes "critical_release name i (critical_run cmds (critical_with_limits mh mw)) = (Ok (), c)"
    and "length (eligible (cc_state c)) + length (cs_held (cc_state c)) \<le> cc_max_held c"
    and "(n, w # q) \<in> set (eligible (cc_state c))" and "cs_wait_generation (cc_state c) < u64_max"
  shows "\<exists>wks. cc_woken c = cc_woken (critical_run cmds (critical_with_limits mh mw)) @ wks \<and> cw_waker w \<in> set wks \<and>
    fst (poll_acquire n (cw_owner w) wk c) = PollReady (Ok ()) \<and>
    holder (cc_state (snd (poll_acquire n (cw_owner w) wk c))) n = Some (cw_owner w)"
proof -
  let ?c = "critical_run cmds (critical_with_limits mh mw)"
  have ok: "coordinator_ok ?c" by (rule run_ok [OF new_ok])
  have s: "critical_step (Release name i) ?c = (Released, c)" using assms(1) by (simp add: answer_def)
  have ok': "coordinator_ok c" using step_fair [OF ok, of "Release name i"] s by (simp add: steps_fairly_def)
  have "waiters_valid (cc_state (critical_with_limits mh mw))"
    by (simp add: waiters_valid_def queue_def critical_with_limits_def critical_state_default_def)
  then have v: "waiters_valid (cc_state c)" using step_waiters_valid [OF ok _ s] run_waiters_valid [OF new_ok] by simp
  have free: "bm_get (cs_held (cc_state c)) n = None" and wait: "bm_get (cs_waiters (cc_state c)) n = Some (w # q)"
    using assms(3) coordinator_okD [OF ok'] bm_entry [of "cs_waiters (cc_state c)" n "w # q"]
    by (auto simp: eligible_def critical_ok_def)
  have "eligible (cc_state c) \<noteq> []" using assms(3) by auto
  then have "length (cs_held (cc_state c)) < cc_max_held c" using assms(2) by (cases "eligible (cc_state c)") simp_all
  note front = front_admitted [OF ok' v wait free this assms(4), of wk]
  have "cc_max_held c = cc_max_held ?c" using step_fair [OF ok, of "Release name i"] s by (simp add: steps_fairly_def)
  then have w: "cc_woken c = cc_woken ?c @ available_waiter_wakers (cc_state c) (cc_max_held c)"
    using assms(1) by (auto simp: critical_release_def locked_def wake_all_of_def split: sum.splits prod.splits)
  moreover have "cw_waker w \<in> set (available_waiter_wakers (cc_state c) (cc_max_held c))"
    using available_all [of "cc_state c" "cc_max_held c" n w q] assms(2) free wait coordinator_okD [OF ok']
    by (simp add: eligible_def critical_ok_def)
  ultimately show ?thesis using front by blast
qed

lemmas run_eval = critical_with_limits_def critical_state_default_def generation_initial_def answer_def try_acquire_def
  try_acquire_locked_def validated_def validate_lock_name_def validate_owner_def validate_generation_def locked_def has_waiters_def
  hold_def poll_acquire_generation_def poll_acquire_locked_def is_front_def is_waiter_def refresh_waker_def enqueue_def
  bump_wait_generation_def bump_generation_def generation_next_def generation_new_def critical_release_def release_locked_def
  release_generation_def and_then_def wake_all_of_def available_waiter_wakers_def cancel_acquire_generation_def
  cancel_waiter_locked_def set_queue_def next_waiter_waker_def bm_remove_def MAX_LOCK_NAME_BYTES_def MAX_HELD_LOCKS_def
  MAX_CRITICAL_WAITERS_def u64_max_def usize_max_def checked_add_def checked_sub_def Let_def

theorem release_hands_over_witness:
  "fst (poll_acquire ''A'' 2 7 (snd (critical_release ''A'' 1
      (critical_run [TryAcquire ''A'' 1, PollIn ''A'' 2 1 7] (critical_with_limits 1 1))))) = PollReady (Ok ())"
proof -
  let ?cmds = "[TryAcquire ''A'' 1, PollIn ''A'' 2 1 7]"
  obtain c where c: "critical_release ''A'' 1 (critical_run ?cmds (critical_with_limits 1 1)) = (Ok (), c)"
      "cs_held (cc_state c) = []" "cs_waiters (cc_state c) = [(''A'', [\<lparr>cw_owner = 2, cw_generation = 1, cw_waker = 7\<rparr>])]"
      "cc_max_held c = 1" "cs_wait_generation (cc_state c) = 3"
    by (simp add: run_eval)
  then show ?thesis
    using release_hands_over [OF c(1), of "''A''" "\<lparr>cw_owner = 2, cw_generation = 1, cw_waker = 7\<rparr>" "[]" 7]
    by (auto simp: eligible_def u64_max_def)
qed


end
