(* ===== verification/Throughput_Pacing.thy ===== *)
theory Throughput_Pacing
  imports Critical_Section "HOL-Library.AList"
begin

text \<open>
  The throughput coordinator of \<open>crates/runtime/src/coordination.rs\<close>: reservations of sampling instants,
  with one cursor per run or thread group in the shared modes and one per participant in the others.

  Iteration orders are not observable here, so the maps of the source are association lists and its sets
  are lists without repetition. Durations are nanoseconds.
\<close>

section \<open>Errors and requests\<close>

datatype component_error =
    ComponentFailure string
  | ComponentUnsupported string
  | ComponentControl control_signal
  | ComponentResourceLimit string
  | ComponentPoisoned string
  | ComponentCombined component_error component_error

datatype throughput_mode =
    ThisThreadOnly
  | AllActiveThreads
  | AllActiveThreadsInCurrentThreadGroup
  | AllActiveThreadsShared
  | AllActiveThreadsInCurrentThreadGroupShared

fun jmeter_name :: "throughput_mode \<Rightarrow> string" where
  "jmeter_name ThisThreadOnly = ''ThisThreadOnly''"
| "jmeter_name AllActiveThreads = ''AllActiveThreads''"
| "jmeter_name AllActiveThreadsInCurrentThreadGroup = ''AllActiveThreadsInCurrentThreadGroup''"
| "jmeter_name AllActiveThreadsShared = ''AllActiveThreads_Shared''"
| "jmeter_name AllActiveThreadsInCurrentThreadGroupShared = ''AllActiveThreadsInCurrentThreadGroup_Shared''"

record throughput_request =
  tr_mode :: throughput_mode
  tr_period :: duration
  tr_now :: duration
  tr_thread_name :: string
  tr_thread_group :: "string option"
  tr_thread_number :: "u64 option"
  tr_lifecycle_id :: "u64 option"

section \<open>Periods\<close>








section \<open>State\<close>

datatype throughput_scope = GlobalScope | GroupScope string

record throughput_participant =
  tp_scope :: throughput_scope
  tp_mode :: string
  tp_group :: "string option"
  tp_name :: string
  tp_number :: "u64 option"
  tp_lifecycle_id :: "u64 option"



record throughput_state =
  ts_generation :: coordination_generation
  ts_next_shared :: "(throughput_scope \<times> duration) list"
  ts_next_per_user :: "(throughput_participant \<times> duration) list"
  ts_active_modes :: "throughput_participant list"


record throughput_coordinator =
  tc_state :: throughput_state
  tc_max_participants :: usize
  tc_max_scopes :: usize

definition MAX_THROUGHPUT_PARTICIPANT_BYTES :: usize where
  "MAX_THROUGHPUT_PARTICIPANT_BYTES = 4096"




section \<open>Reservations\<close>

definition bad_text :: "string \<Rightarrow> bool" where
  "bad_text s \<longleftrightarrow> s = [] \<or> MAX_THROUGHPUT_PARTICIPANT_BYTES < length s"

definition is_some_and :: "('a \<Rightarrow> bool) \<Rightarrow> 'a option \<Rightarrow> bool" where
  "is_some_and P v = (case v of None \<Rightarrow> False | Some x \<Rightarrow> P x)"

definition validate_throughput_request :: "throughput_request \<Rightarrow> (component_error, unit) result" where
  "validate_throughput_request rq =
     (if bad_text (tr_thread_name rq) \<or> is_some_and bad_text (tr_thread_group rq) \<or>
         is_some_and (\<lambda>n. n = 0) (tr_thread_number rq) \<or> is_some_and (\<lambda>i. i = 0) (tr_lifecycle_id rq)
      then Err (ComponentFailure ''throughput participant identity'') else Ok ())"

definition scope_of :: "throughput_request \<Rightarrow> (component_error, throughput_scope) result" where
  "scope_of rq =
     (if tr_mode rq \<in> {AllActiveThreadsInCurrentThreadGroup, AllActiveThreadsInCurrentThreadGroupShared} then
        (case tr_thread_group rq of
           None \<Rightarrow> Err (ComponentUnsupported ''thread-group throughput mode requires a thread-group identity'')
         | Some g \<Rightarrow> Ok (GroupScope g))
      else Ok GlobalScope)"

definition participant_of :: "throughput_scope \<Rightarrow> throughput_request \<Rightarrow> throughput_participant" where
  "participant_of scope rq =
     \<lparr>tp_scope = scope, tp_mode = jmeter_name (tr_mode rq), tp_group = tr_thread_group rq, tp_name = tr_thread_name rq,
      tp_number = tr_thread_number rq, tp_lifecycle_id = tr_lifecycle_id rq\<rparr>"

definition throughput_identity_of :: "throughput_request \<Rightarrow> (component_error, throughput_scope \<times> throughput_participant) result" where
  "throughput_identity_of rq =
     (case validate_throughput_request rq of
        Err e \<Rightarrow> Err e
      | Ok _ \<Rightarrow> (case scope_of rq of Err e \<Rightarrow> Err e | Ok scope \<Rightarrow> Ok (scope, participant_of scope rq)))"








section \<open>The coordinator\<close>

fun decimal :: "nat \<Rightarrow> string" where
  "decimal n = (if n < 10 then [char_of (48 + n)] else decimal (n div 10) @ [char_of (48 + n mod 10)])"

declare decimal.simps [simp del]

definition stale_throughput :: "coordination_generation \<Rightarrow> coordination_generation \<Rightarrow> component_error" where
  "stale_throughput expected got =
     ComponentFailure (''throughput stale generation: expected '' @ decimal expected @ '', got '' @ decimal got)"

definition throughput_advance :: "throughput_coordinator \<Rightarrow> (component_error, coordination_generation) result \<times> throughput_coordinator" where
  "throughput_advance c =
     (case generation_next (ts_generation (tc_state c)) of
        None \<Rightarrow> (Err (ComponentResourceLimit ''throughput generation''), c)
      | Some g \<Rightarrow>
          (Ok g, c\<lparr>tc_state := (tc_state c)\<lparr>ts_generation := g, ts_next_shared := [], ts_next_per_user := [], ts_active_modes := []\<rparr>\<rparr>))"


definition throughput_cancel_generation ::
  "throughput_request \<Rightarrow> coordination_generation \<Rightarrow> throughput_coordinator \<Rightarrow> (component_error, bool) result \<times> throughput_coordinator" where
  "throughput_cancel_generation rq g c =
     (if ts_generation (tc_state c) \<noteq> g then (Err (stale_throughput (ts_generation (tc_state c)) g), c)
      else case throughput_identity_of rq of
          Err e \<Rightarrow> (Err e, c)
        | Ok (_, p) \<Rightarrow>
            let st = tc_state c
            in (Ok (map_of (ts_next_per_user st) p \<noteq> None \<or> p \<in> set (ts_active_modes st)),
                c\<lparr>tc_state := st\<lparr>ts_next_per_user := AList.delete p (ts_next_per_user st),
                                 ts_active_modes := remove1 p (ts_active_modes st)\<rparr>\<rparr>))"


definition throughput_cancel :: "throughput_request \<Rightarrow> throughput_coordinator \<Rightarrow> (component_error, bool) result \<times> throughput_coordinator" where
  "throughput_cancel rq c = throughput_cancel_generation rq (ts_generation (tc_state c)) c"

section \<open>Rounding\<close>


section \<open>Pacing\<close>




text \<open>The cursor of a scope only moves forward, by reservations of its own scope.\<close>

definition ahead :: "duration option \<Rightarrow> duration option \<Rightarrow> bool" where
  "ahead a b \<longleftrightarrow> (case a of None \<Rightarrow> True | Some d \<Rightarrow> (case b of None \<Rightarrow> False | Some e \<Rightarrow> d \<le> e))"

lemma ahead_refl [simp]: "ahead a a"
  by (simp add: ahead_def split: option.splits)














end
