(* ===== verification/Barrier_Timer.thy ===== *)
theory Barrier_Timer
  imports Throughput_Pacing
begin

text \<open>
  The synchronizing coordinator of \<open>crates/runtime/src/coordination.rs\<close>: barriers at which a group of
  virtual users waits until it is complete or its deadline passes.

  The arrivals of a slot are a sorted map, because wakers are called in the order of the participants;
  the other maps and sets are association lists and lists without repetition. The wakers called by the
  coordinator are appended to a log.
\<close>

section \<open>Requests and state\<close>

datatype sync_outcome = BarrierReleased | BarrierTimedOut

text \<open>A missing group size is the sentinel for the size of the current thread group.\<close>

record sync_request =
  sr_name :: string
  sr_group_size :: "usize option"
  sr_timeout :: duration
  sr_now :: duration
  sr_participant :: string
  sr_thread_name :: string
  sr_thread_group :: "string option"
  sr_thread_number :: "u64 option"
  sr_lifecycle_id :: "u64 option"

type_synonym barrier_key = "string \<times> string option"

record barrier_slot =
  bs_generation :: coordination_generation
  bs_expected :: usize
  bs_deadline :: "duration option"
  bs_arrivals :: "(string, waker) btree_map"
  bs_retired :: "string list"
  bs_outcome :: "sync_outcome option"

record barrier_state =
  br_slots :: "(barrier_key \<times> barrier_slot) list"
  br_next_generation :: "(barrier_key \<times> coordination_generation) list"
  br_generation_overflow :: "barrier_key list"
  br_group_sizes :: "(string \<times> usize) list"
  br_leases :: "((barrier_key \<times> string) \<times> coordination_generation) list"
  br_participant_count :: usize
  br_wait_generation :: coordination_generation
  br_wait_generation_overflow :: bool

definition barrier_state_default :: barrier_state where
  "barrier_state_default =
     \<lparr>br_slots = [], br_next_generation = [], br_generation_overflow = [], br_group_sizes = [], br_leases = [],
      br_participant_count = 0, br_wait_generation = generation_initial, br_wait_generation_overflow = False\<rparr>"

record barrier_coordinator =
  bc_state :: barrier_state
  bc_max_slots :: usize
  bc_max_participants :: usize
  bc_woken :: "waker list"

definition MAX_BARRIER_TEXT_BYTES :: usize where
  "MAX_BARRIER_TEXT_BYTES = 4096"

definition MAX_BARRIER_PARTICIPANTS :: usize where
  "MAX_BARRIER_PARTICIPANTS = 65536"

definition MAX_BARRIER_SLOTS :: usize where
  "MAX_BARRIER_SLOTS = 65536"

definition barrier_with_limits :: "usize \<Rightarrow> usize \<Rightarrow> barrier_coordinator" where
  "barrier_with_limits max_slots max_participants =
     \<lparr>bc_state = barrier_state_default, bc_max_slots = min max_slots MAX_BARRIER_SLOTS,
      bc_max_participants = min max_participants MAX_BARRIER_PARTICIPANTS, bc_woken = []\<rparr>"

definition slot_of :: "barrier_state \<Rightarrow> barrier_key \<Rightarrow> barrier_slot option" where
  "slot_of st key = map_of (br_slots st) key"

definition set_slot :: "barrier_key \<Rightarrow> barrier_slot \<Rightarrow> barrier_state \<Rightarrow> barrier_state" where
  "set_slot key slot st = st\<lparr>br_slots := AList.update key slot (br_slots st)\<rparr>"

section \<open>Groups, keys and sizes\<close>

definition bad_name :: "string \<Rightarrow> bool" where
  "bad_name s \<longleftrightarrow> s = [] \<or> MAX_BARRIER_TEXT_BYTES < length s"

definition register_thread_group :: "string \<Rightarrow> usize \<Rightarrow> barrier_coordinator \<Rightarrow> (component_error, unit) result \<times> barrier_coordinator" where
  "register_thread_group grp n c =
     (if bad_name grp then (Err (ComponentFailure ''synchronizing thread-group identity''), c)
      else if bc_max_participants c < n then (Err (ComponentResourceLimit ''synchronizing participant capacity''), c)
      else if map_of (br_group_sizes (bc_state c)) grp = None \<and> bc_max_slots c \<le> length (br_group_sizes (bc_state c))
      then (Err (ComponentResourceLimit ''synchronizing thread-group capacity''), c)
      else (Ok (), c\<lparr>bc_state := (bc_state c)\<lparr>br_group_sizes := AList.update grp n (br_group_sizes (bc_state c))\<rparr>\<rparr>))"

definition unregister_thread_group :: "string \<Rightarrow> barrier_coordinator \<Rightarrow> bool \<times> barrier_coordinator" where
  "unregister_thread_group grp c =
     (map_of (br_group_sizes (bc_state c)) grp \<noteq> None,
      c\<lparr>bc_state := (bc_state c)\<lparr>br_group_sizes := AList.delete grp (br_group_sizes (bc_state c))\<rparr>\<rparr>)"

definition barrier_generation :: "string \<Rightarrow> string option \<Rightarrow> barrier_coordinator \<Rightarrow> coordination_generation option" where
  "barrier_generation name grp c =
     (case slot_of (bc_state c) (name, grp) of
        Some slot \<Rightarrow> Some (bs_generation slot)
      | None \<Rightarrow> map_of (br_next_generation (bc_state c)) (name, grp))"

definition key_for :: "sync_request \<Rightarrow> (component_error, barrier_key) result" where
  "key_for rq =
     (if bad_name (sr_name rq) then Err (ComponentFailure ''invalid synchronizing barrier name'')
      else if bad_name (sr_participant rq) \<or> is_some_and (\<lambda>n. n = 0) (sr_thread_number rq) \<or>
              is_some_and (\<lambda>i. i = 0) (sr_lifecycle_id rq)
      then Err (ComponentFailure ''invalid synchronizing participant identity'')
      else if sr_group_size rq = None then
        (case sr_thread_group rq of
           None \<Rightarrow> Err (ComponentUnsupported ''current-thread-group barrier requires a thread-group identity'')
         | Some g \<Rightarrow>
             if bad_name g then Err (ComponentFailure ''invalid synchronizing thread-group identity'')
             else Ok (sr_name rq, Some g))
      else Ok (sr_name rq, None))"

definition expected_size :: "barrier_state \<Rightarrow> sync_request \<Rightarrow> (component_error, usize) result" where
  "expected_size st rq =
     (case (case sr_group_size rq of
              Some n \<Rightarrow> Ok n
            | None \<Rightarrow> ok_or (Option.bind (sr_thread_group rq) (map_of (br_group_sizes st)))
                (ComponentUnsupported ''current-thread-group barrier requires a registered participant count'')) of
        Err e \<Rightarrow> Err e
      | Ok n \<Rightarrow>
          if n = 0 \<or> MAX_BARRIER_PARTICIPANTS < n then Err (ComponentResourceLimit ''synchronizing participant capacity'')
          else Ok n)"

definition barrier_wait_snapshot :: "barrier_coordinator \<Rightarrow> coordination_generation \<times> usize \<times> duration option" where
  "barrier_wait_snapshot c =
     (let slots = filter (\<lambda>s. bs_outcome s = None) (map snd (br_slots (bc_state c)));
          deadlines = concat (map (\<lambda>s. case bs_deadline s of None \<Rightarrow> [] | Some d \<Rightarrow> [d]) slots)
      in (br_wait_generation (bc_state c), sum_list (map (length \<circ> bs_arrivals) slots),
          if deadlines = [] then None else Some (Min (set deadlines))))"

section \<open>Arrival\<close>

type_synonym 'a barrier_op = "(barrier_state, component_error, 'a) routine"

definition bump_barrier_wait_generation :: "unit barrier_op" where
  "bump_barrier_wait_generation st =
     (case bump_generation (br_wait_generation st) of (bumped, g) \<Rightarrow>
        if bumped then (Ok (), st\<lparr>br_wait_generation := g\<rparr>)
        else (Err (ComponentResourceLimit ''synchronizing barrier wait generation''), st\<lparr>br_wait_generation_overflow := True\<rparr>))"

definition advance_barrier_generation :: "barrier_key \<Rightarrow> unit barrier_op" where
  "advance_barrier_generation key st =
     (case map_of (br_next_generation st) key of
        None \<Rightarrow> (Err (ComponentFailure ''synchronizing barrier generation accounting invariant''), st)
      | Some current \<Rightarrow>
          (case generation_next current of
             None \<Rightarrow> (Err (ComponentResourceLimit ''synchronizing barrier generation''),
                      st\<lparr>br_generation_overflow := List.insert key (br_generation_overflow st)\<rparr>)
           | Some g \<Rightarrow> (Ok (), st\<lparr>br_next_generation := AList.update key g (br_next_generation st)\<rparr>)))"

text \<open>
  The answer of an arrival that is not refused: the outcome, or \<open>None\<close> for \<open>Poll::Pending\<close>, and the wakers
  that are called after the mutex is released.
\<close>

type_synonym arrival = "sync_outcome option \<times> waker list"

definition slot_missing :: component_error where
  "slot_missing = ComponentFailure ''synchronizing barrier slot missing''"

definition lease_accounting :: component_error where
  "lease_accounting = ComponentFailure ''synchronizing participant lease accounting invariant''"

definition participant_accounting :: component_error where
  "participant_accounting = ComponentFailure ''synchronizing barrier participant accounting invariant''"

definition with_slot :: "barrier_key \<Rightarrow> (barrier_slot \<Rightarrow> 'a barrier_op) \<Rightarrow> 'a barrier_op" where
  "with_slot key f = reading (\<lambda>st. case slot_of st key of None \<Rightarrow> return_err slot_missing | Some slot \<Rightarrow> f slot)"

definition time_out :: "barrier_key \<Rightarrow> arrival barrier_op" where
  "time_out key = with_slot key (\<lambda>slot.
     and_then (modify (set_slot key (slot\<lparr>bs_outcome := Some BarrierTimedOut\<rparr>))) (\<lambda>_.
     return_ok (Some BarrierTimedOut, map snd (bs_arrivals slot))))"

definition arrive_again :: "barrier_key \<Rightarrow> string \<Rightarrow> waker \<Rightarrow> bool \<Rightarrow> arrival barrier_op" where
  "arrive_again key participant wk expired = reading (\<lambda>st.
     if expired \<and> is_some_and (\<lambda>s. bs_outcome s = None) (slot_of st key) then
       and_then bump_barrier_wait_generation (\<lambda>_. time_out key)
     else case Option.bind (slot_of st key) bs_outcome of
         Some outcome \<Rightarrow> return_ok (Some outcome, [])
       | None \<Rightarrow> with_slot key (\<lambda>slot.
           if bm_get (bs_arrivals slot) participant = None then return_err lease_accounting
           else and_then (modify (set_slot key (slot\<lparr>bs_arrivals := bm_insert participant wk (bs_arrivals slot)\<rparr>))) (\<lambda>_.
             return_ok (None, []))))"

definition join_closed :: "barrier_key \<Rightarrow> string \<Rightarrow> sync_outcome \<Rightarrow> usize \<Rightarrow> arrival barrier_op" where
  "join_closed key participant outcome max_participants =
     (if outcome \<noteq> BarrierTimedOut then return_err (ComponentFailure ''synchronizing barrier generation is closed'')
      else reading (\<lambda>st.
        if is_some_and (\<lambda>s. participant \<in> set (bs_retired s)) (slot_of st key)
        then return_err (ComponentFailure ''synchronizing participant was canceled for the current generation'')
        else with_slot key (\<lambda>slot.
          if max_participants \<le> length (bs_retired slot) then return_err (ComponentResourceLimit ''synchronizing participant capacity'')
          else and_then bump_barrier_wait_generation (\<lambda>_. with_slot key (\<lambda>slot.
            and_then (modify (set_slot key (slot\<lparr>bs_retired := List.insert participant (bs_retired slot)\<rparr>))) (\<lambda>_.
            return_ok (Some outcome, [])))))))"

definition add_lease :: "barrier_key \<Rightarrow> string \<Rightarrow> coordination_generation \<Rightarrow> unit barrier_op" where
  "add_lease key participant g =
     and_then (modify (\<lambda>st. st\<lparr>br_leases := AList.update (key, participant) g (br_leases st)\<rparr>)) (\<lambda>_.
     reading (\<lambda>st.
       case checked_add usize_max (br_participant_count st) 1 of
         None \<Rightarrow> return_err participant_accounting
       | Some n \<Rightarrow> modify (\<lambda>st. st\<lparr>br_participant_count := n\<rparr>)))"

definition join_expired :: "barrier_key \<Rightarrow> string \<Rightarrow> coordination_generation \<Rightarrow> arrival barrier_op" where
  "join_expired key participant g =
     and_then bump_barrier_wait_generation (\<lambda>_. and_then (add_lease key participant g) (\<lambda>_. time_out key))"

definition open_slot :: "barrier_key \<Rightarrow> coordination_generation \<Rightarrow> usize \<Rightarrow> duration option \<Rightarrow> unit barrier_op" where
  "open_slot key g expected deadline = reading (\<lambda>st.
     if slot_of st key = None then
       modify (set_slot key \<lparr>bs_generation = g, bs_expected = expected, bs_deadline = deadline, bs_arrivals = [], bs_retired = [],
         bs_outcome = None\<rparr>)
     else return_ok ())"

definition join_open ::
  "barrier_key \<Rightarrow> string \<Rightarrow> waker \<Rightarrow> coordination_generation \<Rightarrow> usize \<Rightarrow> duration option \<Rightarrow> arrival barrier_op" where
  "join_open key participant wk g expected deadline =
     and_then bump_barrier_wait_generation (\<lambda>_.
     and_then (open_slot key g expected deadline) (\<lambda>_.
     and_then (add_lease key participant g) (\<lambda>_.
     with_slot key (\<lambda>slot.
       let arrivals = bm_insert participant wk (bs_arrivals slot)
       in if bs_expected slot \<le> length arrivals then
            and_then (modify (set_slot key (slot\<lparr>bs_arrivals := arrivals, bs_outcome := Some BarrierReleased\<rparr>))) (\<lambda>_.
            return_ok (Some BarrierReleased, map snd arrivals))
          else
            and_then (modify (set_slot key (slot\<lparr>bs_arrivals := arrivals\<rparr>))) (\<lambda>_. return_ok (None, []))))))"

definition claim_generation :: "barrier_key \<Rightarrow> coordination_generation barrier_op" where
  "claim_generation key = reading (\<lambda>st.
     case map_of (br_next_generation st) key of
       Some g \<Rightarrow> return_ok g
     | None \<Rightarrow> and_then (modify (\<lambda>st. st\<lparr>br_next_generation := AList.update key generation_initial (br_next_generation st)\<rparr>)) (\<lambda>_.
         return_ok generation_initial))"

definition requested_deadline :: "sync_request \<Rightarrow> (component_error, duration option) result" where
  "requested_deadline rq =
     (if sr_timeout rq = 0 then Ok None
      else case checked_add DURATION_MAX (sr_now rq) (sr_timeout rq) of
          None \<Rightarrow> Err (ComponentResourceLimit ''synchronizing barrier deadline'')
        | Some d \<Rightarrow> Ok (Some d))"

definition slot_expired :: "barrier_state \<Rightarrow> barrier_key \<Rightarrow> duration \<Rightarrow> bool" where
  "slot_expired st key now = is_some_and (\<lambda>s. is_some_and (\<lambda>d. d \<le> now) (bs_deadline s)) (slot_of st key)"

definition arrive ::
  "sync_request \<Rightarrow> waker \<Rightarrow> usize \<Rightarrow> barrier_key \<Rightarrow> usize \<Rightarrow> coordination_generation \<Rightarrow> duration option \<Rightarrow> arrival barrier_op" where
  "arrive rq wk max_participants key expected g deadline = reading (\<lambda>st.
     let lease = map_of (br_leases st) (key, sr_participant rq)
     in if is_some_and (\<lambda>s. bs_expected s \<noteq> expected) (slot_of st key)
        then return_err (ComponentFailure ''synchronizing barrier participant count changed within a generation'')
        else if is_some_and (\<lambda>l. l \<noteq> g) lease
        then return_err (ComponentFailure ''synchronizing participant reused before its prior arrival completed'')
        else if lease = None \<and> max_participants \<le> br_participant_count st
        then return_err (ComponentResourceLimit ''synchronizing participant capacity'')
        else if lease \<noteq> None then arrive_again key (sr_participant rq) wk (slot_expired st key (sr_now rq))
        else case Option.bind (slot_of st key) bs_outcome of
            Some outcome \<Rightarrow> join_closed key (sr_participant rq) outcome max_participants
          | None \<Rightarrow>
              if slot_expired st key (sr_now rq) then join_expired key (sr_participant rq) g
              else join_open key (sr_participant rq) wk g expected deadline)"

definition arrive_locked :: "sync_request \<Rightarrow> waker \<Rightarrow> usize \<Rightarrow> usize \<Rightarrow> barrier_key \<Rightarrow> arrival barrier_op" where
  "arrive_locked rq wk max_slots max_participants key = reading (\<lambda>st.
     if br_wait_generation_overflow st then return_err (ComponentResourceLimit ''synchronizing barrier wait generation'')
     else and_then (lift_result (expected_size st rq)) (\<lambda>expected.
       if max_participants < expected then return_err (ComponentResourceLimit ''synchronizing participant capacity'')
       else if slot_of st key = None \<and> (max_slots \<le> length (br_slots st) \<or>
            map_of (br_next_generation st) key = None \<and> max_slots \<le> length (br_next_generation st))
       then return_err (ComponentResourceLimit ''synchronizing barrier capacity'')
       else if key \<in> set (br_generation_overflow st) then return_err (ComponentResourceLimit ''synchronizing barrier generation'')
       else and_then (claim_generation key) (\<lambda>g.
         and_then (lift_result (requested_deadline rq)) (\<lambda>deadline.
         arrive rq wk max_participants key expected g deadline))))"

definition poll_arrival ::
  "sync_request \<Rightarrow> waker \<Rightarrow> barrier_coordinator \<Rightarrow> (component_error, sync_outcome) result poll_outcome \<times> barrier_coordinator" where
  "poll_arrival rq wk c =
     (case key_for rq of
        Err e \<Rightarrow> (PollReady (Err e), c)
      | Ok key \<Rightarrow>
          (case arrive_locked rq wk (bc_max_slots c) (bc_max_participants c) key (bc_state c) of
             (Err e, st) \<Rightarrow> (PollReady (Err e), c\<lparr>bc_state := st\<rparr>)
           | (Ok (answer, wks), st) \<Rightarrow>
               ((case answer of None \<Rightarrow> PollPending | Some outcome \<Rightarrow> PollReady (Ok outcome)),
                c\<lparr>bc_state := st, bc_woken := bc_woken c @ wks\<rparr>)))"

section \<open>Cancellation and completion\<close>

definition drop_participant :: "barrier_state \<Rightarrow> barrier_state" where
  "drop_participant st =
     (case checked_sub (br_participant_count st) 1 of
        Some n \<Rightarrow> st\<lparr>br_participant_count := n\<rparr>
      | None \<Rightarrow> st\<lparr>br_wait_generation_overflow := True\<rparr>)"

text \<open>\<open>state.wait_generation_overflow |= bump(...).is_err()\<close>.\<close>

definition bump_or_overflow :: "barrier_state \<Rightarrow> barrier_state" where
  "bump_or_overflow st =
     (case bump_barrier_wait_generation st of
        (Ok _, st') \<Rightarrow> st'
      | (Err _, st') \<Rightarrow> st'\<lparr>br_wait_generation_overflow := True\<rparr>)"

definition close_drained :: "barrier_key \<Rightarrow> barrier_state \<Rightarrow> barrier_state" where
  "close_drained key st =
     (if is_some_and (\<lambda>s. bs_arrivals s = []) (slot_of st key) \<and> key \<notin> set (map (fst \<circ> fst) (br_leases st)) then
        (case advance_barrier_generation key (st\<lparr>br_slots := AList.delete key (br_slots st)\<rparr>) of
           (Ok _, st') \<Rightarrow> st'
         | (Err _, st') \<Rightarrow> st'\<lparr>br_generation_overflow := List.insert key (br_generation_overflow st')\<rparr>)
      else st)"

definition cancel_locked :: "barrier_key \<Rightarrow> string \<Rightarrow> barrier_state \<Rightarrow> waker list \<times> barrier_state" where
  "cancel_locked key participant st =
     (case map_of (br_leases st) (key, participant) of
        None \<Rightarrow> ([], st)
      | Some lease \<Rightarrow>
          let st1 = st\<lparr>br_leases := AList.delete (key, participant) (br_leases st)\<rparr>
          in case slot_of st1 key of
               Some slot \<Rightarrow>
                 if bs_generation slot = lease \<and> bm_get (bs_arrivals slot) participant \<noteq> None then
                   let slot1 = slot\<lparr>bs_arrivals := bm_remove participant (bs_arrivals slot),
                                    bs_retired := List.insert participant (bs_retired slot)\<rparr>;
                       st2 = drop_participant (set_slot key slot1 st1)
                   in if bs_outcome slot = None then
                        (map snd (bs_arrivals slot1),
                         close_drained key (set_slot key (slot1\<lparr>bs_outcome := Some BarrierTimedOut\<rparr>) (bump_or_overflow st2)))
                      else ([], close_drained key st2)
                 else ([], close_drained key (drop_participant st1))
             | None \<Rightarrow> ([], close_drained key (drop_participant st1)))"

definition cancel_arrival :: "sync_request \<Rightarrow> barrier_coordinator \<Rightarrow> barrier_coordinator" where
  "cancel_arrival rq c =
     (case key_for rq of
        Err _ \<Rightarrow> c
      | Ok key \<Rightarrow>
          (case cancel_locked key (sr_participant rq) (bc_state c) of (wks, st) \<Rightarrow>
             c\<lparr>bc_state := st, bc_woken := bc_woken c @ wks\<rparr>))"

definition complete_locked :: "barrier_key \<Rightarrow> string \<Rightarrow> sync_outcome \<Rightarrow> barrier_state \<Rightarrow> barrier_state" where
  "complete_locked key participant outcome st =
     (case map_of (br_leases st) (key, participant) of
        None \<Rightarrow> st
      | Some lease \<Rightarrow>
          let st1 = drop_participant (bump_or_overflow (st\<lparr>br_leases := AList.delete (key, participant) (br_leases st)\<rparr>))
          in case slot_of st1 key of
               Some slot \<Rightarrow>
                 if bs_generation slot = lease then
                   let closing = (case bs_outcome slot of None \<Rightarrow> outcome | Some decided \<Rightarrow> decided);
                       slot1 = slot\<lparr>bs_outcome := Some closing, bs_arrivals := bm_remove participant (bs_arrivals slot),
                                    bs_retired := (if closing = BarrierTimedOut then List.insert participant (bs_retired slot) else bs_retired slot)\<rparr>
                   in close_drained key (set_slot key slot1 st1)
                 else close_drained key st1
             | None \<Rightarrow> close_drained key st1)"

definition complete_arrival :: "sync_request \<Rightarrow> sync_outcome \<Rightarrow> barrier_coordinator \<Rightarrow> barrier_coordinator" where
  "complete_arrival rq outcome c =
     (case key_for rq of
        Err _ \<Rightarrow> c
      | Ok key \<Rightarrow> c\<lparr>bc_state := complete_locked key (sr_participant rq) outcome (bc_state c)\<rparr>)"

end
