(* ===== verification/Barrier_Behaviour.thy ===== *)
theory Barrier_Behaviour
  imports Barrier_Timer
begin

text \<open>
  Properties of the synchronizing coordinator: the accounting of leases and arrivals is an invariant of
  all runs, and every answer of an arrival is explained by the slot of its barrier.
\<close>

declare split_paired_All [simp del] and split_paired_Ex [simp del]

section \<open>The invariant\<close>

definition lease_of :: "barrier_state \<Rightarrow> barrier_key \<Rightarrow> string \<Rightarrow> coordination_generation option" where
  "lease_of st key p = map_of (br_leases st) (key, p)"

definition slot_good :: "barrier_state \<Rightarrow> barrier_key \<Rightarrow> barrier_slot \<Rightarrow> bool" where
  "slot_good st key s \<longleftrightarrow> map_of (br_next_generation st) key = Some (bs_generation s) \<and> bm_ok (bs_arrivals s) \<and>
     (\<forall>p. bm_get (bs_arrivals s) p \<noteq> None \<longrightarrow> lease_of st key p = Some (bs_generation s)) \<and>
     (bs_outcome s = None \<longrightarrow> length (bs_arrivals s) < bs_expected s)"

definition lease_good :: "barrier_slot \<Rightarrow> string \<Rightarrow> coordination_generation \<Rightarrow> bool" where
  "lease_good s p g \<longleftrightarrow> bs_generation s = g \<and> (bs_outcome s = None \<longrightarrow> bm_get (bs_arrivals s) p \<noteq> None)"

definition barrier_ok :: "barrier_state \<Rightarrow> bool" where
  "barrier_ok st \<longleftrightarrow> distinct (map fst (br_leases st)) \<and> br_participant_count st = length (br_leases st) \<and>
     (\<forall>key s. slot_of st key = Some s \<longrightarrow> slot_good st key s) \<and>
     (\<forall>key p g. lease_of st key p = Some g \<longrightarrow> (\<exists>s. slot_of st key = Some s \<and> lease_good s p g))"

lemma length_update_new: "map_of m k = None \<Longrightarrow> length (AList.update k v m) = Suc (length m)"
  by (induction m) (auto split: if_splits)

lemma length_delete: "distinct (map fst m) \<Longrightarrow> map_of m k = Some v \<Longrightarrow> Suc (length (AList.delete k m)) = length m"
proof (induction m)
  case (Cons e m)
  show ?case
  proof (cases "fst e = k")
    case True
    then have "k \<notin> fst ` set m" using Cons.prems by auto
    then have "AList.delete k m = m" by (simp add: delete_idem)
    then show ?thesis using True by (cases e) simp
  next
    case False
    then show ?thesis using Cons by (cases e) auto
  qed
qed simp

lemma slot_set [simp]: "slot_of (set_slot key s st) k = (if k = key then Some s else slot_of st k)"
  by (simp add: slot_of_def set_slot_def update_conv')

lemma set_slot_fields [simp]:
  "br_leases (set_slot key s st) = br_leases st" "br_participant_count (set_slot key s st) = br_participant_count st"
  "br_next_generation (set_slot key s st) = br_next_generation st" "br_generation_overflow (set_slot key s st) = br_generation_overflow st"
  "br_wait_generation (set_slot key s st) = br_wait_generation st" "lease_of (set_slot key s st) = lease_of st"
  by (simp_all add: set_slot_def lease_of_def fun_eq_iff)

text \<open>Only four fields matter.\<close>

lemma barrier_ok_cong:
  "slot_of st' = slot_of st \<Longrightarrow> br_leases st' = br_leases st \<Longrightarrow> br_participant_count st' = br_participant_count st \<Longrightarrow>
    br_next_generation st' = br_next_generation st \<Longrightarrow> barrier_ok st' = barrier_ok st"
  by (simp add: barrier_ok_def slot_good_def lease_of_def)

lemma barrier_okI:
  assumes "distinct (map fst (br_leases st))" and "br_participant_count st = length (br_leases st)"
    and "\<And>key s. slot_of st key = Some s \<Longrightarrow> slot_good st key s"
    and "\<And>key p g. lease_of st key p = Some g \<Longrightarrow> \<exists>s. slot_of st key = Some s \<and> lease_good s p g"
  shows "barrier_ok st"
  using assms unfolding barrier_ok_def by blast

lemma slot_good_set [simp]: "slot_good (set_slot key s st) = slot_good st"
  by (simp add: slot_good_def fun_eq_iff)

lemma ok_slot: "barrier_ok st \<Longrightarrow> slot_of st key = Some s \<Longrightarrow> slot_good st key s"
  by (simp add: barrier_ok_def)

lemma ok_lease: "barrier_ok st \<Longrightarrow> lease_of st key p = Some g \<Longrightarrow> \<exists>s. slot_of st key = Some s \<and> lease_good s p g"
  by (simp add: barrier_ok_def)

lemma ok_set_slot:
  assumes "barrier_ok st" and "slot_good st key s" and "\<And>p g. lease_of st key p = Some g \<Longrightarrow> lease_good s p g"
  shows "barrier_ok (set_slot key s st)"
  using assms unfolding barrier_ok_def slot_good_def by simp

lemma ok_join:
  assumes "barrier_ok st" and "lease_of st key p = None"
    and "map_of (br_next_generation st) key = Some (bs_generation s)" and "bm_ok (bs_arrivals s)"
    and "\<And>q. bm_get (bs_arrivals s) q \<noteq> None \<Longrightarrow> q = p \<or> lease_of st key q = Some (bs_generation s)"
    and "bs_outcome s = None \<Longrightarrow> length (bs_arrivals s) < bs_expected s \<and> bm_get (bs_arrivals s) p \<noteq> None"
    and "\<And>q g. lease_of st key q = Some g \<Longrightarrow> lease_good s q g"
  shows "barrier_ok (set_slot key s (st\<lparr>br_leases := AList.update (key, p) (bs_generation s) (br_leases st), br_participant_count := Suc (br_participant_count st)\<rparr>))"
proof -
  let ?st = "st\<lparr>br_leases := AList.update (key, p) (bs_generation s) (br_leases st), br_participant_count := Suc (br_participant_count st)\<rparr>"
  have l: "lease_of ?st k q = (if k = key \<and> q = p then Some (bs_generation s) else lease_of st k q)" for k q
    by (simp add: lease_of_def update_conv')
  have s: "slot_of ?st k = slot_of st k" for k by (simp add: slot_of_def)
  have g: "slot_good ?st k x" if "slot_good st k x" "k \<noteq> key" for k x using that by (simp add: slot_good_def l)
  have "slot_good ?st key s" using assms(3-6) by (auto simp: slot_good_def l)
  note new = this
  show ?thesis
  proof (rule barrier_okI)
    show "distinct (map fst (br_leases (set_slot key s ?st)))" using assms(1) by (simp add: barrier_ok_def distinct_update)
    show "br_participant_count (set_slot key s ?st) = length (br_leases (set_slot key s ?st))"
      using assms(1,2) length_update_new [of "br_leases st" "(key, p)" "bs_generation s"] by (simp add: barrier_ok_def lease_of_def)
    show "slot_good (set_slot key s ?st) k x" if "slot_of (set_slot key s ?st) k = Some x" for k x
      using that new g ok_slot [OF assms(1)] s by (cases "k = key") simp_all
    show "\<exists>x. slot_of (set_slot key s ?st) k = Some x \<and> lease_good x q g" if "lease_of (set_slot key s ?st) k q = Some g" for k q g
    proof (cases "k = key")
      case True
      then show ?thesis using that assms(6,7) by (cases "q = p") (auto simp: l lease_good_def)
    next
      case False
      then show ?thesis using that ok_lease [OF assms(1), of k q g] by (simp add: l s)
    qed
  qed
qed

text \<open>A participant leaves: its lease and its arrival are removed.\<close>

lemma ok_leave:
  assumes "barrier_ok st" and "lease_of st key p = Some g" and "slot_of st key = Some x"
    and "bs_generation s = bs_generation x" and "bs_arrivals s = bm_remove p (bs_arrivals x)" and "bs_outcome s \<noteq> None" and "Suc n = br_participant_count st"
  shows "barrier_ok (set_slot key s (st\<lparr>br_leases := AList.delete (key, p) (br_leases st), br_participant_count := n\<rparr>))"
proof -
  let ?st = "st\<lparr>br_leases := AList.delete (key, p) (br_leases st), br_participant_count := n\<rparr>"
  have l: "lease_of ?st k q = (if k = key \<and> q = p then None else lease_of st k q)" for k q
    by (simp add: lease_of_def delete_conv')
  have s: "slot_of ?st k = slot_of st k" for k by (simp add: slot_of_def)
  have x: "slot_good st key x" by (rule ok_slot [OF assms(1,3)])
  have new: "slot_good ?st key s"
    using x assms(4-6) by (auto simp: slot_good_def l bm_ok_remove bm_get_remove)
  show ?thesis
  proof (rule barrier_okI)
    show "distinct (map fst (br_leases (set_slot key s ?st)))" using assms(1) by (simp add: barrier_ok_def distinct_delete)
    show "br_participant_count (set_slot key s ?st) = length (br_leases (set_slot key s ?st))"
      using assms(1,2,7) length_delete [of "br_leases st" "(key, p)" g] by (simp add: barrier_ok_def lease_of_def)
    show "slot_good (set_slot key s ?st) k y" if "slot_of (set_slot key s ?st) k = Some y" for k y
      using that new ok_slot [OF assms(1), of k] by (cases "k = key") (auto simp: s slot_good_def l)
    show "\<exists>y. slot_of (set_slot key s ?st) k = Some y \<and> lease_good y q h" if "lease_of (set_slot key s ?st) k q = Some h" for k q h
      using that ok_lease [OF assms(1), of k q h] assms(3,4,6) by (auto simp: l s lease_good_def split: if_splits)
  qed
qed

lemma ok_close_drained:
  assumes "barrier_ok st"
  shows "barrier_ok (close_drained key st)"
proof (cases "is_some_and (\<lambda>s. bs_arrivals s = []) (slot_of st key) \<and> key \<notin> set (map (fst \<circ> fst) (br_leases st))")
  case True
  have none: "lease_of st key p = None" for p
    using True by (force simp: lease_of_def map_of_eq_None_iff)
  have c: "br_slots (close_drained key st) = AList.delete key (br_slots st)" "br_leases (close_drained key st) = br_leases st"
    "br_participant_count (close_drained key st) = br_participant_count st"
    "k \<noteq> key \<Longrightarrow> map_of (br_next_generation (close_drained key st)) k = map_of (br_next_generation st) k" for k
    using True by (simp_all add: close_drained_def advance_barrier_generation_def update_conv' split: option.splits)
  have s: "slot_of (close_drained key st) k = (if k = key then None else slot_of st k)" for k
    by (simp add: c(1) slot_of_def delete_conv')
  have l: "lease_of (close_drained key st) = lease_of st" by (simp add: c(2) lease_of_def fun_eq_iff)
  show ?thesis
  proof (rule barrier_okI)
    show "slot_good (close_drained key st) k y" if "slot_of (close_drained key st) k = Some y" for k y
      using that ok_slot [OF assms, of k y] c(4) [of k] by (simp add: s slot_good_def l split: if_splits)
    show "\<exists>y. slot_of (close_drained key st) k = Some y \<and> lease_good y q h" if "lease_of (close_drained key st) k q = Some h" for k q h
      using that ok_lease [OF assms, of k q h] none by (auto simp: s l)
  qed (use assms in \<open>simp_all add: c barrier_ok_def\<close>)
next
  case False
  then have "close_drained key st = st" by (simp only: close_drained_def if_False)
  then show ?thesis using assms by simp
qed


lemma ok_irrelevant [simp]:
  "barrier_ok (st\<lparr>br_wait_generation := x\<rparr>) = barrier_ok st"
  "barrier_ok (st\<lparr>br_wait_generation_overflow := b\<rparr>) = barrier_ok st"
  "barrier_ok (st\<lparr>br_group_sizes := gs\<rparr>) = barrier_ok st"
  by (rule barrier_ok_cong; simp add: slot_of_def fun_eq_iff)+

lemma lookup_irrelevant [simp]:
  "slot_of (st\<lparr>br_wait_generation := x\<rparr>) = slot_of st" "lease_of (st\<lparr>br_wait_generation := x\<rparr>) = lease_of st"
  "slot_of (st\<lparr>br_next_generation := ng\<rparr>) = slot_of st" "lease_of (st\<lparr>br_next_generation := ng\<rparr>) = lease_of st"
  "slot_of (st\<lparr>br_leases := ls\<rparr>) = slot_of st" "slot_of (st\<lparr>br_participant_count := n\<rparr>) = slot_of st"
  "lease_of (st\<lparr>br_participant_count := n\<rparr>) = lease_of st" "lease_of (st\<lparr>br_slots := sl\<rparr>) = lease_of st"
  "slot_of (st\<lparr>br_wait_generation_overflow := b\<rparr>) = slot_of st" "lease_of (st\<lparr>br_wait_generation_overflow := b\<rparr>) = lease_of st"
  by (simp_all add: slot_of_def lease_of_def fun_eq_iff)

lemma bump_barrier_cases:
  obtains "bump_barrier_wait_generation st =
      (Err (ComponentResourceLimit ''synchronizing barrier wait generation''), st\<lparr>br_wait_generation_overflow := True\<rparr>)"
  | g where "bump_barrier_wait_generation st = (Ok (), st\<lparr>br_wait_generation := g\<rparr>)"
  by (cases "bump_generation (br_wait_generation st)"; cases "fst (bump_generation (br_wait_generation st))")
    (auto simp: bump_barrier_wait_generation_def)

section \<open>Arrivals\<close>

text \<open>The refusals that report broken accounting.\<close>

definition internal_errors :: "component_error set" where
  "internal_errors = {slot_missing, lease_accounting, participant_accounting,
     ComponentFailure ''synchronizing participant reused before its prior arrival completed''}"

definition outcome_at :: "barrier_state \<Rightarrow> barrier_key \<Rightarrow> sync_outcome option" where
  "outcome_at st key = Option.bind (slot_of st key) bs_outcome"

text \<open>
  What the answer to an arrival means. A pending participant is registered with its waker in a group that
  is not complete and not late. An outcome is the one already decided, or it is decided now and all registered wakers
  are called: the group is complete, or its deadline has passed.
\<close>

definition late :: "sync_request \<Rightarrow> barrier_slot \<Rightarrow> bool" where
  "late rq s = is_some_and (\<lambda>d. d \<le> sr_now rq) (bs_deadline s)"

definition decided :: "sync_request \<Rightarrow> waker \<Rightarrow> sync_outcome \<Rightarrow> barrier_slot \<Rightarrow> bool" where
  "decided rq wk outcome s \<longleftrightarrow>
     (case outcome of
        BarrierReleased \<Rightarrow> length (bs_arrivals s) = bs_expected s \<and> bm_get (bs_arrivals s) (sr_participant rq) = Some wk \<and> \<not> late rq s
      | BarrierTimedOut \<Rightarrow> late rq s)"

definition explained :: "sync_request \<Rightarrow> waker \<Rightarrow> barrier_key \<Rightarrow> barrier_state \<Rightarrow> (component_error, arrival) result \<Rightarrow> barrier_state \<Rightarrow> bool" where
  "explained rq wk key st r st' \<longleftrightarrow>
     (case r of
        Err e \<Rightarrow> e \<notin> internal_errors \<and> br_slots st' = br_slots st \<and> br_leases st' = br_leases st
      | Ok (None, wks) \<Rightarrow> wks = [] \<and> (\<exists>s. slot_of st' key = Some s \<and> bs_outcome s = None \<and>
          length (bs_arrivals s) < bs_expected s \<and> bm_get (bs_arrivals s) (sr_participant rq) = Some wk \<and> \<not> late rq s)
      | Ok (Some outcome, wks) \<Rightarrow>
          (outcome_at st key = Some outcome \<and> outcome_at st' key = Some outcome \<and> wks = []) \<or>
          (outcome_at st key = None \<and> (\<exists>s. slot_of st' key = Some s \<and> bs_outcome s = Some outcome \<and>
             wks = map snd (bs_arrivals s) \<and> decided rq wk outcome s)))"

lemma refused_explained: "e \<notin> internal_errors \<Longrightarrow> explained rq wk key st (Err e) st"
  by (simp add: explained_def)

lemma not_internal [simp]:
  "ComponentResourceLimit m \<notin> internal_errors" "ComponentUnsupported m \<notin> internal_errors"
  "ComponentFailure ''synchronizing barrier generation is closed'' \<notin> internal_errors"
  "ComponentFailure ''synchronizing participant was canceled for the current generation'' \<notin> internal_errors"
  "ComponentFailure ''synchronizing barrier participant count changed within a generation'' \<notin> internal_errors"
  by (simp_all add: internal_errors_def slot_missing_def lease_accounting_def participant_accounting_def)

lemma time_out_eq: "slot_of st key = Some s \<Longrightarrow>
    time_out key st = (Ok (Some BarrierTimedOut, map snd (bs_arrivals s)), set_slot key (s\<lparr>bs_outcome := Some BarrierTimedOut\<rparr>) st)"
  by (simp add: time_out_def with_slot_def and_then_def)

lemma ok_time_out:
  assumes "barrier_ok st" and "slot_of st key = Some s"
  shows "barrier_ok (set_slot key (s\<lparr>bs_outcome := Some BarrierTimedOut\<rparr>) st)"
proof (rule ok_set_slot [OF assms(1)])
  show "slot_good st key (s\<lparr>bs_outcome := Some BarrierTimedOut\<rparr>)" using ok_slot [OF assms] by (simp add: slot_good_def)
  show "lease_good (s\<lparr>bs_outcome := Some BarrierTimedOut\<rparr>) p g" if "lease_of st key p = Some g" for p g
    using ok_lease [OF assms(1) that] assms(2) by (simp add: lease_good_def)
qed

lemma length_bm_insert_old: "bm_ok m \<Longrightarrow> bm_get m k \<noteq> None \<Longrightarrow> length (bm_insert k v m) = length m"
  using bm_length [of m] bm_length [of "bm_insert k v m"]
  by (simp add: bm_ok_insert bm_get_insert dom_def) (metis (mono_tags, lifting) Collect_cong option.distinct(1))

lemma again_effect:
  assumes "barrier_ok st" and "lease_of st key (sr_participant rq) = Some g"
    and "arrive_again key (sr_participant rq) wk (slot_expired st key (sr_now rq)) st = (r, st')"
  shows "barrier_ok st' \<and> explained rq wk key st r st'"
proof -
  obtain s where s: "slot_of st key = Some s" "lease_good s (sr_participant rq) g" using ok_lease [OF assms(1,2)] by blast
  have good: "slot_good st key s" by (rule ok_slot [OF assms(1) s(1)])
  consider (late) "slot_expired st key (sr_now rq)" "bs_outcome s = None" | (over) outcome where "bs_outcome s = Some outcome"
    | (wait) "\<not> slot_expired st key (sr_now rq)" "bs_outcome s = None"
    by (cases "bs_outcome s") blast+
  then show ?thesis
  proof cases
    case late
    then have r: "and_then bump_barrier_wait_generation (\<lambda>_. time_out key) st = (r, st')"
      using assms(3) s(1) by (simp add: arrive_again_def is_some_and_def)
    show ?thesis
    proof (cases st rule: bump_barrier_cases)
      case 1
      then show ?thesis using r assms(1) by (auto simp: explained_def)
    next
      case (2 x)
      then have "r = Ok (Some BarrierTimedOut, map snd (bs_arrivals s))"
        "st' = set_slot key (s\<lparr>bs_outcome := Some BarrierTimedOut\<rparr>) (st\<lparr>br_wait_generation := x\<rparr>)"
        using r s(1) by (auto simp: time_out_eq)
      then show ?thesis using ok_time_out [of "st\<lparr>br_wait_generation := x\<rparr>" key s] assms(1) s(1) late
        by (auto simp: explained_def outcome_at_def decided_def slot_expired_def late_def is_some_and_def)
    qed
  next
    case over
    then have "r = Ok (Some outcome, []) \<and> st' = st"
      using assms(3) s(1) by (simp add: arrive_again_def is_some_and_def)
    then show ?thesis using assms(1) s(1) over by (simp add: explained_def outcome_at_def)
  next
    case wait
    let ?s = "s\<lparr>bs_arrivals := bm_insert (sr_participant rq) wk (bs_arrivals s)\<rparr>"
    have arrived: "bm_get (bs_arrivals s) (sr_participant rq) \<noteq> None" using s(2) wait(2) by (simp add: lease_good_def)
    then have r: "r = Ok (None, []) \<and> st' = set_slot key ?s st"
      using assms(3) s(1) wait by (auto simp: arrive_again_def is_some_and_def with_slot_def and_then_def)
    have bm: "bm_ok (bs_arrivals s)" using good by (simp add: slot_good_def)
    note len = length_bm_insert_old [OF bm arrived, of wk]
    have "barrier_ok (set_slot key ?s st)"
    proof (rule ok_set_slot [OF assms(1)])
      show "slot_good st key ?s" using good arrived len bm by (auto simp: slot_good_def bm_ok_insert bm_get_insert)
      show "lease_good ?s p h" if "lease_of st key p = Some h" for p h
        using ok_lease [OF assms(1) that] s(1) bm by (auto simp: lease_good_def bm_get_insert)
    qed
    then show ?thesis using r wait s(1) good len bm by (simp add: explained_def slot_good_def bm_get_insert late_def slot_expired_def is_some_and_def)
  qed
qed

lemma closed_effect:
  assumes "barrier_ok st" and "slot_of st key = Some s" and "bs_outcome s = Some outcome"
    and "join_closed key p outcome mp st = (r, st')"
  shows "barrier_ok st' \<and> explained rq wk key st r st'"
proof (cases "\<exists>e. r = Err e")
  case True
  then show ?thesis using assms(1,2,4)
    by (cases st rule: bump_barrier_cases)
      (auto simp: join_closed_def with_slot_def and_then_def explained_def split: if_splits)
next
  case False
  then obtain x where x: "outcome = BarrierTimedOut" "r = Ok (Some outcome, [])"
      "st' = set_slot key (s\<lparr>bs_retired := List.insert p (bs_retired s)\<rparr>) (st\<lparr>br_wait_generation := x\<rparr>)"
    using assms(2,4) by (cases st rule: bump_barrier_cases)
      (auto simp: join_closed_def with_slot_def and_then_def split: if_splits)
  let ?s = "s\<lparr>bs_retired := List.insert p (bs_retired s)\<rparr>"
  have "barrier_ok (set_slot key ?s (st\<lparr>br_wait_generation := x\<rparr>))"
  proof (rule ok_set_slot)
    show "slot_good (st\<lparr>br_wait_generation := x\<rparr>) key ?s" using ok_slot [OF assms(1,2)] by (simp add: slot_good_def)
    show "lease_good ?s q h" if "lease_of (st\<lparr>br_wait_generation := x\<rparr>) key q = Some h" for q h
      using ok_lease [OF assms(1), of key q h] that assms(2) by (simp add: lease_good_def)
  qed (use assms(1) in simp)
  then show ?thesis using x assms(2,3) by (simp add: explained_def outcome_at_def)
qed


lemma add_lease_eq: "br_participant_count st < usize_max \<Longrightarrow> add_lease key p g st =
    (Ok (), st\<lparr>br_leases := AList.update (key, p) g (br_leases st), br_participant_count := Suc (br_participant_count st)\<rparr>)"
  by (simp add: add_lease_def and_then_def)

lemma expired_effect:
  assumes "barrier_ok st" and "lease_of st key (sr_participant rq) = None" and "slot_expired st key (sr_now rq)" and "outcome_at st key = None"
    and "map_of (br_next_generation st) key = Some g" and "br_participant_count st < usize_max"
    and "join_expired key (sr_participant rq) g st = (r, st')"
  shows "barrier_ok st' \<and> explained rq wk key st r st'"
proof -
  obtain s where s: "slot_of st key = Some s" using assms(3) by (auto simp: slot_expired_def is_some_and_def split: option.splits)
  have good: "slot_good st key s" by (rule ok_slot [OF assms(1) s])
  then have g: "bs_generation s = g" using assms(5) by (simp add: slot_good_def)
  show ?thesis
  proof (cases st rule: bump_barrier_cases)
    case 1
    then show ?thesis using assms(1,7) by (auto simp: join_expired_def explained_def)
  next
    case (2 x)
    let ?s = "s\<lparr>bs_outcome := Some BarrierTimedOut\<rparr>" and ?st = "st\<lparr>br_wait_generation := x\<rparr>"
    have r: "r = Ok (Some BarrierTimedOut, map snd (bs_arrivals s))"
      "st' = set_slot key ?s (?st\<lparr>br_leases := AList.update (key, sr_participant rq) (bs_generation ?s) (br_leases ?st),
         br_participant_count := Suc (br_participant_count ?st)\<rparr>)"
      using assms(6,7) s g by (auto simp: join_expired_def 2 add_lease_eq time_out_eq)
    have "barrier_ok st'" unfolding r(2)
    proof (rule ok_join)
      show "q = sr_participant rq \<or> lease_of ?st key q = Some (bs_generation ?s)" if "bm_get (bs_arrivals ?s) q \<noteq> None" for q
        using that good by (simp add: slot_good_def)
      show "lease_good ?s q h" if "lease_of ?st key q = Some h" for q h
        using that ok_lease [OF assms(1), of key q h] s by (simp add: lease_good_def)
    qed (use assms(1,2) good in \<open>simp_all add: slot_good_def\<close>)
    then show ?thesis using r s assms(3,4) by (simp add: explained_def decided_def slot_expired_def late_def is_some_and_def)
  qed
qed

lemma open_effect:
  assumes "barrier_ok st" and "lease_of st key (sr_participant rq) = None" and "outcome_at st key = None"
    and "map_of (br_next_generation st) key = Some g" and "br_participant_count st < usize_max" and "0 < expected"
    and "\<not> slot_expired st key (sr_now rq)" and "\<not> is_some_and (\<lambda>d. d \<le> sr_now rq) deadline"
    and "join_open key (sr_participant rq) wk g expected deadline st = (r, st')"
  shows "barrier_ok st' \<and> explained rq wk key st r st'"
proof (cases st rule: bump_barrier_cases)
  case 1
  then show ?thesis using assms(1,9) by (auto simp: join_open_def explained_def)
next
  case (2 x)
  let ?p = "sr_participant rq" and ?st = "st\<lparr>br_wait_generation := x\<rparr>"
  define s where "s = (case slot_of st key of Some s \<Rightarrow> s | None \<Rightarrow>
    \<lparr>bs_generation = g, bs_expected = expected, bs_deadline = deadline, bs_arrivals = [], bs_retired = [], bs_outcome = None\<rparr>)"
  have s: "bs_generation s = g" "bs_outcome s = None" "bm_ok (bs_arrivals s)" "length (bs_arrivals s) < bs_expected s"
      "\<And>q. bm_get (bs_arrivals s) q \<noteq> None \<Longrightarrow> lease_of st key q = Some g"
      "\<And>q h. lease_of st key q = Some h \<Longrightarrow> lease_good s q h"
    using ok_slot [OF assms(1), of key] ok_lease [OF assms(1), of key] assms(3,4,6)
    by (fastforce simp: s_def slot_good_def outcome_at_def bm_ok_def split: option.splits)+
  let ?a = "bm_insert ?p wk (bs_arrivals s)"
  have fresh: "bm_get (bs_arrivals s) ?p = None" using s(5) assms(2) by fastforce
  then have len: "length ?a = Suc (length (bs_arrivals s))"
    using bt.length_keys_ins_fresh [OF s(3), of ?p wk] by (simp add: bm_keys_def)
  define s' where "s' = (if bs_expected s \<le> length ?a then s\<lparr>bs_arrivals := ?a, bs_outcome := Some BarrierReleased\<rparr> else s\<lparr>bs_arrivals := ?a\<rparr>)"
  have f': "bs_generation s' = g" "bs_arrivals s' = ?a" "bs_expected s' = bs_expected s"
      "bs_outcome s' = (if bs_expected s \<le> length ?a then Some BarrierReleased else None)"
    using s(1,2) by (simp_all add: s'_def)
  define st1 where "st1 = (if slot_of st key = None then set_slot key s ?st else ?st)"
  have st1: "lease_of st1 = lease_of st" "br_next_generation st1 = br_next_generation st" "br_participant_count st1 = br_participant_count st"
      "slot_of st1 key = Some s"
    by (auto simp: st1_def s_def split: option.splits)
  have opened: "open_slot key g expected deadline ?st = (Ok (), st1)"
    by (simp add: open_slot_def st1_def s_def)
  have ok1: "barrier_ok st1"
  proof (cases "slot_of st key = None")
    case True
    then show ?thesis using ok_set_slot [of ?st key s] assms(1,4) s by (simp add: st1_def slot_good_def)
  next
    case False
    then show ?thesis using assms(1) by (auto simp: st1_def)
  qed
  let ?st2 = "st1\<lparr>br_leases := AList.update (key, ?p) (bs_generation s') (br_leases st1), br_participant_count := Suc (br_participant_count st1)\<rparr>"
  have r: "r = Ok (if bs_expected s \<le> length ?a then (Some BarrierReleased, map snd ?a) else (None, []))" "st' = set_slot key s' ?st2"
    using assms(5,9) st1(3,4) f'(1)
    by (auto simp: join_open_def 2 opened add_lease_eq with_slot_def Let_def s'_def split: if_splits)
  have "barrier_ok st'" unfolding r(2)
  proof (rule ok_join [OF ok1])
    show "q = ?p \<or> lease_of st1 key q = Some (bs_generation s')" if "bm_get (bs_arrivals s') q \<noteq> None" for q
      using that s(5) [of q] f' st1(1) s(3) by (auto simp: bm_get_insert split: if_splits)
    show "lease_good s' q h" if "lease_of st1 key q = Some h" for q h
      using s(6) [of q h] that st1(1) f' s(1-3) by (auto simp: lease_good_def bm_get_insert)
    show "bs_outcome s' = None \<Longrightarrow> length (bs_arrivals s') < bs_expected s' \<and> bm_get (bs_arrivals s') ?p \<noteq> None"
      using f' s(3) by (auto simp: bm_get_insert split: if_splits)
  qed (use assms(2,4) st1 f' s(3) in \<open>simp_all add: bm_ok_insert\<close>)
  moreover have "\<not> late rq s'"
    using assms(7,8) by (auto simp: s'_def s_def late_def slot_expired_def is_some_and_def split: option.splits)
  then have "explained rq wk key st r st'"
    using r f' len s(3,4) assms(3) by (auto simp: explained_def decided_def bm_get_insert)
  ultimately show ?thesis by blast
qed

lemma claim_effect:
  assumes "barrier_ok st" and "claim_generation key st = (r, st')"
  obtains g where "r = Ok g" "barrier_ok st'" "map_of (br_next_generation st') key = Some g"
    "br_slots st' = br_slots st" "br_leases st' = br_leases st"
proof (cases "map_of (br_next_generation st) key")
  case (Some g)
  then show ?thesis using assms that [of g] by (auto simp: claim_generation_def)
next
  case None
  let ?st = "st\<lparr>br_next_generation := AList.update key generation_initial (br_next_generation st)\<rparr>"
  have r: "r = Ok generation_initial" "st' = ?st" using assms(2) None by (auto simp: claim_generation_def)
  have "slot_good ?st k s" if "slot_of st k = Some s" for k s
    using ok_slot [OF assms(1) that] None by (auto simp: slot_good_def update_conv')
  then have "barrier_ok ?st"
    using assms(1) unfolding barrier_ok_def by simp
  then show ?thesis using r that [of generation_initial] by (simp add: update_conv')
qed

lemma arrive_effect:
  assumes "barrier_ok st" and "map_of (br_next_generation st) key = Some g" and "0 < expected" and "mp \<le> usize_max"
    and "\<not> is_some_and (\<lambda>d. d \<le> sr_now rq) deadline" and "arrive rq wk mp key expected g deadline st = (r, st')"
  shows "barrier_ok st' \<and> explained rq wk key st r st'"
proof (cases "lease_of st key (sr_participant rq)")
  case (Some l)
  obtain s where "slot_of st key = Some s" "lease_good s (sr_participant rq) l" using ok_lease [OF assms(1) Some] by blast
  then have "l = g" using ok_slot [OF assms(1), of key s] assms(2) by (simp add: slot_good_def lease_good_def)
  then consider "st' = st" "\<exists>e. r = Err e \<and> e \<notin> internal_errors"
    | "arrive_again key (sr_participant rq) wk (slot_expired st key (sr_now rq)) st = (r, st')"
    using assms(6) Some by (auto simp: arrive_def lease_of_def Let_def is_some_and_def split: if_splits option.splits)
  then show ?thesis using assms(1) again_effect [OF assms(1) Some] refused_explained by cases blast+
next
  case None
  consider (refused) "st' = st" "\<exists>e. r = Err e \<and> e \<notin> internal_errors"
    | (closed) outcome s where "slot_of st key = Some s" "bs_outcome s = Some outcome" "join_closed key (sr_participant rq) outcome mp st = (r, st')"
    | (expired) "outcome_at st key = None" "slot_expired st key (sr_now rq)" "br_participant_count st < mp" "join_expired key (sr_participant rq) g st = (r, st')"
    | (joined) "outcome_at st key = None" "\<not> slot_expired st key (sr_now rq)" "br_participant_count st < mp"
        "join_open key (sr_participant rq) wk g expected deadline st = (r, st')"
    using assms(6) None
    by (cases "slot_of st key") (auto simp: arrive_def lease_of_def Let_def is_some_and_def outcome_at_def split: if_splits option.splits)
  then show ?thesis
  proof cases
    case refused
    then show ?thesis using assms(1) refused_explained by blast
  next
    case closed
    then show ?thesis using closed_effect [OF assms(1)] by blast
  next
    case expired
    then show ?thesis using expired_effect [OF assms(1) None expired(2,1) assms(2) _ expired(4)] assms(4) by simp
  next
    case joined
    then show ?thesis using open_effect [OF assms(1) None joined(1) assms(2) _ assms(3) joined(2) assms(5) joined(4)] assms(4) by simp
  qed
qed

lemma explained_cong:
  "br_slots st1 = br_slots st \<Longrightarrow> br_leases st1 = br_leases st \<Longrightarrow> explained rq wk key st1 = explained rq wk key st"
  by (simp add: explained_def fun_eq_iff outcome_at_def slot_of_def split: sum.splits option.splits)

lemma expected_size_cases:
  "(\<exists>n. expected_size st rq = Ok n \<and> 0 < n) \<or> (\<exists>e. expected_size st rq = Err e \<and> e \<notin> internal_errors)"
  by (auto simp: expected_size_def split: sum.splits option.splits)

lemma requested_deadline_cases:
  "(\<exists>d. requested_deadline rq = Ok d \<and> \<not> is_some_and (\<lambda>d. d \<le> sr_now rq) d) \<or>
    (\<exists>e. requested_deadline rq = Err e \<and> e \<notin> internal_errors)"
  by (auto simp: requested_deadline_def is_some_and_def checked_add_def split: option.splits)

lemma arrive_locked_effect:
  assumes "barrier_ok st" and "mp \<le> usize_max" and "arrive_locked rq wk ms mp key st = (r, st')"
  shows "barrier_ok st' \<and> explained rq wk key st r st'"
proof -
  consider (refused) "st' = st" "\<exists>e. r = Err e \<and> e \<notin> internal_errors"
    | (claimed) expected where "0 < expected"
        "and_then (claim_generation key) (\<lambda>g. and_then (lift_result (requested_deadline rq)) (\<lambda>deadline.
           arrive rq wk mp key expected g deadline)) st = (r, st')"
    using assms(3) expected_size_cases [of st rq] by (auto simp: arrive_locked_def split: if_splits)
  then show ?thesis
  proof cases
    case refused
    then show ?thesis using assms(1) refused_explained by blast
  next
    case claimed
    obtain q st1 where q: "claim_generation key st = (q, st1)" by fastforce
    then obtain g where g: "q = Ok g" "barrier_ok st1" "map_of (br_next_generation st1) key = Some g"
        "br_slots st1 = br_slots st" "br_leases st1 = br_leases st"
      using claim_effect [OF assms(1) q] by metis
    consider e where "r = Err e" "e \<notin> internal_errors" "st' = st1"
      | d where "\<not> is_some_and (\<lambda>d. d \<le> sr_now rq) d" "arrive rq wk mp key expected g d st1 = (r, st')"
      using claimed(2) q g(1) requested_deadline_cases [of rq] by auto
    then have "barrier_ok st' \<and> explained rq wk key st1 r st'"
      using g(2,3) claimed(1) assms(2) arrive_effect refused_explained by cases blast+
    then show ?thesis using explained_cong [OF g(4,5)] by simp
  qed
qed

section \<open>Departures\<close>

lemma left_ok:
  assumes "barrier_ok st" and "lease_of st key p = Some g" and "slot_of st key = Some x"
    and "bs_generation s = bs_generation x" and "bs_arrivals s = bm_remove p (bs_arrivals x)" and "bs_outcome s \<noteq> None"
    and "slot_of st' = (slot_of st)(key \<mapsto> s)" and "br_leases st' = AList.delete (key, p) (br_leases st)"
    and "Suc (br_participant_count st') = br_participant_count st" and "br_next_generation st' = br_next_generation st"
  shows "barrier_ok st'"
proof -
  let ?st = "set_slot key s (st\<lparr>br_leases := AList.delete (key, p) (br_leases st), br_participant_count := br_participant_count st'\<rparr>)"
  have "barrier_ok ?st" by (rule ok_leave [OF assms(1-6,9)])
  moreover have "barrier_ok st' = barrier_ok ?st" by (rule barrier_ok_cong) (use assms(7,8,10) in \<open>simp_all add: fun_eq_iff\<close>)
  ultimately show ?thesis by simp
qed

lemma drop_participant_fields [simp]:
  "slot_of (drop_participant st) = slot_of st" "br_leases (drop_participant st) = br_leases st"
  "br_next_generation (drop_participant st) = br_next_generation st"
  "0 < br_participant_count st \<Longrightarrow> Suc (br_participant_count (drop_participant st)) = br_participant_count st"
  by (auto simp: drop_participant_def checked_sub_def split: option.splits)

lemma bump_or_overflow_fields [simp]:
  "slot_of (bump_or_overflow st) = slot_of st" "br_leases (bump_or_overflow st) = br_leases st"
  "br_next_generation (bump_or_overflow st) = br_next_generation st"
  "br_participant_count (bump_or_overflow st) = br_participant_count st"
  by (cases st rule: bump_barrier_cases; simp add: bump_or_overflow_def)+

lemma count_positive: "barrier_ok st \<Longrightarrow> lease_of st key p = Some g \<Longrightarrow> 0 < br_participant_count st"
  by (auto simp: barrier_ok_def lease_of_def)

lemma remove_absent: "bm_ok m \<Longrightarrow> bm_get m k = None \<Longrightarrow> bm_remove k m = m"
  by (rule bm_ext) (auto simp: bm_ok_remove bm_get_remove)

text \<open>A cancelled participant has a slot, and the slot is left before it is closed.\<close>

lemma departure_effect:
  assumes "barrier_ok st" and "lease_of st key p = Some g"
  obtains s st1 where "slot_of st key = Some s" "barrier_ok st1"
    "cancel_locked key p st = (if bs_outcome s = None then map snd (bm_remove p (bs_arrivals s)) else [], close_drained key st1)"
    "br_leases st1 = AList.delete (key, p) (br_leases st)" "Suc (br_participant_count st1) = br_participant_count st"
    "\<exists>s'. slot_of st1 key = Some s' \<and> bs_arrivals s' = bm_remove p (bs_arrivals s) \<and>
       bs_outcome s' = Some (case bs_outcome s of None \<Rightarrow> BarrierTimedOut | Some outcome \<Rightarrow> outcome)"
proof -
  obtain s where s: "slot_of st key = Some s" "lease_good s p g" using ok_lease [OF assms] by blast
  have good: "slot_good st key s" by (rule ok_slot [OF assms(1) s(1)])
  note pos = count_positive [OF assms]
  note left = left_ok [OF assms s(1)]
  let ?st = "st\<lparr>br_leases := AList.delete (key, p) (br_leases st)\<rparr>"
  let ?s = "s\<lparr>bs_arrivals := bm_remove p (bs_arrivals s), bs_retired := List.insert p (bs_retired s)\<rparr>"
  have lease: "map_of (br_leases st) (key, p) = Some g" using assms(2) by (simp add: lease_of_def)
  consider (waiting) "bs_outcome s = None" "bm_get (bs_arrivals s) p \<noteq> None"
    | (arrived) "bs_outcome s \<noteq> None" "bm_get (bs_arrivals s) p \<noteq> None" | (gone) "bs_outcome s \<noteq> None" "bm_get (bs_arrivals s) p = None"
    using s(2) by (auto simp: lease_good_def)
  then show ?thesis
  proof cases
    case waiting
    let ?st1 = "set_slot key (?s\<lparr>bs_outcome := Some BarrierTimedOut\<rparr>) (bump_or_overflow (drop_participant (set_slot key ?s ?st)))"
    have "barrier_ok ?st1"
      by (rule left [of "?s\<lparr>bs_outcome := Some BarrierTimedOut\<rparr>"]) (use pos in \<open>simp_all add: fun_eq_iff\<close>)
    then show ?thesis
      using that [of s ?st1] s waiting lease pos by (auto simp: cancel_locked_def lease_good_def Let_def)
  next
    case arrived
    let ?st1 = "drop_participant (set_slot key ?s ?st)"
    have "barrier_ok ?st1"
      by (rule left [of ?s]) (use arrived pos in \<open>simp_all add: fun_eq_iff\<close>)
    then show ?thesis
      using that [of s ?st1] s arrived lease pos by (auto simp: cancel_locked_def lease_good_def Let_def)
  next
    case gone
    have same: "bm_remove p (bs_arrivals s) = bs_arrivals s" using good gone(2) by (simp add: slot_good_def remove_absent)
    have "barrier_ok (drop_participant ?st)"
      by (rule left [of s]) (use gone same pos s(1) in \<open>auto simp: fun_eq_iff\<close>)
    then show ?thesis
      using that [of s "drop_participant ?st"] s gone lease pos same by (auto simp: cancel_locked_def Let_def)
  qed
qed

lemma ok_cancel: "barrier_ok st \<Longrightarrow> barrier_ok (snd (cancel_locked key p st))"
proof (cases "lease_of st key p")
  case None
  then show "barrier_ok st \<Longrightarrow> ?thesis" by (simp add: cancel_locked_def lease_of_def)
next
  case (Some g)
  show ?thesis if "barrier_ok st" by (rule departure_effect [OF that Some]) (simp add: ok_close_drained)
qed

lemma ok_complete:
  assumes "barrier_ok st"
  shows "barrier_ok (complete_locked key p outcome st)"
proof (cases "lease_of st key p")
  case None
  then show ?thesis using assms by (simp add: complete_locked_def lease_of_def)
next
  case (Some g)
  obtain s where s: "slot_of st key = Some s" "lease_good s p g" using ok_lease [OF assms Some] by blast
  let ?st = "drop_participant (bump_or_overflow (st\<lparr>br_leases := AList.delete (key, p) (br_leases st)\<rparr>))"
  define closing where "closing = (case bs_outcome s of None \<Rightarrow> outcome | Some known \<Rightarrow> known)"
  let ?s = "s\<lparr>bs_outcome := Some closing, bs_arrivals := bm_remove p (bs_arrivals s),
     bs_retired := (if closing = BarrierTimedOut then List.insert p (bs_retired s) else bs_retired s)\<rparr>"
  have lease: "map_of (br_leases st) (key, p) = Some g" using Some by (simp add: lease_of_def)
  have "barrier_ok (set_slot key ?s ?st)"
    by (rule left_ok [OF assms Some s(1), of ?s]) (use count_positive [OF assms Some] in \<open>simp_all add: fun_eq_iff\<close>)
  moreover have "complete_locked key p outcome st = close_drained key (set_slot key ?s ?st)"
    using lease s by (simp add: complete_locked_def lease_good_def Let_def closing_def)
  ultimately show ?thesis by (simp add: ok_close_drained)
qed

section \<open>Runs\<close>

datatype barrier_command = Arrive sync_request waker | CancelArrival sync_request | CompleteArrival sync_request sync_outcome
  | RegisterGroup string usize | UnregisterGroup string

primrec barrier_execute :: "barrier_command \<Rightarrow> barrier_coordinator \<Rightarrow> barrier_coordinator" where
  "barrier_execute (Arrive rq wk) c = snd (poll_arrival rq wk c)"
| "barrier_execute (CancelArrival rq) c = cancel_arrival rq c"
| "barrier_execute (CompleteArrival rq outcome) c = complete_arrival rq outcome c"
| "barrier_execute (RegisterGroup grp n) c = snd (register_thread_group grp n c)"
| "barrier_execute (UnregisterGroup grp) c = snd (unregister_thread_group grp c)"

definition barrier_run :: "usize \<Rightarrow> usize \<Rightarrow> barrier_command list \<Rightarrow> barrier_coordinator" where
  "barrier_run max_slots max_participants cmds = fold barrier_execute cmds (barrier_with_limits max_slots max_participants)"

text \<open>The answer of a poll, in terms of the section under the mutex.\<close>

definition answer_explained ::
  "sync_request \<Rightarrow> waker \<Rightarrow> barrier_coordinator \<Rightarrow> (component_error, sync_outcome) result poll_outcome \<Rightarrow> barrier_coordinator \<Rightarrow> bool" where
  "answer_explained rq wk c answer c' \<longleftrightarrow>
     (case key_for rq of
        Err e \<Rightarrow> answer = PollReady (Err e) \<and> c' = c
      | Ok key \<Rightarrow>
          (case answer of
             PollReady (Err e) \<Rightarrow> bc_woken c' = bc_woken c \<and> explained rq wk key (bc_state c) (Err e) (bc_state c')
           | PollPending \<Rightarrow> bc_woken c' = bc_woken c \<and> explained rq wk key (bc_state c) (Ok (None, [])) (bc_state c')
           | PollReady (Ok outcome) \<Rightarrow>
               (\<exists>wks. bc_woken c' = bc_woken c @ wks \<and> explained rq wk key (bc_state c) (Ok (Some outcome, wks)) (bc_state c'))))"

definition coordinator_good :: "barrier_coordinator \<Rightarrow> bool" where
  "coordinator_good c \<longleftrightarrow> barrier_ok (bc_state c) \<and> bc_max_participants c \<le> usize_max"

lemma arrival_effect:
  assumes "coordinator_good c" and "poll_arrival rq wk c = (answer, c')"
  shows "coordinator_good c' \<and> answer_explained rq wk c answer c'"
proof (cases "key_for rq")
  case (Inl e)
  then show ?thesis using assms by (auto simp: poll_arrival_def answer_explained_def)
next
  case (Inr key)
  obtain r st' where r: "arrive_locked rq wk (bc_max_slots c) (bc_max_participants c) key (bc_state c) = (r, st')" by fastforce
  have eff: "barrier_ok st' \<and> explained rq wk key (bc_state c) r st'"
    by (rule arrive_locked_effect [OF _ _ r]) (use assms(1) in \<open>simp_all add: coordinator_good_def\<close>)
  consider e where "r = Err e" | wks where "r = Ok (None, wks)" | outcome wks where "r = Ok (Some outcome, wks)"
    by (metis (no_types) obj_sumE option.exhaust surj_pair)
  then show ?thesis using assms Inr r eff
    by cases (auto simp: poll_arrival_def answer_explained_def coordinator_good_def explained_def)
qed

lemma run_good: "coordinator_good (barrier_run max_slots max_participants cmds)"
proof -
  have step: "coordinator_good (barrier_execute cmd c)" if "coordinator_good c" for cmd c
  proof (cases cmd)
    case (Arrive rq wk)
    then show ?thesis using arrival_effect [OF that] by (metis barrier_execute.simps(1) prod.collapse)
  next
    case (CancelArrival rq)
    then show ?thesis using that ok_cancel [of "bc_state c"]
      by (auto simp: cancel_arrival_def coordinator_good_def split: sum.splits prod.splits) (metis snd_conv)
  next
    case (CompleteArrival rq outcome)
    then show ?thesis using that ok_complete by (auto simp: complete_arrival_def coordinator_good_def split: sum.splits)
  qed (use that in \<open>auto simp: coordinator_good_def register_thread_group_def unregister_thread_group_def\<close>)
  have "coordinator_good (barrier_with_limits max_slots max_participants)"
    by (simp add: coordinator_good_def barrier_with_limits_def barrier_state_default_def barrier_ok_def slot_of_def lease_of_def
      MAX_BARRIER_PARTICIPANTS_def usize_max_def)
  then have "coordinator_good (fold barrier_execute cmds (barrier_with_limits max_slots max_participants))" for cmds
    by (induction cmds rule: rev_induct) (simp_all add: step)
  then show ?thesis by (simp add: barrier_run_def)
qed


lemma close_drained_eq:
  assumes "slot_of st key = Some s" and "\<And>p. lease_of st key p \<noteq> None \<longleftrightarrow> bm_get (bs_arrivals s) p \<noteq> None" and "bm_ok (bs_arrivals s)"
  shows "slot_of (close_drained key st) key = (if bs_arrivals s = [] then None else Some s)"
    "br_leases (close_drained key st) = br_leases st" "br_participant_count (close_drained key st) = br_participant_count st"
proof -
  have "key \<notin> set (map (fst \<circ> fst) (br_leases st))" if "bs_arrivals s = []"
  proof -
    have "lease_of st key p = None" for p using assms(2) [of p] that by (simp add: bm_get_def)
    then show ?thesis by (force simp: lease_of_def map_of_eq_None_iff)
  qed
  then show "slot_of (close_drained key st) key = (if bs_arrivals s = [] then None else Some s)"
    using assms(1) by (simp add: close_drained_def advance_barrier_generation_def is_some_and_def slot_of_def delete_conv' split: option.splits)
  show "br_leases (close_drained key st) = br_leases st" "br_participant_count (close_drained key st) = br_participant_count st"
    by (simp_all add: close_drained_def advance_barrier_generation_def split: option.splits)
qed

text \<open>C27: When a participant that waits at an undecided barrier is cancelled, the barrier breaks for all: the
  wakers of exactly the other waiting participants are called, the cancelled one loses its lease, and the
  slot is decided as timed out for those who remain, or removed when nobody does.
\<close>

theorem cancellation_breaks_barrier:
  assumes "key_for rq = Ok key" and "slot_of (bc_state (barrier_run max_slots max_participants cmds)) key = Some s"
    and "bs_outcome s = None" and "bm_get (bs_arrivals s) (sr_participant rq) \<noteq> None"
  shows "let c = barrier_run max_slots max_participants cmds; c' = cancel_arrival rq c;
             others = bm_remove (sr_participant rq) (bs_arrivals s)
         in bc_woken c' = bc_woken c @ map snd others \<and>
            lease_of (bc_state c') key (sr_participant rq) = None \<and>
            Suc (br_participant_count (bc_state c')) = br_participant_count (bc_state c) \<and>
            (if others = [] then slot_of (bc_state c') key = None
             else \<exists>s'. slot_of (bc_state c') key = Some s' \<and> bs_arrivals s' = others \<and> bs_outcome s' = Some BarrierTimedOut)"
proof -
  let ?p = "sr_participant rq" and ?c = "barrier_run max_slots max_participants cmds"
  have ok: "barrier_ok (bc_state ?c)" using run_good by (simp add: coordinator_good_def)
  have good: "slot_good (bc_state ?c) key s" by (rule ok_slot [OF ok assms(2)])
  then have lease: "lease_of (bc_state ?c) key ?p = Some (bs_generation s)" and bm: "bm_ok (bs_arrivals s)"
    using assms(4) by (auto simp: slot_good_def)
  obtain st1 s' where st1: "barrier_ok st1" "cancel_locked key ?p (bc_state ?c) = (map snd (bm_remove ?p (bs_arrivals s)), close_drained key st1)"
      "br_leases st1 = AList.delete (key, ?p) (br_leases (bc_state ?c))" "Suc (br_participant_count st1) = br_participant_count (bc_state ?c)"
      "slot_of st1 key = Some s'" "bs_arrivals s' = bm_remove ?p (bs_arrivals s)" "bs_outcome s' = Some BarrierTimedOut"
    by (rule departure_effect [OF ok lease]) (use assms(2,3) in auto)
  have l1: "lease_of st1 key q = (if q = ?p then None else lease_of (bc_state ?c) key q)" for q
    using st1(3) by (simp add: lease_of_def delete_conv')
  have "lease_of st1 key q \<noteq> None \<longleftrightarrow> bm_get (bs_arrivals s') q \<noteq> None" for q
    using ok_lease [OF ok, of key q] good assms(2,3) bm by (auto simp: l1 st1(6) bm_get_remove slot_good_def lease_good_def)
  note closed = close_drained_eq [OF st1(5) this]
  have "bm_ok (bs_arrivals s')" using bm st1(6) by (simp add: bm_ok_remove)
  note closed = closed [OF this]
  have "cancel_arrival rq ?c = ?c\<lparr>bc_state := close_drained key st1, bc_woken := bc_woken ?c @ map snd (bm_remove ?p (bs_arrivals s))\<rparr>"
    using assms(1) st1(2) by (simp add: cancel_arrival_def)
  moreover have "lease_of (close_drained key st1) key ?p = None"
    using l1 [of ?p] closed(2) by (simp add: lease_of_def)
  ultimately show ?thesis using closed st1 by (simp add: Let_def)
qed

definition barrier_visit :: "string \<Rightarrow> sync_request" where
  "barrier_visit p = \<lparr>sr_name = ''b'', sr_group_size = Some 3, sr_timeout = 5, sr_now = 0, sr_participant = p, sr_thread_name = p,
     sr_thread_group = None, sr_thread_number = None, sr_lifecycle_id = None\<rparr>"

theorem cancellation_breaks_barrier_witness:
  "let c = barrier_run 4 4 [Arrive (barrier_visit ''u'') 1, Arrive (barrier_visit ''v'') 2]; c' = cancel_arrival (barrier_visit ''u'') c
   in bc_woken c' = [2] \<and> outcome_at (bc_state c') (''b'', None) = Some BarrierTimedOut"
proof -
  let ?cmds = "[Arrive (barrier_visit ''u'') 1, Arrive (barrier_visit ''v'') 2]"
  let ?s = "\<lparr>bs_generation = generation_initial, bs_expected = 3, bs_deadline = Some 5, bs_arrivals = [(''u'', 1), (''v'', 2)], bs_retired = [],
    bs_outcome = None\<rparr>"
  have order: "''u'' \<noteq> ''v''" "''u'' < ''v''" "\<not> ''v'' < ''u''" by code_simp+
  note run = barrier_run_def barrier_with_limits_def barrier_state_default_def poll_arrival_def key_for_def bad_name_def barrier_visit_def
    arrive_locked_def expected_size_def claim_generation_def requested_deadline_def arrive_def slot_of_def set_slot_def is_some_and_def
    slot_expired_def join_open_def open_slot_def add_lease_def with_slot_def and_then_def bump_barrier_wait_generation_def
    MAX_BARRIER_TEXT_BYTES_def MAX_BARRIER_PARTICIPANTS_def MAX_BARRIER_SLOTS_def DURATION_MAX_def usize_max_def checked_add_def
    Critical_Section.bump_generation_def generation_next_def generation_new_def generation_initial_def u64_max_def Let_def
  have key: "key_for (barrier_visit ''u'') = Ok (''b'', None)" by (simp add: run)
  have slot: "slot_of (bc_state (barrier_run 4 4 ?cmds)) (''b'', None) = Some ?s" by (simp add: run order)
  have there: "bm_get (bs_arrivals ?s) (sr_participant (barrier_visit ''u'')) \<noteq> None"
    "bm_remove (sr_participant (barrier_visit ''u'')) (bs_arrivals ?s) = [(''v'', 2)]" by (simp_all add: run order bm_remove_def)
  have none: "bc_woken (barrier_run 4 4 ?cmds) = []" by (simp add: run order)
  show ?thesis using cancellation_breaks_barrier [OF key slot _ there(1)] there(2) none by (auto simp: Let_def outcome_at_def)
qed

declare split_paired_All [simp] and split_paired_Ex [simp]

end
