(* ===== verification/Bridge_Frame.thy ===== *)
theory Bridge_Frame
  imports Bridge_Wire
begin

text \<open>
  The frame codec of \<open>crates/bridge-protocol/src/lib.rs\<close>: frame limits and their validation, the
  structured remote error payload, the semantic rules per message kind, the encoder and the
  incremental decoder with its two passes over the capability list.
\<close>

unbundle bit_operations_syntax

section \<open>Constants\<close>

definition MAGIC :: bytes where "MAGIC = [74, 77, 66, 80]"
definition PROTOCOL_VERSION :: u8 where "PROTOCOL_VERSION = 1"
definition HEADER_LEN :: usize where "HEADER_LEN = 36"
definition MAX_FRAME_BYTES :: usize where "MAX_FRAME_BYTES = 16 * 1024 * 1024"
definition MAX_PROFILE_LEN :: usize where "MAX_PROFILE_LEN = 256"
definition MAX_CAPABILITIES :: usize where "MAX_CAPABILITIES = 256"
definition MAX_CAPABILITY_LEN :: usize where "MAX_CAPABILITY_LEN = 256"
definition MAX_METADATA_LEN :: usize where "MAX_METADATA_LEN = 64 * 1024"
definition MAX_ERROR_MESSAGE_LEN :: usize where "MAX_ERROR_MESSAGE_LEN = 4096"
definition ERROR_PAYLOAD_HEADER_LEN :: usize where "ERROR_PAYLOAD_HEADER_LEN = 5"
definition FLAG_CANCEL_REQUESTED :: u16 where "FLAG_CANCEL_REQUESTED = 1"
definition FLAG_CANCELLED :: u16 where "FLAG_CANCELLED = 2"
definition FLAG_PROFILE_PRESENT :: u16 where "FLAG_PROFILE_PRESENT = 4"
definition KNOWN_FLAGS :: u16 where
  "KNOWN_FLAGS = FLAG_CANCEL_REQUESTED OR FLAG_CANCELLED OR FLAG_PROFILE_PRESENT"
definition ERROR_FLAG_RETRYABLE :: u8 where "ERROR_FLAG_RETRYABLE = 1"
definition u16_max :: usize where "u16_max = 65535"
definition u32_max :: usize where "u32_max = 4294967295"

lemmas frame_constants = MAGIC_def PROTOCOL_VERSION_def HEADER_LEN_def MAX_FRAME_BYTES_def MAX_PROFILE_LEN_def
  MAX_CAPABILITIES_def MAX_CAPABILITY_LEN_def MAX_METADATA_LEN_def MAX_ERROR_MESSAGE_LEN_def
  ERROR_PAYLOAD_HEADER_LEN_def u16_max_def u32_max_def usize_max_def

section \<open>Data\<close>

datatype message_kind = Handshake | Request | Response | Cancel | ErrorMessage

fun kind_byte :: "message_kind \<Rightarrow> u8" where
  "kind_byte Handshake = 1"
| "kind_byte Request = 2"
| "kind_byte Response = 3"
| "kind_byte Cancel = 4"
| "kind_byte ErrorMessage = 5"

datatype cancellation_state = NotCancelled | Requested | Cancelled

datatype remote_error_code =
    ProtocolViolation | UnsupportedVersion | UnsupportedMessageKind | InvalidRequest | InvalidPayload
  | ProfileMismatch | CapabilityUnavailable | WorkerUnavailable | WorkerCrashed | WorkerLimitExceeded
  | DeadlineExceeded | OperationCancelled | Internal | UnknownCode u16

datatype frame_validation_error =
    RequestIdMustBeZero message_kind
  | RequestIdMustBeNonZero message_kind
  | ProfileRequired message_kind
  | ProfileNotAllowed message_kind
  | CapabilitiesNotAllowed message_kind
  | InvalidCancellation message_kind cancellation_state
  | HandshakeErrorCodeNotAllowed remote_error_code

datatype frame_limits_error =
    FrameBytes usize usize usize
  | MessageExceedsFrame usize usize
  | MetadataExceedsFrame usize usize
  | AggregateExceedsFrame usize usize usize
  | ProfileBytes usize usize
  | CapabilityCount usize usize
  | CapabilityLength usize usize
  | CapabilityBytes usize usize
  | ErrorMessageLength usize usize
  | WireLength usize

datatype utf8_field = ProfileField | CapabilityField usize

datatype decode_error =
    InvalidMagic bytes
  | UnsupportedWireVersion u8
  | UnknownMessageKind u8
  | UnknownFlags u16
  | InvalidCancellationFlags
  | ProfileFlagMismatch bool usize
  | DPayloadTooLarge usize usize
  | DMetadataTooLarge usize usize
  | DProfileTooLong usize usize
  | DTooManyCapabilities usize usize
  | DCapabilityTooLong usize usize usize
  | DEmptyCapability usize
  | DInvalidFrame frame_validation_error
  | DInvalidLimits frame_limits_error
  | DFrameTooLarge usize usize
  | ErrorPayloadTooLarge usize usize
  | DCapabilityBytesTooLarge usize usize
  | DDuplicateCapability usize
  | MetadataLengthMismatch usize usize
  | MalformedUtf8 utf8_field
  | DLengthOverflow
  | TrailingBytes usize
  | IncompleteFrame usize

text \<open>The errors of the structured handshake payload are not part of this model.\<close>

datatype encode_error =
    PayloadTooLarge usize usize
  | MetadataTooLarge usize usize
  | ProfileTooLong usize usize
  | TooManyCapabilities usize usize
  | CapabilityTooLong usize usize usize
  | EmptyProfile
  | EmptyCapability usize
  | InvalidFrame frame_validation_error
  | LengthOverflow
  | ErrorMessageTooLong usize usize
  | ReservedRemoteErrorCode u16
  | FrameTooLarge usize usize
  | CapabilityBytesTooLarge usize usize
  | DuplicateCapability usize
  | InvalidLimits frame_limits_error

datatype remote_error_decode_error =
    WrongMessageKind message_kind
  | Truncated usize usize
  | UnknownErrorFlags u8
  | MessageTooLong usize usize
  | LengthMismatch usize usize
  | MalformedUtf8Message

record bridge_frame =
  fr_kind :: message_kind
  fr_request_id :: "64 word"
  fr_deadline :: "64 word option"
  fr_cancellation :: cancellation_state
  fr_profile :: "rust_str option"
  fr_capabilities :: "rust_str list"
  fr_payload :: bytes

record frame_limits =
  max_payload_len :: usize
  max_frame_bytes :: usize
  max_profile_len :: usize
  max_capabilities :: usize
  max_capability_len :: usize
  max_capability_bytes :: usize
  max_metadata_len :: usize
  max_error_message_len :: usize

datatype decode_outcome = Complete bridge_frame usize | Incomplete usize

definition deadline_at_unix_millis :: "64 word \<Rightarrow> 64 word option" where
  "deadline_at_unix_millis t = (if t = 0 then None else Some t)"

definition is_expired_at :: "64 word option \<Rightarrow> 64 word \<Rightarrow> bool" where
  "is_expired_at d now = (case d of Some deadline \<Rightarrow> deadline \<le> now | None \<Rightarrow> False)"

definition frame_new :: "message_kind \<Rightarrow> 64 word \<Rightarrow> bytes \<Rightarrow> bridge_frame" where
  "frame_new kind request_id payload = \<lparr>fr_kind = kind, fr_request_id = request_id, fr_deadline = None,
     fr_cancellation = NotCancelled, fr_profile = None, fr_capabilities = [], fr_payload = payload\<rparr>"

definition frame_limits_new :: "usize \<Rightarrow> frame_limits" where
  "frame_limits_new n = \<lparr>max_payload_len = n, max_frame_bytes = MAX_FRAME_BYTES, max_profile_len = MAX_PROFILE_LEN,
     max_capabilities = MAX_CAPABILITIES, max_capability_len = MAX_CAPABILITY_LEN,
     max_capability_bytes = MAX_METADATA_LEN, max_metadata_len = MAX_METADATA_LEN,
     max_error_message_len = MAX_ERROR_MESSAGE_LEN\<rparr>"

section \<open>Limits\<close>

definition limits_validate :: "frame_limits \<Rightarrow> (frame_limits_error, unit) result" where
  "limits_validate l =
     (if max_frame_bytes l < HEADER_LEN \<or> MAX_FRAME_BYTES < max_frame_bytes l then
        Err (FrameBytes (max_frame_bytes l) HEADER_LEN MAX_FRAME_BYTES)
      else (let available = max_frame_bytes l - HEADER_LEN
        in if available < max_payload_len l then Err (MessageExceedsFrame (max_payload_len l) (max_frame_bytes l))
           else if available < max_metadata_len l \<or> MAX_METADATA_LEN < max_metadata_len l then
             Err (MetadataExceedsFrame (max_metadata_len l) (max_frame_bytes l))
           else (case checked_add usize_max (max_payload_len l) (max_metadata_len l) of
               None \<Rightarrow> Err (AggregateExceedsFrame (max_payload_len l) (max_metadata_len l) (max_frame_bytes l))
             | Some aggregate \<Rightarrow>
                 if available < aggregate then
                   Err (AggregateExceedsFrame (max_payload_len l) (max_metadata_len l) (max_frame_bytes l))
                 else if MAX_PROFILE_LEN < max_profile_len l \<or> u16_max < max_profile_len l then
                   Err (ProfileBytes (max_profile_len l) (min MAX_PROFILE_LEN u16_max))
                 else if MAX_CAPABILITIES < max_capabilities l \<or> u16_max < max_capabilities l then
                   Err (CapabilityCount (max_capabilities l) (min MAX_CAPABILITIES u16_max))
                 else if MAX_CAPABILITY_LEN < max_capability_len l \<or> u16_max < max_capability_len l then
                   Err (CapabilityLength (max_capability_len l) (min MAX_CAPABILITY_LEN u16_max))
                 else if max_metadata_len l < max_capability_bytes l then
                   Err (CapabilityBytes (max_capability_bytes l) (max_metadata_len l))
                 else if MAX_ERROR_MESSAGE_LEN < max_error_message_len l \<or> u16_max < max_error_message_len l then
                   Err (ErrorMessageLength (max_error_message_len l) (min MAX_ERROR_MESSAGE_LEN u16_max))
                 else if u32_max < max_payload_len l \<or> u32_max < max_metadata_len l then
                   Err (WireLength (max (max_payload_len l) (max_metadata_len l)))
                 else Ok ())))"

definition max_frame_len :: "frame_limits \<Rightarrow> usize option" where
  "max_frame_len l =
     (case limits_validate l of
        Err _ \<Rightarrow> None
      | Ok _ \<Rightarrow>
          (case checked_add usize_max HEADER_LEN (min (max_metadata_len l) MAX_METADATA_LEN) of
             None \<Rightarrow> None
           | Some n \<Rightarrow>
               (case checked_add usize_max n (min (max_payload_len l) u32_max) of
                  None \<Rightarrow> None
                | Some field_sum \<Rightarrow> Some (min (min field_sum (max_frame_bytes l)) MAX_FRAME_BYTES))))"

section \<open>Remote errors\<close>

fun code_as_u16 :: "remote_error_code \<Rightarrow> u16" where
  "code_as_u16 ProtocolViolation = 0x0001"
| "code_as_u16 UnsupportedVersion = 0x0002"
| "code_as_u16 UnsupportedMessageKind = 0x0003"
| "code_as_u16 InvalidRequest = 0x0100"
| "code_as_u16 InvalidPayload = 0x0101"
| "code_as_u16 ProfileMismatch = 0x0102"
| "code_as_u16 CapabilityUnavailable = 0x0200"
| "code_as_u16 WorkerUnavailable = 0x0201"
| "code_as_u16 WorkerCrashed = 0x0202"
| "code_as_u16 WorkerLimitExceeded = 0x0203"
| "code_as_u16 DeadlineExceeded = 0x0300"
| "code_as_u16 OperationCancelled = 0x0301"
| "code_as_u16 Internal = 0x7fff"
| "code_as_u16 (UnknownCode v) = v"

definition code_from_u16 :: "u16 \<Rightarrow> remote_error_code" where
  "code_from_u16 v =
     (if v = 0x0001 then ProtocolViolation
      else if v = 0x0002 then UnsupportedVersion
      else if v = 0x0003 then UnsupportedMessageKind
      else if v = 0x0100 then InvalidRequest
      else if v = 0x0101 then InvalidPayload
      else if v = 0x0102 then ProfileMismatch
      else if v = 0x0200 then CapabilityUnavailable
      else if v = 0x0201 then WorkerUnavailable
      else if v = 0x0202 then WorkerCrashed
      else if v = 0x0203 then WorkerLimitExceeded
      else if v = 0x0300 then DeadlineExceeded
      else if v = 0x0301 then OperationCancelled
      else if v = 0x7fff then Internal
      else UnknownCode v)"

definition is_handshake_negotiation :: "remote_error_code \<Rightarrow> bool" where
  "is_handshake_negotiation c \<longleftrightarrow>
     c \<in> {ProtocolViolation, UnsupportedVersion, UnsupportedMessageKind, ProfileMismatch, CapabilityUnavailable}"

record remote_error =
  re_code :: remote_error_code
  re_retryable :: bool
  re_message :: rust_str

definition remote_error_new :: "remote_error_code \<Rightarrow> bool \<Rightarrow> rust_str \<Rightarrow> remote_error" where
  "remote_error_new c r msg = \<lparr>re_code = c, re_retryable = r, re_message = msg\<rparr>"

definition remote_error_try_new :: "remote_error_code \<Rightarrow> bool \<Rightarrow> rust_str \<Rightarrow> (encode_error, remote_error) result" where
  "remote_error_try_new c r msg =
     (if MAX_ERROR_MESSAGE_LEN < length msg then Err (ErrorMessageTooLong (length msg) MAX_ERROR_MESSAGE_LEN)
      else Ok (remote_error_new c r msg))"

text \<open>A code that claims to be unknown but has a meaning on the wire.\<close>

fun reserved_code :: "remote_error_code \<Rightarrow> u16 option" where
  "reserved_code (UnknownCode v) = (if code_from_u16 v \<noteq> UnknownCode v then Some v else None)"
| "reserved_code _ = None"

definition encode_payload_with_limit :: "remote_error \<Rightarrow> usize \<Rightarrow> (encode_error, bytes) result" where
  "encode_payload_with_limit e maximum =
     (case reserved_code (re_code e) of
        Some v \<Rightarrow> Err (ReservedRemoteErrorCode v)
      | None \<Rightarrow>
          (let len = length (re_message e)
           in if maximum < len \<or> MAX_ERROR_MESSAGE_LEN < len \<or> u16_max < len then
                Err (ErrorMessageTooLong len (min (min maximum MAX_ERROR_MESSAGE_LEN) u16_max))
              else
                (let payload = push_u16 [] (code_as_u16 (re_code e));
                     payload = payload @ [if re_retryable e then ERROR_FLAG_RETRYABLE else 0];
                     payload = push_u16 payload (of_nat len)
                 in Ok (payload @ re_message e))))"

definition encode_payload :: "remote_error \<Rightarrow> (encode_error, bytes) result" where
  "encode_payload e = encode_payload_with_limit e MAX_ERROR_MESSAGE_LEN"

definition validate_remote_error_payload ::
  "bytes \<Rightarrow> usize \<Rightarrow> (remote_error_decode_error, remote_error_code) panicking" where
  "validate_remote_error_payload payload maximum =
     (if length payload < ERROR_PAYLOAD_HEADER_LEN then Some (Err (Truncated ERROR_PAYLOAD_HEADER_LEN (length payload)))
      else Option.bind (read_u16 payload 0) (\<lambda>code.
        Option.bind (vec_get payload 2) (\<lambda>flags.
        if flags AND NOT ERROR_FLAG_RETRYABLE \<noteq> 0 then Some (Err (UnknownErrorFlags (flags AND NOT ERROR_FLAG_RETRYABLE)))
        else Option.bind (read_u16 payload 3) (\<lambda>len.
          (let message_len = unat len
           in if maximum < message_len \<or> MAX_ERROR_MESSAGE_LEN < message_len then
                Some (Err (MessageTooLong message_len (min maximum MAX_ERROR_MESSAGE_LEN)))
              else attempt (Some (ok_or (checked_add usize_max ERROR_PAYLOAD_HEADER_LEN message_len)
                  (LengthMismatch message_len (length payload - ERROR_PAYLOAD_HEADER_LEN)))) (\<lambda>expected.
                if length payload \<noteq> expected then
                  Some (Err (LengthMismatch message_len (length payload - ERROR_PAYLOAD_HEADER_LEN)))
                else Option.bind (slice payload ERROR_PAYLOAD_HEADER_LEN (length payload)) (\<lambda>msg.
                  if \<not> utf8_valid msg then Some (Err MalformedUtf8Message)
                  else Some (Ok (code_from_u16 code)))))))))"

definition decode_payload_with_limit :: "bytes \<Rightarrow> usize \<Rightarrow> (remote_error_decode_error, remote_error) panicking" where
  "decode_payload_with_limit payload maximum =
     attempt (validate_remote_error_payload payload maximum) (\<lambda>code.
     Option.bind (vec_get payload 2) (\<lambda>flags.
     Option.bind (slice payload ERROR_PAYLOAD_HEADER_LEN (length payload)) (\<lambda>msg.
     if \<not> utf8_valid msg then Some (Err MalformedUtf8Message)
     else Some (Ok \<lparr>re_code = code, re_retryable = (flags AND ERROR_FLAG_RETRYABLE \<noteq> 0), re_message = msg\<rparr>))))"

definition decode_payload :: "bytes \<Rightarrow> (remote_error_decode_error, remote_error) panicking" where
  "decode_payload payload = decode_payload_with_limit payload MAX_ERROR_MESSAGE_LEN"

definition frame_error :: "64 word \<Rightarrow> remote_error \<Rightarrow> (encode_error, bridge_frame) result" where
  "frame_error request_id e =
     (if request_id = 0 \<and> \<not> is_handshake_negotiation (re_code e) then
        Err (InvalidFrame (HandshakeErrorCodeNotAllowed (re_code e)))
      else (case encode_payload e of
          Err x \<Rightarrow> Err x
        | Ok payload \<Rightarrow> Ok (frame_new ErrorMessage request_id payload)))"

definition frame_remote_error :: "bridge_frame \<Rightarrow> (remote_error_decode_error, remote_error) panicking" where
  "frame_remote_error f =
     (if fr_kind f \<noteq> ErrorMessage then Some (Err (WrongMessageKind (fr_kind f))) else decode_payload (fr_payload f))"

section \<open>Semantic rules\<close>

definition handshake_error_payload_code :: "bytes \<Rightarrow> usize \<Rightarrow> remote_error_code option option" where
  "handshake_error_payload_code payload maximum =
     map_option (\<lambda>r. case r of Ok c \<Rightarrow> Some c | Err _ \<Rightarrow> None) (validate_remote_error_payload payload maximum)"

fun validate_wire_semantics ::
  "message_kind \<Rightarrow> 64 word \<Rightarrow> bool \<Rightarrow> usize \<Rightarrow> cancellation_state \<Rightarrow> remote_error_code option \<Rightarrow>
   (frame_validation_error, unit) result" where
  "validate_wire_semantics Handshake request_id profile_present capability_count c _ =
     (if request_id \<noteq> 0 then Err (RequestIdMustBeZero Handshake)
      else if \<not> profile_present then Err (ProfileRequired Handshake)
      else if c \<noteq> NotCancelled then Err (InvalidCancellation Handshake c)
      else Ok ())"
| "validate_wire_semantics Request request_id profile_present capability_count c _ =
     (if request_id = 0 then Err (RequestIdMustBeNonZero Request)
      else if c = Cancelled then Err (InvalidCancellation Request c)
      else Ok ())"
| "validate_wire_semantics Response request_id profile_present capability_count c _ =
     (if request_id = 0 then Err (RequestIdMustBeNonZero Response)
      else if profile_present then Err (ProfileNotAllowed Response)
      else if capability_count \<noteq> 0 then Err (CapabilitiesNotAllowed Response)
      else if c = Requested then Err (InvalidCancellation Response c)
      else Ok ())"
| "validate_wire_semantics Cancel request_id profile_present capability_count c _ =
     (if request_id = 0 then Err (RequestIdMustBeNonZero Cancel)
      else if profile_present then Err (ProfileNotAllowed Cancel)
      else if capability_count \<noteq> 0 then Err (CapabilitiesNotAllowed Cancel)
      else if c \<noteq> Requested then Err (InvalidCancellation Cancel c)
      else Ok ())"
| "validate_wire_semantics ErrorMessage request_id profile_present capability_count c code =
     (if request_id = 0 \<and> code = None then Err (RequestIdMustBeNonZero ErrorMessage)
      else if request_id = 0 \<and> \<not> is_handshake_negotiation (the code) then Err (HandshakeErrorCodeNotAllowed (the code))
      else if profile_present then Err (ProfileNotAllowed ErrorMessage)
      else if capability_count \<noteq> 0 then Err (CapabilitiesNotAllowed ErrorMessage)
      else if c \<noteq> NotCancelled then Err (InvalidCancellation ErrorMessage c)
      else Ok ())"

definition validate_frame_semantics :: "bridge_frame \<Rightarrow> usize \<Rightarrow> (frame_validation_error, unit) panicking" where
  "validate_frame_semantics f maximum =
     Option.bind (if fr_kind f = ErrorMessage \<and> fr_request_id f = 0
                  then handshake_error_payload_code (fr_payload f) maximum else Some None) (\<lambda>code.
     Some (validate_wire_semantics (fr_kind f) (fr_request_id f) (fr_profile f \<noteq> None)
       (length (fr_capabilities f)) (fr_cancellation f) code))"

section \<open>Encoding\<close>

text \<open>The capability loop of \<open>validate_frame\<close>: \<open>before\<close> is the slice \<open>capabilities[..index]\<close>.\<close>

fun validate_capabilities ::
  "frame_limits \<Rightarrow> rust_str list \<Rightarrow> usize \<Rightarrow> usize \<Rightarrow> rust_str list \<Rightarrow> (encode_error, usize) result" where
  "validate_capabilities l before metadata_len capability_bytes [] = Ok metadata_len"
| "validate_capabilities l before metadata_len capability_bytes (c # cs) =
     (let index = length before; len = length c
      in if len = 0 then Err (EmptyCapability index)
         else if max_capability_len l < len \<or> MAX_CAPABILITY_LEN < len then
           Err (CapabilityTooLong index len (min (max_capability_len l) MAX_CAPABILITY_LEN))
         else if u16_max < len then Err (CapabilityTooLong index len u16_max)
         else if c \<in> set before then Err (DuplicateCapability index)
         else (case Option.bind (checked_add usize_max metadata_len 2) (\<lambda>v. checked_add usize_max v len) of
             None \<Rightarrow> Err LengthOverflow
           | Some metadata_len \<Rightarrow>
               (case Option.bind (checked_add usize_max capability_bytes 2) (\<lambda>v. checked_add usize_max v len) of
                  None \<Rightarrow> Err LengthOverflow
                | Some capability_bytes \<Rightarrow>
                    if max_capability_bytes l < capability_bytes then
                      Err (CapabilityBytesTooLarge capability_bytes (max_capability_bytes l))
                    else validate_capabilities l (before @ [c]) metadata_len capability_bytes cs)))"

definition validate_profile :: "frame_limits \<Rightarrow> rust_str option \<Rightarrow> (encode_error, usize) result" where
  "validate_profile l profile =
     (case profile of
        None \<Rightarrow> Ok 0
      | Some p \<Rightarrow>
          if length p = 0 then Err EmptyProfile
          else if max_profile_len l < length p \<or> MAX_PROFILE_LEN < length p then
            Err (ProfileTooLong (length p) (min (max_profile_len l) MAX_PROFILE_LEN))
          else if u16_max < length p then Err (ProfileTooLong (length p) u16_max)
          else Ok (length p))"

definition map_error :: "('e \<Rightarrow> 'f) \<Rightarrow> ('e, 'a) result \<Rightarrow> ('f, 'a) result" where
  "map_error f r = (case r of Err e \<Rightarrow> Err (f e) | Ok a \<Rightarrow> Ok a)"

definition validate_frame :: "frame_limits \<Rightarrow> bridge_frame \<Rightarrow> (encode_error, usize \<times> usize) panicking" where
  "validate_frame l f =
     attempt (map_option (map_error InvalidFrame) (validate_frame_semantics f (max_error_message_len l))) (\<lambda>_.
     (let payload_len = length (fr_payload f)
      in if max_payload_len l < payload_len \<or> u32_max < payload_len then
           Some (Err (PayloadTooLarge payload_len (min (max_payload_len l) u32_max)))
         else attempt (Some (validate_profile l (fr_profile f))) (\<lambda>profile_len.
           (let capability_count = length (fr_capabilities f)
            in if max_capabilities l < capability_count \<or> MAX_CAPABILITIES < capability_count then
                 Some (Err (TooManyCapabilities capability_count (min (max_capabilities l) MAX_CAPABILITIES)))
               else attempt (Some (validate_capabilities l [] profile_len 0 (fr_capabilities f))) (\<lambda>metadata_len.
                 if max_metadata_len l < metadata_len \<or> MAX_METADATA_LEN < metadata_len \<or> u32_max < metadata_len then
                   Some (Err (MetadataTooLarge metadata_len (min (max_metadata_len l) MAX_METADATA_LEN)))
                 else Some (Ok (metadata_len, payload_len)))))))"

definition frame_flags :: "cancellation_state \<Rightarrow> bool \<Rightarrow> u16" where
  "frame_flags c profile_present =
     (let flags = (case c of NotCancelled \<Rightarrow> 0 | Requested \<Rightarrow> FLAG_CANCEL_REQUESTED | Cancelled \<Rightarrow> FLAG_CANCELLED)
      in if profile_present then flags OR FLAG_PROFILE_PRESENT else flags)"

definition push_capability :: "rust_str \<Rightarrow> bytes \<Rightarrow> bytes" where
  "push_capability c bs = push_u16 bs (of_nat (length c)) @ c"

definition write_frame :: "bridge_frame \<Rightarrow> usize \<Rightarrow> usize \<Rightarrow> bytes" where
  "write_frame f metadata_len payload_len =
     (let bs = MAGIC @ [PROTOCOL_VERSION] @ [kind_byte (fr_kind f)];
          bs = push_u16 bs (frame_flags (fr_cancellation f) (fr_profile f \<noteq> None));
          bs = push_u64 bs (fr_request_id f);
          bs = push_u64 bs (case fr_deadline f of None \<Rightarrow> 0 | Some t \<Rightarrow> t);
          bs = push_u16 bs (of_nat (case fr_profile f of None \<Rightarrow> 0 | Some p \<Rightarrow> length p));
          bs = push_u16 bs (of_nat (length (fr_capabilities f)));
          bs = push_u32 bs (of_nat metadata_len);
          bs = push_u32 bs (of_nat payload_len);
          bs = (case fr_profile f of None \<Rightarrow> bs | Some p \<Rightarrow> bs @ p);
          bs = fold push_capability (fr_capabilities f) bs
      in bs @ fr_payload f)"

definition encode :: "frame_limits \<Rightarrow> bridge_frame \<Rightarrow> (encode_error, bytes) panicking" where
  "encode l f =
     attempt (Some (map_error InvalidLimits (limits_validate l))) (\<lambda>_.
     attempt (validate_frame l f) (\<lambda>(metadata_len, payload_len).
     attempt (Some (ok_or (Option.bind (checked_add usize_max HEADER_LEN metadata_len)
       (\<lambda>n. checked_add usize_max n payload_len)) LengthOverflow)) (\<lambda>total_len.
     if max_frame_bytes l < total_len \<or> MAX_FRAME_BYTES < total_len then
       Some (Err (FrameTooLarge total_len (min (max_frame_bytes l) MAX_FRAME_BYTES)))
     else Some (Ok (write_frame f metadata_len payload_len)))))"

definition error_frame :: "frame_limits \<Rightarrow> 64 word \<Rightarrow> remote_error \<Rightarrow> (encode_error, bridge_frame) panicking" where
  "error_frame l request_id e =
     attempt (Some (encode_payload_with_limit e (max_error_message_len l))) (\<lambda>payload.
     attempt (validate_frame l (frame_new ErrorMessage request_id payload)) (\<lambda>_.
     Some (Ok (frame_new ErrorMessage request_id payload))))"

section \<open>Decoding\<close>

definition kind_from_wire :: "u8 \<Rightarrow> (decode_error, message_kind) result" where
  "kind_from_wire v =
     (if v = 1 then Ok Handshake
      else if v = 2 then Ok Request
      else if v = 3 then Ok Response
      else if v = 4 then Ok Cancel
      else if v = 5 then Ok ErrorMessage
      else Err (UnknownMessageKind v))"

record wire_header =
  wh_kind :: message_kind
  wh_flags :: u16
  wh_request_id :: "64 word"
  wh_deadline :: "64 word"
  wh_profile_len :: usize
  wh_capability_count :: usize
  wh_metadata_len :: usize
  wh_payload_len :: usize

definition read_lengths :: "bytes \<Rightarrow> message_kind \<Rightarrow> u16 \<Rightarrow> (decode_error, wire_header) panicking" where
  "read_lengths input kind flags =
     Option.bind (read_u64 input 8) (\<lambda>request_id.
     Option.bind (read_u64 input 16) (\<lambda>deadline_wire.
     Option.bind (read_u16 input 24) (\<lambda>profile_len.
     Option.bind (read_u16 input 26) (\<lambda>capability_count.
     Option.bind (read_u32 input 28) (\<lambda>metadata_len.
     Option.bind (read_u32 input 32) (\<lambda>payload_len.
     Some (Ok \<lparr>wh_kind = kind, wh_flags = flags, wh_request_id = request_id, wh_deadline = deadline_wire,
       wh_profile_len = unat profile_len, wh_capability_count = unat capability_count,
       wh_metadata_len = unat metadata_len, wh_payload_len = unat payload_len\<rparr>)))))))"

definition read_header :: "bytes \<Rightarrow> (decode_error, wire_header) panicking" where
  "read_header input =
     Option.bind (slice input 0 (length MAGIC)) (\<lambda>magic.
     if magic \<noteq> MAGIC then Some (Err (InvalidMagic (take 4 input)))
     else Option.bind (vec_get input 4) (\<lambda>version.
     if version \<noteq> PROTOCOL_VERSION then Some (Err (UnsupportedWireVersion version))
     else Option.bind (vec_get input 5) (\<lambda>k.
     attempt (Some (kind_from_wire k)) (\<lambda>kind.
     Option.bind (read_u16 input 6) (\<lambda>flags.
     if flags AND NOT KNOWN_FLAGS \<noteq> 0 then Some (Err (UnknownFlags (flags AND NOT KNOWN_FLAGS)))
     else if flags AND FLAG_CANCEL_REQUESTED \<noteq> 0 \<and> flags AND FLAG_CANCELLED \<noteq> 0 then
       Some (Err InvalidCancellationFlags)
     else read_lengths input kind flags)))))"

text \<open>The bounds on the declared lengths; the result is the length of the whole frame.\<close>

definition check_lengths :: "frame_limits \<Rightarrow> wire_header \<Rightarrow> (decode_error, usize) result" where
  "check_lengths l h =
     (if max_payload_len l < wh_payload_len h then Err (DPayloadTooLarge (wh_payload_len h) (max_payload_len l))
      else if wh_kind h = ErrorMessage \<and>
          checked_add usize_max ERROR_PAYLOAD_HEADER_LEN (min (max_error_message_len l) MAX_ERROR_MESSAGE_LEN) = None then
        Err DLengthOverflow
      else if wh_kind h = ErrorMessage \<and>
          ERROR_PAYLOAD_HEADER_LEN + min (max_error_message_len l) MAX_ERROR_MESSAGE_LEN < wh_payload_len h then
        Err (ErrorPayloadTooLarge (wh_payload_len h)
          (ERROR_PAYLOAD_HEADER_LEN + min (max_error_message_len l) MAX_ERROR_MESSAGE_LEN))
      else if max_metadata_len l < wh_metadata_len h \<or> MAX_METADATA_LEN < wh_metadata_len h then
        Err (DMetadataTooLarge (wh_metadata_len h) (min (max_metadata_len l) MAX_METADATA_LEN))
      else if max_profile_len l < wh_profile_len h \<or> MAX_PROFILE_LEN < wh_profile_len h then
        Err (DProfileTooLong (wh_profile_len h) (min (max_profile_len l) MAX_PROFILE_LEN))
      else if max_capabilities l < wh_capability_count h \<or> MAX_CAPABILITIES < wh_capability_count h then
        Err (DTooManyCapabilities (wh_capability_count h) (min (max_capabilities l) MAX_CAPABILITIES))
      else (case Option.bind (checked_add usize_max HEADER_LEN (wh_metadata_len h))
              (\<lambda>n. checked_add usize_max n (wh_payload_len h)) of
          None \<Rightarrow> Err DLengthOverflow
        | Some total_len \<Rightarrow>
            if max_frame_bytes l < total_len \<or> MAX_FRAME_BYTES < total_len then
              Err (DFrameTooLarge total_len (min (max_frame_bytes l) MAX_FRAME_BYTES))
            else Ok total_len))"

definition read_profile :: "bytes \<Rightarrow> usize \<Rightarrow> (decode_error, rust_str option \<times> usize) panicking" where
  "read_profile metadata profile_len =
     (if profile_len = 0 then Some (Ok (None, 0))
      else attempt (Some (ok_or (checked_add usize_max 0 profile_len) DLengthOverflow)) (\<lambda>end_offset.
        if length metadata < end_offset then Some (Err (MetadataLengthMismatch (length metadata) end_offset))
        else Option.bind (slice metadata 0 end_offset) (\<lambda>bs.
          if \<not> utf8_valid bs then Some (Err (MalformedUtf8 ProfileField)) else Some (Ok (Some bs, end_offset)))))"

text \<open>The inner loop: the capability bytes already validated are scanned again for a duplicate.\<close>

fun duplicate_before :: "bytes \<Rightarrow> bytes \<Rightarrow> usize \<Rightarrow> nat \<Rightarrow> (decode_error, bool) panicking" where
  "duplicate_before metadata current previous_offset 0 = Some (Ok False)"
| "duplicate_before metadata current previous_offset (Suc n) =
     attempt (Some (ok_or (checked_add usize_max previous_offset 2) DLengthOverflow)) (\<lambda>previous_start.
     Option.bind (read_u16 metadata previous_offset) (\<lambda>previous_length.
     attempt (Some (ok_or (checked_add usize_max previous_start (unat previous_length)) DLengthOverflow)) (\<lambda>previous_end.
     Option.bind (slice metadata previous_start previous_end) (\<lambda>previous.
     if previous = current then Some (Ok True)
     else duplicate_before metadata current previous_end n))))"

fun check_capabilities ::
  "frame_limits \<Rightarrow> bytes \<Rightarrow> usize \<Rightarrow> usize \<Rightarrow> usize \<Rightarrow> usize \<Rightarrow> nat \<Rightarrow> (decode_error, usize) panicking" where
  "check_capabilities l metadata profile_len index offset capability_bytes 0 = Some (Ok offset)"
| "check_capabilities l metadata profile_len index offset capability_bytes (Suc n) =
     attempt (Some (ok_or (checked_add usize_max offset 2) DLengthOverflow)) (\<lambda>length_end.
     if length metadata < length_end then Some (Err (MetadataLengthMismatch (length metadata) length_end))
     else Option.bind (read_u16 metadata offset) (\<lambda>len.
     (let capability_len = unat len
      in if capability_len = 0 then Some (Err (DEmptyCapability index))
         else if max_capability_len l < capability_len \<or> MAX_CAPABILITY_LEN < capability_len then
           Some (Err (DCapabilityTooLong index capability_len (min (max_capability_len l) MAX_CAPABILITY_LEN)))
         else attempt (Some (ok_or (checked_add usize_max length_end capability_len) DLengthOverflow)) (\<lambda>end_offset.
           if length metadata < end_offset then Some (Err (MetadataLengthMismatch (length metadata) end_offset))
           else Option.bind (slice metadata length_end end_offset) (\<lambda>current.
             if \<not> utf8_valid current then Some (Err (MalformedUtf8 (CapabilityField index)))
             else attempt (duplicate_before metadata current profile_len index) (\<lambda>dup.
               if dup then Some (Err (DDuplicateCapability index))
               else attempt (Some (ok_or (Option.bind (checked_add usize_max capability_bytes 2)
                   (\<lambda>v. checked_add usize_max v capability_len)) DLengthOverflow)) (\<lambda>capability_bytes.
                 if max_capability_bytes l < capability_bytes then
                   Some (Err (DCapabilityBytesTooLarge capability_bytes (max_capability_bytes l)))
                 else check_capabilities l metadata profile_len (index + 1) end_offset capability_bytes n)))))))"

text \<open>The second pass copies the validated capabilities.\<close>

fun copy_capabilities :: "bytes \<Rightarrow> usize \<Rightarrow> usize \<Rightarrow> nat \<Rightarrow> (decode_error, rust_str list) panicking" where
  "copy_capabilities metadata index offset 0 = Some (Ok [])"
| "copy_capabilities metadata index offset (Suc n) =
     Option.bind (read_u16 metadata offset) (\<lambda>len.
     Option.bind (slice metadata (offset + 2) (offset + 2 + unat len)) (\<lambda>c.
     if \<not> utf8_valid c then Some (Err (MalformedUtf8 (CapabilityField index)))
     else attempt (copy_capabilities metadata (index + 1) (offset + 2 + unat len) n) (\<lambda>cs.
       Some (Ok (c # cs)))))"

definition flags_cancellation :: "u16 \<Rightarrow> cancellation_state" where
  "flags_cancellation flags =
     (if flags AND FLAG_CANCEL_REQUESTED \<noteq> 0 then Requested
      else if flags AND FLAG_CANCELLED \<noteq> 0 then Cancelled
      else NotCancelled)"

definition finish_frame ::
  "frame_limits \<Rightarrow> wire_header \<Rightarrow> bytes \<Rightarrow> bytes \<Rightarrow> bytes option \<Rightarrow> (decode_error, bridge_frame) panicking" where
  "finish_frame l h metadata payload profile_bytes =
     Option.bind (if wh_kind h = ErrorMessage \<and> wh_request_id h = 0
                  then handshake_error_payload_code payload (max_error_message_len l) else Some None) (\<lambda>code.
     attempt (Some (map_error DInvalidFrame (validate_wire_semantics (wh_kind h) (wh_request_id h)
       (wh_flags h AND FLAG_PROFILE_PRESENT \<noteq> 0) (wh_capability_count h) (flags_cancellation (wh_flags h)) code))) (\<lambda>_.
     if \<exists>p \<in> set_option profile_bytes. \<not> utf8_valid p then Some (Err (MalformedUtf8 ProfileField))
     else attempt (copy_capabilities metadata 0 (wh_profile_len h) (wh_capability_count h)) (\<lambda>capabilities.
       Some (Ok \<lparr>fr_kind = wh_kind h, fr_request_id = wh_request_id h,
         fr_deadline = (if wh_deadline h = 0 then None else Some (wh_deadline h)),
         fr_cancellation = flags_cancellation (wh_flags h), fr_profile = profile_bytes,
         fr_capabilities = capabilities, fr_payload = payload\<rparr>))))"

definition decode_body :: "frame_limits \<Rightarrow> wire_header \<Rightarrow> bytes \<Rightarrow> usize \<Rightarrow> (decode_error, decode_outcome) panicking" where
  "decode_body l h input total_len =
     (let profile_present = (wh_flags h AND FLAG_PROFILE_PRESENT \<noteq> 0);
          payload_start = HEADER_LEN + wh_metadata_len h
      in if profile_present \<noteq> (wh_profile_len h \<noteq> 0) then
           Some (Err (ProfileFlagMismatch profile_present (wh_profile_len h)))
         else Option.bind (slice input HEADER_LEN (HEADER_LEN + wh_metadata_len h)) (\<lambda>metadata.
           attempt (read_profile metadata (wh_profile_len h)) (\<lambda>(profile_bytes, offset).
           attempt (check_capabilities l metadata (wh_profile_len h) 0 offset 0 (wh_capability_count h)) (\<lambda>offset.
           if offset \<noteq> length metadata then Some (Err (MetadataLengthMismatch (wh_metadata_len h) offset))
           else Option.bind (slice input payload_start (payload_start + wh_payload_len h)) (\<lambda>payload.
             attempt (finish_frame l h metadata payload profile_bytes) (\<lambda>f.
             Some (Ok (Complete f total_len))))))))"

definition decode :: "frame_limits \<Rightarrow> bytes \<Rightarrow> (decode_error, decode_outcome) panicking" where
  "decode l input =
     attempt (Some (map_error DInvalidLimits (limits_validate l))) (\<lambda>_.
     if length input < HEADER_LEN then Some (Ok (Incomplete (HEADER_LEN - length input)))
     else attempt (read_header input) (\<lambda>h.
       attempt (Some (check_lengths l h)) (\<lambda>total_len.
       if length input < total_len then Some (Ok (Incomplete (total_len - length input)))
       else decode_body l h input total_len)))"

definition decode_next :: "frame_limits \<Rightarrow> bytes \<Rightarrow> (decode_error, bridge_frame option \<times> bytes) panicking" where
  "decode_next l input =
     attempt (decode l input) (\<lambda>r. case r of
         Incomplete _ \<Rightarrow> Some (Ok (None, input))
       | Complete f consumed \<Rightarrow>
           Option.bind (slice input consumed (length input)) (\<lambda>rest. Some (Ok (Some f, rest))))"

definition decode_exact :: "frame_limits \<Rightarrow> bytes \<Rightarrow> (decode_error, bridge_frame) panicking" where
  "decode_exact l input =
     attempt (decode l input) (\<lambda>r. case r of
         Incomplete needed \<Rightarrow> Some (Err (IncompleteFrame needed))
       | Complete f consumed \<Rightarrow>
           if consumed = length input then Some (Ok f) else Some (Err (TrailingBytes (length input - consumed))))"

datatype trailing_policy = Allow | Reject

definition decode_with_policy :: "frame_limits \<Rightarrow> bytes \<Rightarrow> trailing_policy \<Rightarrow> (decode_error, decode_outcome) panicking" where
  "decode_with_policy l input policy =
     attempt (decode l input) (\<lambda>r. case (policy, r) of
         (Reject, Complete f consumed) \<Rightarrow>
           if consumed \<noteq> length input then Some (Err (TrailingBytes (length input - consumed))) else Some (Ok r)
       | _ \<Rightarrow> Some (Ok r))"

definition decode_remote_error :: "frame_limits \<Rightarrow> bridge_frame \<Rightarrow> (remote_error_decode_error, remote_error) panicking" where
  "decode_remote_error l f =
     (if fr_kind f \<noteq> ErrorMessage then Some (Err (WrongMessageKind (fr_kind f)))
      else decode_payload_with_limit (fr_payload f) (max_error_message_len l))"

end
