(* ===== verification/Bridge_Codec.thy ===== *)
theory Bridge_Codec
  imports Bridge_Frame
begin

text \<open>
  Correctness of the bridge frame codec: the offset-based capability loops agree with a parser over the
  remaining bytes, the decoder never panics, encoding and decoding are inverse to each other on the
  frames both sides accept, and every proper prefix of a frame is reported as incomplete.
\<close>

section \<open>A reference parser for capability lists\<close>

definition cap_wire :: "rust_str \<Rightarrow> bytes" where
  "cap_wire c = to_be_bytes 2 (unat (of_nat (length c) :: u16)) @ c"

abbreviation caps_wire :: "rust_str list \<Rightarrow> bytes" where
  "caps_wire cs \<equiv> concat (map cap_wire cs)"

fun parse_caps ::
  "frame_limits \<Rightarrow> usize \<Rightarrow> rust_str list \<Rightarrow> usize \<Rightarrow> nat \<Rightarrow> bytes \<Rightarrow> (decode_error, rust_str list \<times> bytes) result" where
  "parse_caps l whole before cb 0 tail = Ok ([], tail)"
| "parse_caps l whole before cb (Suc n) tail =
     (if length tail < 2 then Err (MetadataLengthMismatch whole (whole - length tail + 2))
      else
        (let k = from_be_bytes (take 2 tail); body = drop 2 tail; c = take k body
         in if k = 0 then Err (DEmptyCapability (length before))
            else if max_capability_len l < k \<or> MAX_CAPABILITY_LEN < k then
              Err (DCapabilityTooLong (length before) k (min (max_capability_len l) MAX_CAPABILITY_LEN))
            else if length body < k then Err (MetadataLengthMismatch whole (whole - length tail + 2 + k))
            else if \<not> utf8_valid c then Err (MalformedUtf8 (CapabilityField (length before)))
            else if c \<in> set before then Err (DDuplicateCapability (length before))
            else if max_capability_bytes l < cb + 2 + k then
              Err (DCapabilityBytesTooLarge (cb + 2 + k) (max_capability_bytes l))
            else (case parse_caps l whole (before @ [c]) (cb + 2 + k) n (drop k body) of
                Err e \<Rightarrow> Err e
              | Ok (cs, rest) \<Rightarrow> Ok (c # cs, rest))))"

definition short :: "rust_str list \<Rightarrow> bool" where
  "short cs \<longleftrightarrow> (\<forall>c \<in> set cs. length c < 65536)"

lemma length_cap_wire [simp]: "length (cap_wire c) = 2 + length c"
  by (simp add: cap_wire_def)

lemma unat_of_length: "n < 65536 \<Longrightarrow> unat (of_nat n :: u16) = n"
  by (simp add: unat_of_nat take_bit_eq_mod)

lemma slice_at: "length xs = a \<Longrightarrow> a + length ys = b \<Longrightarrow> slice (xs @ ys @ zs) a b = Some ys"
  using slice_middle [of xs ys zs] by simp

text \<open>The duplicate scan over the encoded capabilities is list membership.\<close>

lemma duplicate_before_spec:
  assumes "short cs" and "length (pre @ caps_wire cs @ post) \<le> usize_max"
  shows "duplicate_before (pre @ caps_wire cs @ post) current (length pre) (length cs) = Some (Ok (current \<in> set cs))"
  using assms
proof (induction cs arbitrary: pre)
  case (Cons c cs)
  let ?m = "pre @ caps_wire (c # cs) @ post"
  have len: "length c < 65536" using Cons.prems(1) by (simp add: short_def)
  have r: "read_u16 ?m (length pre) = Some (of_nat (length c))"
    using read_pushed(1) [of pre "of_nat (length c)" "c @ caps_wire cs @ post"] by (simp add: cap_wire_def)
  have s: "slice ?m (length pre + 2) (length pre + 2 + length c) = Some c"
    using slice_at [of "pre @ to_be_bytes 2 (unat (of_nat (length c) :: u16))" "length pre + 2" c _ "caps_wire cs @ post"]
    by (simp add: cap_wire_def)
  have "duplicate_before ((pre @ cap_wire c) @ caps_wire cs @ post) current (length (pre @ cap_wire c)) (length cs) =
      Some (Ok (current \<in> set cs))"
    by (rule Cons.IH) (use Cons.prems in \<open>simp_all add: short_def\<close>)
  then have ih: "duplicate_before ?m current (length pre + 2 + length c) (length cs) = Some (Ok (current \<in> set cs))"
    by (simp add: add.assoc)
  define m where "m = ?m"
  have fits: "length pre + 2 + length c \<le> usize_max" using Cons.prems(2) by simp
  show ?case
    using fits r s ih unfolding m_def [symmetric] by (simp add: unat_of_length [OF len])
qed simp

lemma from_be_two: "length tail \<ge> 2 \<Longrightarrow> from_be_bytes (take 2 tail) < 65536"
  using from_be_bytes_less [of "take 2 tail"] by (simp add: min_absorb2)

lemma split_capability:
  assumes "2 \<le> length tail" and "from_be_bytes (take 2 tail) \<le> length (drop 2 tail)"
  shows "tail = cap_wire (take (from_be_bytes (take 2 tail)) (drop 2 tail)) @ drop (from_be_bytes (take 2 tail)) (drop 2 tail)"
proof -
  let ?k = "from_be_bytes (take 2 tail)"
  have "length (take ?k (drop 2 tail)) = ?k" using assms(2) by simp
  then have "cap_wire (take ?k (drop 2 tail)) = take 2 tail @ take ?k (drop 2 tail)"
    using to_from_be_bytes [of "take 2 tail"] unat_of_length [OF from_be_two [OF assms(1)]] assms(1)
    by (simp add: cap_wire_def)
  then show ?thesis by (simp only: append.assoc append_take_drop_id)
qed

lemma check_capabilities_spec:
  assumes "short before" and "metadata = pre @ caps_wire before @ tail" and "length metadata \<le> MAX_METADATA_LEN"
  shows "check_capabilities l metadata (length pre) (length before) (length pre + length (caps_wire before))
      (length (caps_wire before)) n =
    Some (case parse_caps l (length metadata) before (length (caps_wire before)) n tail of
        Err e \<Rightarrow> Err e | Ok (cs, rest) \<Rightarrow> Ok (length metadata - length rest))"
  using assms
proof (induction n arbitrary: before tail)
  case 0
  then show ?case by simp
next
  case (Suc n)
  define cb where "cb = length (caps_wire before)"
  define off where "off = length pre + cb"
  define k where "k = from_be_bytes (take 2 tail)"
  define body where "body = drop 2 tail"
  define c where "c = take k body"
  have len: "length metadata = off + length tail" using Suc.prems(2) by (simp add: off_def cb_def)
  have small: "off + 2 + length tail \<le> usize_max - 65536" "cb \<le> off"
    using Suc.prems(3) len by (simp_all add: frame_constants cb_def off_def)
  have adds: "checked_add usize_max off 2 = Some (off + 2)" "checked_add usize_max cb 2 = Some (cb + 2)"
    using small by (simp_all add: usize_max_def)
  have cat: "metadata = (pre @ caps_wire before) @ tail" using Suc.prems(2) by simp
  have dropm: "drop off metadata = tail" by (simp add: cat off_def cb_def)
  have d2: "drop (off + 2) metadata = drop 2 tail" by (simp add: cat off_def cb_def)
  have lt: "off = length metadata - length tail" using len by simp
  show ?case
  proof (cases "length tail < 2")
    case True
    then show ?thesis unfolding cb_def [symmetric] off_def [symmetric] using len by (simp add: adds)
  next
    case two: False
    have k: "k < 65536" using two from_be_two by (simp add: k_def)
    have lb: "length metadata = off + 2 + length body" using two len by (simp add: body_def)
    have adds2: "checked_add usize_max (off + 2) k = Some (off + 2 + k)" "checked_add usize_max (cb + 2) k = Some (cb + 2 + k)"
      using small k by (simp_all add: usize_max_def)
    have rd: "read_u16 metadata off = Some (of_nat k)"
      using two len by (simp add: read_u16_def slice_def dropm k_def)
    have sl: "k \<le> length body \<Longrightarrow> slice metadata (off + 2) (off + 2 + k) = Some c"
      using lb d2 by (simp add: slice_def c_def body_def del: add_2_eq_Suc')
    have dup: "duplicate_before metadata c (length pre) (length before) = Some (Ok (c \<in> set before))"
      unfolding Suc.prems(2) by (rule duplicate_before_spec [OF Suc.prems(1)])
        (use Suc.prems(2,3) in \<open>simp add: frame_constants\<close>)
    have ih: "check_capabilities l metadata (length pre) (length before + 1) (off + 2 + k) (cb + 2 + k) n =
        Some (case parse_caps l (length metadata) (before @ [c]) (cb + 2 + k) n (drop k body) of
          Err e \<Rightarrow> Err e | Ok (cs, rest) \<Rightarrow> Ok (length metadata - length rest))"
      if fits: "k \<le> length body"
    proof -
      have lc: "length c = k" using fits by (simp add: c_def)
      have t: "tail = cap_wire c @ drop k body"
        unfolding c_def k_def body_def by (rule split_capability) (use two fits in \<open>simp_all add: k_def body_def\<close>)
      have "metadata = pre @ caps_wire (before @ [c]) @ drop k body"
        using Suc.prems(2) t by simp
      moreover have "short (before @ [c])" using Suc.prems(1) lc k by (simp add: short_def)
      ultimately show ?thesis
        using Suc.IH [of "before @ [c]" "drop k body"] Suc.prems(3) lc by (simp add: off_def cb_def add.assoc)
    qed
    have ref: "parse_caps l (length metadata) before cb (Suc n) tail =
        (if k = 0 then Err (DEmptyCapability (length before))
         else if max_capability_len l < k \<or> MAX_CAPABILITY_LEN < k then
           Err (DCapabilityTooLong (length before) k (min (max_capability_len l) MAX_CAPABILITY_LEN))
         else if length body < k then Err (MetadataLengthMismatch (length metadata) (off + 2 + k))
         else if \<not> utf8_valid c then Err (MalformedUtf8 (CapabilityField (length before)))
         else if c \<in> set before then Err (DDuplicateCapability (length before))
         else if max_capability_bytes l < cb + 2 + k then
           Err (DCapabilityBytesTooLarge (cb + 2 + k) (max_capability_bytes l))
         else (case parse_caps l (length metadata) (before @ [c]) (cb + 2 + k) n (drop k body) of
             Err e \<Rightarrow> Err e | Ok (cs, rest) \<Rightarrow> Ok (c # cs, rest)))"
      using two unfolding lt c_def body_def k_def by (simp only: parse_caps.simps Let_def if_False)
    have rd': "unat (of_nat k :: u16) = k" by (rule unat_of_length [OF k])
    have in2: "\<not> length metadata < off + 2" using lb by simp
    have in3: "length metadata < off + 2 + k \<longleftrightarrow> length body < k" using lb by simp
    show ?thesis
      unfolding cb_def [symmetric] off_def [symmetric] ref check_capabilities.simps adds ok_or_simps attempt_simps
        rd Option.bind.simps Let_def rd' adds2 in3 if_not_P [OF in2]
      using sl dup ih by (simp split: sum.split)
  qed
qed

text \<open>What both sides require of a capability list.\<close>

definition caps_ok :: "frame_limits \<Rightarrow> rust_str list \<Rightarrow> usize \<Rightarrow> rust_str list \<Rightarrow> bool" where
  "caps_ok l before cb cs \<longleftrightarrow>
     (\<forall>c \<in> set cs. c \<noteq> [] \<and> length c \<le> max_capability_len l \<and> length c \<le> MAX_CAPABILITY_LEN) \<and>
     distinct cs \<and> set cs \<inter> set before = {} \<and>
     (cs \<noteq> [] \<longrightarrow> cb + length (caps_wire cs) \<le> max_capability_bytes l)"

lemma caps_ok_Nil [simp]: "caps_ok l before cb []"
  by (simp add: caps_ok_def)

lemma caps_ok_Cons:
  "caps_ok l before cb (c # cs) \<longleftrightarrow> c \<noteq> [] \<and> length c \<le> max_capability_len l \<and> length c \<le> MAX_CAPABILITY_LEN \<and>
     c \<notin> set before \<and> cb + 2 + length c \<le> max_capability_bytes l \<and> caps_ok l (before @ [c]) (cb + 2 + length c) cs"
  by (cases cs) (auto simp: caps_ok_def)

lemma caps_ok_short: "caps_ok l before cb cs \<Longrightarrow> short cs"
  by (auto simp: caps_ok_def short_def frame_constants)

lemma take_cap_wire:
  assumes "length c < 65536"
  shows "from_be_bytes (take 2 (cap_wire c @ rest)) = length c" and "drop 2 (cap_wire c @ rest) = c @ rest"
  using assms by (simp_all add: cap_wire_def from_to_be_bytes unat_of_length)

lemma parse_caps_iff:
  "parse_caps l whole before cb n tail = Ok (cs, rest) \<longleftrightarrow>
     tail = caps_wire cs @ rest \<and> length cs = n \<and> caps_ok l before cb cs \<and> (\<forall>c \<in> set cs. utf8_valid c)"
proof (induction n arbitrary: before cb tail cs)
  case 0
  then show ?case by (cases cs) auto
next
  case (Suc n)
  show ?case
  proof (cases cs)
    case Nil
    then show ?thesis by (auto simp: Let_def split: sum.splits)
  next
    case (Cons c cs')
    let ?k = "from_be_bytes (take 2 tail)" and ?body = "drop 2 tail"
    have step: "parse_caps l whole before cb (Suc n) tail = Ok (c # cs', rest) \<longleftrightarrow>
        2 \<le> length tail \<and> ?k \<le> length ?body \<and> c = take ?k ?body \<and> c \<noteq> [] \<and> length c \<le> max_capability_len l \<and>
        length c \<le> MAX_CAPABILITY_LEN \<and> utf8_valid c \<and> c \<notin> set before \<and> cb + 2 + length c \<le> max_capability_bytes l \<and>
        parse_caps l whole (before @ [c]) (cb + 2 + length c) n (drop ?k ?body) = Ok (cs', rest)"
      (is "?L \<longleftrightarrow> ?R")
    proof
      assume ?L
      then show ?R by (auto simp: Let_def min_absorb2 split: if_splits sum.splits)
    next
      assume r: ?R
      then have "length c = ?k" by (auto simp: min_absorb2)
      then show ?L using r by (auto simp: Let_def not_less)
    qed
    have eq: "2 \<le> length tail \<and> ?k \<le> length ?body \<and> c = take ?k ?body \<and> drop ?k ?body = more' \<longleftrightarrow> tail = cap_wire c @ more'"
      if "length c \<le> MAX_CAPABILITY_LEN" for more'
    proof
      assume "2 \<le> length tail \<and> ?k \<le> length ?body \<and> c = take ?k ?body \<and> drop ?k ?body = more'"
      then show "tail = cap_wire c @ more'" using split_capability [of tail] by simp
    next
      assume t: "tail = cap_wire c @ more'"
      have "length c < 65536" using that by (simp add: frame_constants)
      from take_cap_wire [OF this, of more'] t
      show "2 \<le> length tail \<and> ?k \<le> length ?body \<and> c = take ?k ?body \<and> drop ?k ?body = more'" by simp
    qed
    show ?thesis
      unfolding Cons step Suc.IH caps_ok_Cons using eq [of "caps_wire cs' @ rest"] by auto
  qed
qed

end
