(* ===== verification/Bridge_Header.thy ===== *)
theory Bridge_Header
  imports Bridge_Codec
begin

text \<open>
  The fixed header of a bridge frame: its flags and its field layout, read and written.
\<close>

unbundle bit_operations_syntax

section \<open>Capability loops of the encoder and the copying pass\<close>

lemma copy_capabilities_spec:
  assumes "short cs" and "\<forall>c \<in> set cs. utf8_valid c"
  shows "copy_capabilities (pre @ caps_wire cs @ post) i (length pre) (length cs) = Some (Ok cs)"
  using assms
proof (induction cs arbitrary: pre i)
  case (Cons c cs)
  define m where "m = pre @ caps_wire (c # cs) @ post"
  have len: "length c < 65536" using Cons.prems(1) by (simp add: short_def)
  have r: "read_u16 m (length pre) = Some (of_nat (length c))"
    using read_pushed(1) [of pre "of_nat (length c)" "c @ caps_wire cs @ post"] by (simp add: cap_wire_def m_def)
  have s: "slice m (length pre + 2) (length pre + 2 + length c) = Some c"
    using slice_at [of "pre @ to_be_bytes 2 (unat (of_nat (length c) :: u16))" "length pre + 2" c _ "caps_wire cs @ post"]
    by (simp add: cap_wire_def m_def)
  have "copy_capabilities ((pre @ cap_wire c) @ caps_wire cs @ post) (i + 1) (length (pre @ cap_wire c)) (length cs) = Some (Ok cs)"
    by (rule Cons.IH) (use Cons.prems in \<open>simp_all add: short_def\<close>)
  then have ih: "copy_capabilities m (i + 1) (length pre + 2 + length c) (length cs) = Some (Ok cs)"
    by (simp add: m_def add.assoc)
  show ?case
    unfolding m_def [symmetric] using r s ih Cons.prems(2) by (simp add: unat_of_length [OF len])
qed simp

lemma validate_capabilities_iff:
  assumes "m + length (caps_wire cs) \<le> usize_max" and "cb + length (caps_wire cs) \<le> usize_max"
  shows "validate_capabilities l before m cb cs = Ok m' \<longleftrightarrow> caps_ok l before cb cs \<and> m' = m + length (caps_wire cs)"
  using assms
proof (induction cs arbitrary: before m cb)
  case (Cons c cs)
  have a: "checked_add usize_max m 2 = Some (m + 2)" "checked_add usize_max (m + 2) (length c) = Some (m + 2 + length c)"
    "checked_add usize_max cb 2 = Some (cb + 2)" "checked_add usize_max (cb + 2) (length c) = Some (cb + 2 + length c)"
    using Cons.prems by simp_all
  have ih: "validate_capabilities l (before @ [c]) (m + 2 + length c) (cb + 2 + length c) cs = Ok m' \<longleftrightarrow>
      caps_ok l (before @ [c]) (cb + 2 + length c) cs \<and> m' = m + 2 + length c + length (caps_wire cs)"
    by (rule Cons.IH) (use Cons.prems in simp_all)
  have m: "m + length (caps_wire (c # cs)) = m + 2 + length c + length (caps_wire cs)" by simp
  have u: "length c \<le> MAX_CAPABILITY_LEN \<Longrightarrow> \<not> u16_max < length c" by (simp add: frame_constants)
  show ?case
    unfolding m caps_ok_Cons validate_capabilities.simps Let_def a Option.bind.simps option.case
    using u ih by (auto simp: not_less)
qed auto

lemma caps_wire_bound:
  assumes "caps_ok l before cb cs" and "length cs \<le> MAX_CAPABILITIES"
  shows "length (caps_wire cs) \<le> 66048"
proof -
  have "length (caps_wire cs) \<le> length cs * 258" if "\<forall>c \<in> set cs. length c \<le> 256" for cs
    using that by (induction cs) auto
  moreover have "\<forall>c \<in> set cs. length c \<le> 256" using assms(1) by (auto simp: caps_ok_def frame_constants)
  ultimately have "length (caps_wire cs) \<le> length cs * 258" by blast
  then show ?thesis using assms(2) by (simp add: MAX_CAPABILITIES_def)
qed

section \<open>Flags\<close>

definition known_flags :: "u16 \<Rightarrow> bool" where
  "known_flags f \<longleftrightarrow> f AND NOT KNOWN_FLAGS = 0 \<and> \<not> (f AND FLAG_CANCEL_REQUESTED \<noteq> 0 \<and> f AND FLAG_CANCELLED \<noteq> 0)"

lemmas flag_constants = KNOWN_FLAGS_def FLAG_CANCEL_REQUESTED_def FLAG_CANCELLED_def FLAG_PROFILE_PRESENT_def

lemma frame_flags_read:
  "known_flags (frame_flags c p)" "flags_cancellation (frame_flags c p) = c"
  "frame_flags c p AND FLAG_PROFILE_PRESENT \<noteq> 0 \<longleftrightarrow> p"
  by (cases c; cases p; simp add: frame_flags_def known_flags_def flags_cancellation_def flag_constants)+

lemma known_flags_cases:
  assumes "known_flags f"
  shows "f \<in> {0, 1, 2, 4, 5, 6}"
proof -
  have k: "KNOWN_FLAGS = mask 3" by (simp add: flag_constants mask_eq_exp_minus_1)
  have "f = f AND KNOWN_FLAGS"
    using assms unfolding known_flags_def by (metis and.comm_neutral bit.conj_disj_distrib bit.disj_cancel_right or.right_neutral)
  then have "f = take_bit 3 f" unfolding k by (simp add: take_bit_eq_mask)
  then have "unat f = take_bit 3 (unat f)" by (metis unsigned_take_bit_eq)
  moreover have "take_bit 3 (unat f) < 8" using take_bit_nat_less_exp [of 3 "unat f"] by simp
  ultimately have "unat f < 8" by (simp only:)
  then have "unat f \<in> {0, 1, 2, 3, 4, 5, 6, 7}" by auto
  moreover have of_nat_unat: "(of_nat (unat f) :: u16) = f" by simp
  ultimately have "(of_nat (unat f) :: u16) \<in> of_nat ` {0, 1, 2, 3, 4, 5, 6, 7}" by blast
  then have "f \<in> {0, 1, 2, 3, 4, 5, 6, 7}" by (simp only: of_nat_unat image_insert image_empty of_nat_numeral of_nat_1 semiring_1_class.of_nat_0)
  moreover have "f \<noteq> 3" "f \<noteq> 7" using assms by (auto simp: known_flags_def flag_constants)
  ultimately show ?thesis by blast
qed

lemma frame_flags_written:
  "known_flags f \<Longrightarrow> frame_flags (flags_cancellation f) (f AND FLAG_PROFILE_PRESENT \<noteq> 0) = f"
  using known_flags_cases [of f] by (auto simp: frame_flags_def flags_cancellation_def flag_constants)

section \<open>The header\<close>

definition header_bytes :: "wire_header \<Rightarrow> bytes" where
  "header_bytes h = MAGIC @ [PROTOCOL_VERSION] @ [kind_byte (wh_kind h)] @ to_be_bytes 2 (unat (wh_flags h)) @
     to_be_bytes 8 (unat (wh_request_id h)) @ to_be_bytes 8 (unat (wh_deadline h)) @
     to_be_bytes 2 (wh_profile_len h) @ to_be_bytes 2 (wh_capability_count h) @
     to_be_bytes 4 (wh_metadata_len h) @ to_be_bytes 4 (wh_payload_len h)"

definition header_wf :: "wire_header \<Rightarrow> bool" where
  "header_wf h \<longleftrightarrow> known_flags (wh_flags h) \<and> wh_profile_len h < 2 ^ 16 \<and> wh_capability_count h < 2 ^ 16 \<and>
     wh_metadata_len h < 2 ^ 32 \<and> wh_payload_len h < 2 ^ 32"

lemma length_header_bytes [simp]: "length (header_bytes h) = 36"
  by (simp add: header_bytes_def MAGIC_def)

lemma kind_from_wire_iff: "kind_from_wire b = Ok k \<longleftrightarrow> b = kind_byte k"
  by (cases k) (auto simp: kind_from_wire_def)

lemma read_at:
  "bs = xs @ to_be_bytes 2 (unat a) @ zs \<Longrightarrow> length xs = off \<Longrightarrow> read_u16 bs off = Some a"
  "bs = xs @ to_be_bytes 4 (unat b) @ zs \<Longrightarrow> length xs = off \<Longrightarrow> read_u32 bs off = Some b"
  "bs = xs @ to_be_bytes 8 (unat c) @ zs \<Longrightarrow> length xs = off \<Longrightarrow> read_u64 bs off = Some c"
  using read_pushed by auto

lemma header_read:
  assumes "header_wf h"
  shows "read_header (header_bytes h @ rest) = Some (Ok h)"
proof -
  have u: "unat (of_nat (wh_profile_len h) :: u16) = wh_profile_len h" "unat (of_nat (wh_capability_count h) :: u16) = wh_capability_count h"
    "unat (of_nat (wh_metadata_len h) :: u32) = wh_metadata_len h" "unat (of_nat (wh_payload_len h) :: u32) = wh_payload_len h"
    using assms by (simp_all add: header_wf_def unat_of_nat take_bit_eq_mod)
  define i where "i = header_bytes h @ rest"
  note d = i_def header_bytes_def MAGIC_def
  let ?p = "MAGIC @ [PROTOCOL_VERSION] @ [kind_byte (wh_kind h)]"
  let ?q = "?p @ to_be_bytes 2 (unat (wh_flags h))"
  let ?r = "?q @ to_be_bytes 8 (unat (wh_request_id h))"
  let ?s = "?r @ to_be_bytes 8 (unat (wh_deadline h))"
  let ?t = "?s @ to_be_bytes 2 (wh_profile_len h)"
  let ?v = "?t @ to_be_bytes 2 (wh_capability_count h)"
  let ?w = "?v @ to_be_bytes 4 (wh_metadata_len h)"
  have "read_u16 i 6 = Some (wh_flags h)" by (rule read_at(1) [where xs = ?p]) (simp_all add: d)
  moreover have "read_u64 i 8 = Some (wh_request_id h)" by (rule read_at(3) [where xs = ?q]) (simp_all add: d)
  moreover have "read_u64 i 16 = Some (wh_deadline h)" by (rule read_at(3) [where xs = ?r]) (simp_all add: d)
  moreover have "read_u16 i 24 = Some (of_nat (wh_profile_len h))"
    by (rule read_at(1) [where xs = ?s]) (simp_all add: d u)
  moreover have "read_u16 i 26 = Some (of_nat (wh_capability_count h))"
    by (rule read_at(1) [where xs = ?t]) (simp_all add: d u)
  moreover have "read_u32 i 28 = Some (of_nat (wh_metadata_len h))"
    by (rule read_at(2) [where xs = ?v]) (simp_all add: d u)
  moreover have "read_u32 i 32 = Some (of_nat (wh_payload_len h))"
    by (rule read_at(2) [where xs = ?w]) (simp_all add: d u)
  moreover have "slice i 0 (length MAGIC) = Some MAGIC" "vec_get i 4 = Some PROTOCOL_VERSION" "vec_get i 5 = Some (kind_byte (wh_kind h))"
    by (simp_all add: d slice_def vec_get_def)
  moreover have "kind_from_wire (kind_byte (wh_kind h)) = Ok (wh_kind h)" by (simp add: kind_from_wire_iff)
  ultimately show ?thesis
    unfolding i_def [symmetric] using assms u by (simp add: read_header_def read_lengths_def header_wf_def known_flags_def)
qed

lemma header_layout:
  fixes input :: bytes
  assumes "36 \<le> length input"
  shows "take 36 input = take 4 input @ take 1 (drop 4 input) @ take 1 (drop 5 input) @ take 2 (drop 6 input) @
    take 8 (drop 8 input) @ take 8 (drop 16 input) @ take 2 (drop 24 input) @ take 2 (drop 26 input) @
    take 4 (drop 28 input) @ take 4 (drop 32 input)"
proof -
  have p: "take m (drop a xs) = take n (drop a xs) @ take (m - n) (drop (a + n) xs)" if "n \<le> m" for m n a and xs :: bytes
    using take_add [of n "m - n" "drop a xs"] that by (simp add: add.commute)
  have "take 36 input = take 4 input @ take 32 (drop 4 input)" using take_add [of 4 32 input] by simp
  also have "take 32 (drop 4 input) = take 1 (drop 4 input) @ take 31 (drop 5 input)" using p [of 1 32 4 input] by simp
  also have "take 31 (drop 5 input) = take 1 (drop 5 input) @ take 30 (drop 6 input)" using p [of 1 31 5 input] by simp
  also have "take 30 (drop 6 input) = take 2 (drop 6 input) @ take 28 (drop 8 input)" using p [of 2 30 6 input] by simp
  also have "take 28 (drop 8 input) = take 8 (drop 8 input) @ take 20 (drop 16 input)" using p [of 8 28 8 input] by simp
  also have "take 20 (drop 16 input) = take 8 (drop 16 input) @ take 12 (drop 24 input)" using p [of 8 20 16 input] by simp
  also have "take 12 (drop 24 input) = take 2 (drop 24 input) @ take 10 (drop 26 input)" using p [of 2 12 24 input] by simp
  also have "take 10 (drop 26 input) = take 2 (drop 26 input) @ take 8 (drop 28 input)" using p [of 2 10 26 input] by simp
  also have "take 8 (drop 28 input) = take 4 (drop 28 input) @ take 4 (drop 32 input)" using p [of 4 8 28 input] by simp
  finally show ?thesis .
qed

lemma bind_eq_Ok: "Option.bind m f = Some r \<longleftrightarrow> (\<exists>v. m = Some v \<and> f v = Some r)"
  by (cases m) auto

lemma byte_at: "vec_get xs i = Some b \<Longrightarrow> take 1 (drop i xs) = [b]"
  by (simp add: vec_get_eq_Some Cons_nth_drop_Suc [symmetric])

lemma header_written:
  assumes "36 \<le> length input" and "read_header input = Some (Ok h)"
  shows "take 36 input = header_bytes h" and "header_wf h"
proof -
  have lM: "length MAGIC = 4" by (simp add: MAGIC_def)
  obtain flags where m: "take 4 input = MAGIC" and v: "vec_get input 4 = Some PROTOCOL_VERSION"
    and k: "vec_get input 5 = Some (kind_byte (wh_kind h))" and f: "read_u16 input 6 = Some flags" "known_flags flags"
    and r: "read_lengths input (wh_kind h) flags = Some (Ok h)"
  proof -
    obtain magic version kb kind flags where "slice input 0 (length MAGIC) = Some magic" "magic = MAGIC"
      "vec_get input 4 = Some version" "version = PROTOCOL_VERSION" "vec_get input 5 = Some kb" "kind_from_wire kb = Ok kind"
      "read_u16 input 6 = Some flags" "known_flags flags" "read_lengths input kind flags = Some (Ok h)"
      using assms(2) unfolding read_header_def bind_eq_Ok
      by (auto simp: bind_eq_Ok known_flags_def split: if_splits)
    moreover from this have "wh_kind h = kind" by (auto simp: read_lengths_def bind_eq_Ok)
    ultimately show ?thesis using that assms(1) lM by (simp add: slice_def kind_from_wire_iff)
  qed
  obtain rid dl pl cc ml pay where l: "read_u64 input 8 = Some rid" "read_u64 input 16 = Some dl" "read_u16 input 24 = Some pl"
    "read_u16 input 26 = Some cc" "read_u32 input 28 = Some ml" "read_u32 input 32 = Some pay"
    and h: "h = \<lparr>wh_kind = wh_kind h, wh_flags = flags, wh_request_id = rid, wh_deadline = dl, wh_profile_len = unat pl,
       wh_capability_count = unat cc, wh_metadata_len = unat ml, wh_payload_len = unat pay\<rparr>"
    using r unfolding read_lengths_def bind_eq_Ok by auto
  have hf: "wh_flags h = flags" "wh_request_id h = rid" "wh_deadline h = dl" "wh_profile_len h = unat pl"
    "wh_capability_count h = unat cc" "wh_metadata_len h = unat ml" "wh_payload_len h = unat pay"
    by (subst h, simp)+
  note pr = push_read(1) [OF f(1)] push_read(3) [OF l(1)] push_read(3) [OF l(2)] push_read(1) [OF l(3)]
    push_read(1) [OF l(4)] push_read(2) [OF l(5)] push_read(2) [OF l(6)]
  show "take 36 input = header_bytes h"
    unfolding header_layout [OF assms(1)] header_bytes_def hf m byte_at [OF v] byte_at [OF k] using pr by simp
  show "header_wf h"
    using f(2) unat_less [of pl] unat_less [of cc] unat_less [of ml] unat_less [of pay] by (simp add: header_wf_def hf)
qed

lemma header_total:
  assumes "36 \<le> length input"
  shows "\<exists>r. read_header input = Some r"
proof -
  have lM: "length MAGIC = 4" by (simp add: MAGIC_def)
  obtain f rid dl pl cc ml pay where "read_u16 input 6 = Some f" "read_u64 input 8 = Some rid" "read_u64 input 16 = Some dl"
    "read_u16 input 24 = Some pl" "read_u16 input 26 = Some cc" "read_u32 input 28 = Some ml" "read_u32 input 32 = Some pay"
    using read_in_range(1) [of 6 input] read_in_range(3) [of 8 input] read_in_range(3) [of 16 input] read_in_range(1) [of 24 input]
      read_in_range(1) [of 26 input] read_in_range(2) [of 28 input] read_in_range(2) [of 32 input] assms by auto
  moreover have "slice input 0 (length MAGIC) = Some (take 4 input)" using assms by (simp add: slice_def lM)
  ultimately show ?thesis
    using assms by (cases "kind_from_wire (input ! 5)") (simp_all add: read_header_def read_lengths_def vec_get_def)
qed

end
