(* ===== verification/Bridge_Roundtrip.thy ===== *)
theory Bridge_Roundtrip
  imports Bridge_Header
begin

text \<open>
  Encoder against decoder of the bridge frame codec. \<open>wire\<close> is the byte layout of a frame as one
  expression; the encoder produces it for the frames that fit the limits, and the decoder accepts
  exactly these byte strings.
\<close>

unbundle bit_operations_syntax

section \<open>The layout of a frame\<close>

definition profile_bytes_of :: "bridge_frame \<Rightarrow> bytes" where
  "profile_bytes_of f = (case fr_profile f of None \<Rightarrow> [] | Some p \<Rightarrow> p)"

definition metadata_of :: "bridge_frame \<Rightarrow> bytes" where
  "metadata_of f = profile_bytes_of f @ caps_wire (fr_capabilities f)"

definition header_of :: "bridge_frame \<Rightarrow> wire_header" where
  "header_of f = \<lparr>wh_kind = fr_kind f, wh_flags = frame_flags (fr_cancellation f) (fr_profile f \<noteq> None),
     wh_request_id = fr_request_id f, wh_deadline = (case fr_deadline f of None \<Rightarrow> 0 | Some t \<Rightarrow> t),
     wh_profile_len = length (profile_bytes_of f), wh_capability_count = length (fr_capabilities f),
     wh_metadata_len = length (metadata_of f), wh_payload_len = length (fr_payload f)\<rparr>"

definition wire :: "bridge_frame \<Rightarrow> bytes" where
  "wire f = header_bytes (header_of f) @ metadata_of f @ fr_payload f"

text \<open>Frames as Rust can hold them: strings are UTF-8 and a deadline is never zero.\<close>

definition frame_wf :: "bridge_frame \<Rightarrow> bool" where
  "frame_wf f \<longleftrightarrow> fr_deadline f \<noteq> Some 0 \<and> (\<forall>p \<in> set_option (fr_profile f). utf8_valid p) \<and>
     (\<forall>c \<in> set (fr_capabilities f). utf8_valid c)"

definition frame_fits :: "frame_limits \<Rightarrow> bridge_frame \<Rightarrow> bool" where
  "frame_fits l f \<longleftrightarrow> validate_frame_semantics f (max_error_message_len l) = Some (Ok ()) \<and>
     length (fr_payload f) \<le> max_payload_len l \<and>
     (\<forall>p \<in> set_option (fr_profile f). p \<noteq> []) \<and> length (profile_bytes_of f) \<le> max_profile_len l \<and>
     length (fr_capabilities f) \<le> max_capabilities l \<and> caps_ok l [] 0 (fr_capabilities f) \<and>
     length (metadata_of f) \<le> max_metadata_len l"

text \<open>The bound that only the decoder puts on error payloads.\<close>

definition error_payload_fits :: "frame_limits \<Rightarrow> bridge_frame \<Rightarrow> bool" where
  "error_payload_fits l f \<longleftrightarrow> (fr_kind f = ErrorMessage \<longrightarrow>
     length (fr_payload f) \<le> ERROR_PAYLOAD_HEADER_LEN + max_error_message_len l)"

lemma limits_facts:
  assumes "limits_validate l = Ok ()"
  shows "36 + max_payload_len l + max_metadata_len l \<le> max_frame_bytes l" "max_frame_bytes l \<le> 16777216"
    "max_metadata_len l \<le> 65536" "max_profile_len l \<le> 256" "max_capabilities l \<le> 256"
    "max_capability_len l \<le> 256" "max_capability_bytes l \<le> max_metadata_len l" "max_error_message_len l \<le> 4096"
  using assms by (auto simp: limits_validate_def frame_constants Let_def split: if_splits option.splits)

lemma header_of_wf:
  assumes "limits_validate l = Ok ()" and "frame_fits l f"
  shows "header_wf (header_of f)"
  using assms(2) limits_facts [OF assms(1)] frame_flags_read(1)
  by (simp add: header_wf_def header_of_def frame_fits_def)

lemma length_wire: "length (wire f) = 36 + length (metadata_of f) + length (fr_payload f)"
  by (simp add: wire_def)

section \<open>The encoder\<close>

lemma fold_push_capability: "fold push_capability cs bs = bs @ caps_wire cs"
  by (induction cs arbitrary: bs) (simp_all add: push_capability_def push_u16_def cap_wire_def)

lemma write_frame_wire:
  assumes "limits_validate l = Ok ()" and "frame_fits l f"
  shows "write_frame f (length (metadata_of f)) (length (fr_payload f)) = wire f"
proof -
  note b = limits_facts [OF assms(1)]
  have "unat (of_nat (length (profile_bytes_of f)) :: u16) = length (profile_bytes_of f)"
    "unat (of_nat (length (fr_capabilities f)) :: u16) = length (fr_capabilities f)"
    "unat (of_nat (length (metadata_of f)) :: u32) = length (metadata_of f)"
    "unat (of_nat (length (fr_payload f)) :: u32) = length (fr_payload f)"
    using assms(2) b by (simp_all add: frame_fits_def unat_of_nat take_bit_eq_mod)
  moreover have "(case fr_profile f of None \<Rightarrow> 0 | Some p \<Rightarrow> length p) = length (profile_bytes_of f)"
    by (simp add: profile_bytes_of_def split: option.splits)
  moreover have "(case fr_profile f of None \<Rightarrow> bs | Some p \<Rightarrow> bs @ p) = bs @ profile_bytes_of f" for bs
    by (simp add: profile_bytes_of_def split: option.splits)
  ultimately show ?thesis
    by (simp add: write_frame_def wire_def header_bytes_def header_of_def metadata_of_def push_u16_def push_u32_def push_u64_def
        fold_push_capability Let_def)
qed

lemma validate_capabilities_small:
  "validate_capabilities l before m cb cs = Ok m' \<Longrightarrow> c \<in> set cs \<Longrightarrow> length c \<le> 256"
  by (induction cs arbitrary: before m cb)
    (auto simp: Let_def frame_constants not_less split: if_splits option.splits)

lemma validate_capabilities_top:
  assumes "length cs \<le> 256" and "m \<le> 256"
  shows "validate_capabilities l [] m 0 cs = Ok m' \<longleftrightarrow> caps_ok l [] 0 cs \<and> m' = m + length (caps_wire cs)"
proof (cases "\<forall>c \<in> set cs. length c \<le> 256")
  case True
  have "length (caps_wire cs) \<le> length cs * 258" if "\<forall>c \<in> set cs. length c \<le> 256" for cs
    using that by (induction cs) auto
  then have "length (caps_wire cs) \<le> 258 * 256" using True assms(1) by fastforce
  then show ?thesis using assms(2) validate_capabilities_iff [of m cs 0 l "[]" m'] by (simp add: frame_constants del: length_concat)
next
  case False
  then have "\<not> caps_ok l [] 0 cs" by (auto simp: caps_ok_def frame_constants)
  then show ?thesis using False validate_capabilities_small by blast
qed

lemma map_error_Ok [simp]: "map_error f r = Ok a \<longleftrightarrow> r = Ok a"
  by (cases r) (simp_all add: map_error_def)

lemma validate_frame_iff:
  assumes "limits_validate l = Ok ()"
  shows "validate_frame l f = Some (Ok (m, p)) \<longleftrightarrow> frame_fits l f \<and> m = length (metadata_of f) \<and> p = length (fr_payload f)"
proof -
  note b = limits_facts [OF assms]
  have prof: "validate_profile l (fr_profile f) = Ok k \<longleftrightarrow>
      k = length (profile_bytes_of f) \<and> (\<forall>p \<in> set_option (fr_profile f). p \<noteq> []) \<and> k \<le> max_profile_len l" for k
    using b(4) by (cases "fr_profile f") (auto simp: validate_profile_def profile_bytes_of_def frame_constants)
  have sem: "map_option (map_error InvalidFrame) (validate_frame_semantics f (max_error_message_len l)) = Some (Ok ()) \<longleftrightarrow>
      validate_frame_semantics f (max_error_message_len l) = Some (Ok ())"
    by (auto simp: map_error_Ok)
  have caps: "length (fr_capabilities f) \<le> max_capabilities l \<Longrightarrow> k \<le> max_profile_len l \<Longrightarrow>
      validate_capabilities l [] k 0 (fr_capabilities f) = Ok m \<longleftrightarrow>
      caps_ok l [] 0 (fr_capabilities f) \<and> m = k + length (caps_wire (fr_capabilities f))" for k
    using b(4,5) by (intro validate_capabilities_top) simp_all
  have ml: "length (metadata_of f) = length (profile_bytes_of f) + length (caps_wire (fr_capabilities f))"
    by (simp add: metadata_of_def)
  show ?thesis
    unfolding validate_frame_def Let_def frame_fits_def
    using b caps ml by (auto simp: prof sem frame_constants not_less simp del: length_concat split: if_splits)
qed

text \<open>The encoder accepts exactly the frames that fit, and writes the layout.\<close>

lemma encode_iff:
  assumes "limits_validate l = Ok ()"
  shows "encode l f = Some (Ok bs) \<longleftrightarrow> frame_fits l f \<and> bs = wire f"
proof -
  note b = limits_facts [OF assms]
  let ?m = "length (metadata_of f)" and ?p = "length (fr_payload f)"
  have fits: "36 + ?m + ?p \<le> max_frame_bytes l" if "frame_fits l f" using that b(1) by (simp add: frame_fits_def)
  have sum: "Option.bind (checked_add usize_max HEADER_LEN ?m) (\<lambda>n. checked_add usize_max n ?p) = Some (36 + ?m + ?p)"
    if "frame_fits l f" using fits [OF that] b(2) by (simp add: frame_constants)
  have "encode l f = Some (Ok bs) \<longleftrightarrow> frame_fits l f \<and> bs = write_frame f ?m ?p"
  proof
    assume "encode l f = Some (Ok bs)"
    then show "frame_fits l f \<and> bs = write_frame f ?m ?p"
      unfolding encode_def by (auto simp: validate_frame_iff [OF assms] split: if_splits)
  next
    assume r: "frame_fits l f \<and> bs = write_frame f ?m ?p"
    then have "validate_frame l f = Some (Ok (?m, ?p))" by (simp add: validate_frame_iff [OF assms])
    then show "encode l f = Some (Ok bs)"
      using r fits sum b(2) unfolding encode_def assms map_error_def by (simp add: MAX_FRAME_BYTES_def)
  qed
  then show ?thesis using write_frame_wire [OF assms] by auto
qed

section \<open>The decoder\<close>

text \<open>Reads of the decoder stay inside their slices.\<close>

lemma error_payload_total: "\<exists>r. validate_remote_error_payload payload maximum = Some r"
proof (cases "length payload < ERROR_PAYLOAD_HEADER_LEN")
  case True
  then show ?thesis by (simp add: validate_remote_error_payload_def)
next
  case False
  then have len: "5 \<le> length payload" by (simp add: frame_constants)
  obtain c n where "read_u16 payload 0 = Some c" "read_u16 payload 3 = Some n"
    using read_in_range(1) [of 0 payload] read_in_range(1) [of 3 payload] len by auto
  moreover have "vec_get payload 2 = Some (payload ! 2)" using len by simp
  moreover have "slice payload ERROR_PAYLOAD_HEADER_LEN (length payload) = Some (drop 5 payload)"
    using len by (simp add: slice_def frame_constants)
  ultimately show ?thesis
    using False by (auto simp: validate_remote_error_payload_def Let_def attempt_def split: sum.split)
qed

lemma read_profile_iff:
  assumes "n \<le> usize_max"
  shows "read_profile md n = Some (Ok (pb, off)) \<longleftrightarrow> off = n \<and> n \<le> length md \<and>
    pb = (if n = 0 then None else Some (take n md)) \<and> (n \<noteq> 0 \<longrightarrow> utf8_valid (take n md))"
  using assms by (auto simp: read_profile_def slice_def)

lemma read_profile_total: "\<exists>r. read_profile md n = Some r"
proof (cases "checked_add usize_max 0 n")
  case None
  then show ?thesis by (simp add: read_profile_def)
next
  case (Some k)
  then show ?thesis by (auto simp: read_profile_def slice_def)
qed

lemma check_lengths_iff:
  assumes "limits_validate l = Ok ()"
  shows "check_lengths l h = Ok n \<longleftrightarrow> n = 36 + wh_metadata_len h + wh_payload_len h \<and>
    wh_payload_len h \<le> max_payload_len l \<and> wh_metadata_len h \<le> max_metadata_len l \<and>
    wh_profile_len h \<le> max_profile_len l \<and> wh_capability_count h \<le> max_capabilities l \<and>
    (wh_kind h = ErrorMessage \<longrightarrow> wh_payload_len h \<le> ERROR_PAYLOAD_HEADER_LEN + max_error_message_len l)"
proof -
  note b = limits_facts [OF assms]
  have e: "min (max_error_message_len l) MAX_ERROR_MESSAGE_LEN = max_error_message_len l" using b(8) by (simp add: frame_constants)
  have e2: "checked_add usize_max ERROR_PAYLOAD_HEADER_LEN (max_error_message_len l) \<noteq> None" using b(8) by (simp add: frame_constants)
  have s: "Option.bind (checked_add usize_max HEADER_LEN (wh_metadata_len h)) (\<lambda>n. checked_add usize_max n (wh_payload_len h)) =
      Some (36 + wh_metadata_len h + wh_payload_len h)"
    if "wh_payload_len h \<le> max_payload_len l" "wh_metadata_len h \<le> max_metadata_len l"
    using that b(1,2) by (simp add: frame_constants)
  have lt: "wh_metadata_len h \<le> max_metadata_len l \<Longrightarrow> \<not> MAX_METADATA_LEN < wh_metadata_len h"
    "wh_profile_len h \<le> max_profile_len l \<Longrightarrow> \<not> MAX_PROFILE_LEN < wh_profile_len h"
    "wh_capability_count h \<le> max_capabilities l \<Longrightarrow> \<not> MAX_CAPABILITIES < wh_capability_count h"
    "wh_payload_len h \<le> max_payload_len l \<Longrightarrow> wh_metadata_len h \<le> max_metadata_len l \<Longrightarrow>
      \<not> max_frame_bytes l < 36 + wh_metadata_len h + wh_payload_len h \<and> \<not> MAX_FRAME_BYTES < 36 + wh_metadata_len h + wh_payload_len h"
    using b by (simp_all add: frame_constants)
  show ?thesis
    unfolding check_lengths_def e using e2 s lt by (auto simp: not_less)
qed

lemma check_capabilities_top:
  assumes "k \<le> length md" and "length md \<le> MAX_METADATA_LEN"
  shows "check_capabilities l md k 0 k 0 n = Some (case parse_caps l (length md) [] 0 n (drop k md) of
      Err e \<Rightarrow> Err e | Ok (cs, rest) \<Rightarrow> Ok (length md - length rest))"
  using check_capabilities_spec [of "[]" md "take k md" "drop k md" l n] assms by (simp add: short_def min_absorb2)

lemma check_capabilities_iff:
  assumes "k \<le> length md" and "length md \<le> MAX_METADATA_LEN"
  shows "check_capabilities l md k 0 k 0 n = Some (Ok (length md)) \<longleftrightarrow>
    (\<exists>cs. drop k md = caps_wire cs \<and> length cs = n \<and> caps_ok l [] 0 cs \<and> (\<forall>c \<in> set cs. utf8_valid c))"
proof -
  have "check_capabilities l md k 0 k 0 n = Some (Ok (length md)) \<longleftrightarrow>
      (\<exists>cs rest. parse_caps l (length md) [] 0 n (drop k md) = Ok (cs, rest) \<and> length md - length rest = length md)"
    unfolding check_capabilities_top [OF assms] by (auto split: sum.splits)
  also have "\<dots> \<longleftrightarrow> (\<exists>cs. parse_caps l (length md) [] 0 n (drop k md) = Ok (cs, []))"
  proof -
    have "rest = []" if "parse_caps l (length md) [] 0 n (drop k md) = Ok (cs, rest)" "length md - length rest = length md" for cs rest
    proof -
      have "drop k md = caps_wire cs @ rest" using that(1) unfolding parse_caps_iff by simp
      then have "length rest \<le> length md" by (metis diff_le_self le_add2 length_append length_drop order_trans)
      then show ?thesis using that(2) by (cases "length rest = 0") (simp, linarith)
    qed
    then show ?thesis by fastforce
  qed
  finally show ?thesis unfolding parse_caps_iff by simp
qed

text \<open>The error code that a zero-ID error frame carries, as both sides compute it.\<close>

definition wire_code :: "frame_limits \<Rightarrow> message_kind \<Rightarrow> 64 word \<Rightarrow> bytes \<Rightarrow> remote_error_code option" where
  "wire_code l kind request_id payload =
     (if kind = ErrorMessage \<and> request_id = 0
      then (case validate_remote_error_payload payload (max_error_message_len l) of Some (Ok c) \<Rightarrow> Some c | _ \<Rightarrow> None)
      else None)"

lemma wire_code_eq:
  "(if kind = ErrorMessage \<and> request_id = 0 then handshake_error_payload_code payload (max_error_message_len l) else Some None) =
   Some (wire_code l kind request_id payload)"
proof -
  obtain r where "validate_remote_error_payload payload (max_error_message_len l) = Some r" using error_payload_total by blast
  then show ?thesis by (cases r) (simp_all add: wire_code_def handshake_error_payload_code_def)
qed

lemma frame_semantics_eq:
  "validate_frame_semantics f (max_error_message_len l) = Some (validate_wire_semantics (fr_kind f) (fr_request_id f)
     (fr_profile f \<noteq> None) (length (fr_capabilities f)) (fr_cancellation f) (wire_code l (fr_kind f) (fr_request_id f) (fr_payload f)))"
  unfolding validate_frame_semantics_def wire_code_eq by simp

definition frame_from :: "wire_header \<Rightarrow> bytes option \<Rightarrow> rust_str list \<Rightarrow> bytes \<Rightarrow> bridge_frame" where
  "frame_from h pb cs payload = \<lparr>fr_kind = wh_kind h, fr_request_id = wh_request_id h,
     fr_deadline = (if wh_deadline h = 0 then None else Some (wh_deadline h)),
     fr_cancellation = flags_cancellation (wh_flags h), fr_profile = pb, fr_capabilities = cs, fr_payload = payload\<rparr>"

lemma finish_frame_eq:
  assumes "copy_capabilities md 0 (wh_profile_len h) (wh_capability_count h) = Some (Ok cs)"
    and "length cs = wh_capability_count h" and "wh_flags h AND FLAG_PROFILE_PRESENT \<noteq> 0 \<longleftrightarrow> pb \<noteq> None"
    and "\<forall>p \<in> set_option pb. utf8_valid p"
  shows "finish_frame l h md payload pb =
    attempt (map_option (map_error DInvalidFrame) (validate_frame_semantics (frame_from h pb cs payload) (max_error_message_len l)))
      (\<lambda>_. Some (Ok (frame_from h pb cs payload)))"
  unfolding finish_frame_def wire_code_eq frame_semantics_eq using assms
  by (simp add: frame_from_def)

definition body_metadata :: "wire_header \<Rightarrow> bytes \<Rightarrow> bytes" where
  "body_metadata h input = take (wh_metadata_len h) (drop 36 input)"

definition body_payload :: "wire_header \<Rightarrow> bytes \<Rightarrow> bytes" where
  "body_payload h input = take (wh_payload_len h) (drop (36 + wh_metadata_len h) input)"

lemma decode_body_eq:
  assumes "limits_validate l = Ok ()" and "check_lengths l h = Ok n" and "n \<le> length input"
  shows "decode_body l h input n =
    (if (wh_flags h AND FLAG_PROFILE_PRESENT \<noteq> 0) \<noteq> (wh_profile_len h \<noteq> 0) then
       Some (Err (ProfileFlagMismatch (wh_flags h AND FLAG_PROFILE_PRESENT \<noteq> 0) (wh_profile_len h)))
     else attempt (read_profile (body_metadata h input) (wh_profile_len h)) (\<lambda>(pb, offset).
       attempt (check_capabilities l (body_metadata h input) (wh_profile_len h) 0 offset 0 (wh_capability_count h)) (\<lambda>offset.
       if offset \<noteq> length (body_metadata h input) then Some (Err (MetadataLengthMismatch (wh_metadata_len h) offset))
       else attempt (finish_frame l h (body_metadata h input) (body_payload h input) pb) (\<lambda>f. Some (Ok (Complete f n))))))"
    and "length (body_metadata h input) = wh_metadata_len h" and "length (body_payload h input) = wh_payload_len h"
    and "length (body_metadata h input) \<le> MAX_METADATA_LEN" and "wh_profile_len h \<le> usize_max"
proof -
  note b = limits_facts [OF assms(1)] and c = assms(2) [unfolded check_lengths_iff [OF assms(1)]]
  have "36 + wh_metadata_len h + wh_payload_len h \<le> length input" using c assms(3) by simp
  then have s: "slice input HEADER_LEN (HEADER_LEN + wh_metadata_len h) = Some (body_metadata h input)"
    "slice input (HEADER_LEN + wh_metadata_len h) (HEADER_LEN + wh_metadata_len h + wh_payload_len h) = Some (body_payload h input)"
    and len: "length (body_metadata h input) = wh_metadata_len h" "length (body_payload h input) = wh_payload_len h"
    by (simp_all add: slice_def HEADER_LEN_def body_metadata_def body_payload_def)
  show "length (body_metadata h input) = wh_metadata_len h" "length (body_payload h input) = wh_payload_len h" by (fact len)+
  show "length (body_metadata h input) \<le> MAX_METADATA_LEN" "wh_profile_len h \<le> usize_max"
    using c b len by (simp_all add: frame_constants)
  show "decode_body l h input n =
    (if (wh_flags h AND FLAG_PROFILE_PRESENT \<noteq> 0) \<noteq> (wh_profile_len h \<noteq> 0) then
       Some (Err (ProfileFlagMismatch (wh_flags h AND FLAG_PROFILE_PRESENT \<noteq> 0) (wh_profile_len h)))
     else attempt (read_profile (body_metadata h input) (wh_profile_len h)) (\<lambda>(pb, offset).
       attempt (check_capabilities l (body_metadata h input) (wh_profile_len h) 0 offset 0 (wh_capability_count h)) (\<lambda>offset.
       if offset \<noteq> length (body_metadata h input) then Some (Err (MetadataLengthMismatch (wh_metadata_len h) offset))
       else attempt (finish_frame l h (body_metadata h input) (body_payload h input) pb) (\<lambda>f. Some (Ok (Complete f n))))))"
    unfolding decode_body_def Let_def s Option.bind.simps ..
qed

text \<open>Past the length checks, the body is accepted exactly when it is the metadata and payload of a
  frame that fits and has this header.\<close>

lemma body_accepted:
  assumes "limits_validate l = Ok ()" and "check_lengths l h = Ok n" and "n \<le> length input" and "header_wf h"
    and "decode_body l h input n = Some (Ok r)"
  obtains f where "r = Complete f n" and "header_of f = h" and "metadata_of f = body_metadata h input"
    and "fr_payload f = body_payload h input" and "frame_wf f" and "frame_fits l f"
proof -
  let ?md = "body_metadata h input" and ?pay = "body_payload h input" and ?k = "wh_profile_len h"
  note e = decode_body_eq [OF assms(1-3)] and c = assms(2) [unfolded check_lengths_iff [OF assms(1)]]
  have flag: "wh_flags h AND FLAG_PROFILE_PRESENT \<noteq> 0 \<longleftrightarrow> ?k \<noteq> 0"
    using assms(5) unfolding e(1) by (auto split: if_splits)
  then obtain pb f where rp: "read_profile ?md ?k = Some (Ok (pb, ?k))"
    and cc: "check_capabilities l ?md ?k 0 ?k 0 (wh_capability_count h) = Some (Ok (length ?md))"
    and ff: "finish_frame l h ?md ?pay pb = Some (Ok f)" and r: "r = Complete f n"
    using assms(5) unfolding e(1) by (auto simp: read_profile_iff [OF e(5)] split: if_splits)
  have k: "?k \<le> length ?md" and pb: "pb = (if ?k = 0 then None else Some (take ?k ?md))" "\<forall>p \<in> set_option pb. utf8_valid p"
    using rp unfolding read_profile_iff [OF e(5)] by auto
  obtain cs where cs: "drop ?k ?md = caps_wire cs" "length cs = wh_capability_count h" "caps_ok l [] 0 cs" "\<forall>c \<in> set cs. utf8_valid c"
    using cc unfolding check_capabilities_iff [OF k e(4)] by blast
  have md: "?md = take ?k ?md @ caps_wire cs" using cs(1) append_take_drop_id [of ?k ?md] by simp
  have cp: "copy_capabilities ?md 0 ?k (wh_capability_count h) = Some (Ok cs)"
    using copy_capabilities_spec [OF caps_ok_short [OF cs(3)] cs(4), of "take ?k ?md" "[]" 0] k md cs(2) by (simp add: min_absorb2)
  have present: "wh_flags h AND FLAG_PROFILE_PRESENT \<noteq> 0 \<longleftrightarrow> pb \<noteq> None" using flag pb(1) by simp
  have fe: "f = frame_from h pb cs ?pay" and sem: "validate_frame_semantics f (max_error_message_len l) = Some (Ok ())"
    using ff unfolding finish_frame_eq [OF cp cs(2) present pb(2)] by auto
  have pf: "profile_bytes_of f = take ?k ?md" by (simp add: fe frame_from_def profile_bytes_of_def pb(1))
  have mf: "metadata_of f = ?md" using md pf by (simp add: metadata_of_def fe frame_from_def)
  have fl: "frame_flags (flags_cancellation (wh_flags h)) (pb \<noteq> None) = wh_flags h"
    using frame_flags_written [of "wh_flags h"] assms(4) unfolding present header_wf_def by blast
  have "header_of f = h"
    using pf mf e(2,3) k cs(2) fl by (simp add: header_of_def fe frame_from_def min_absorb2)
  moreover have "frame_wf f" using pb(2) cs(4) by (simp add: frame_wf_def fe frame_from_def)
  moreover have "frame_fits l f"
    unfolding frame_fits_def mf pf using sem c cs(2,3) e(2,3) k
    by (auto simp: fe frame_from_def pb(1) split: if_splits)
  moreover have "fr_payload f = ?pay" by (simp add: fe frame_from_def)
  ultimately show ?thesis using that r mf by blast
qed

lemma body_of_wire:
  "body_metadata (header_of f) (wire f @ rest) = metadata_of f"
  "body_payload (header_of f) (wire f @ rest) = fr_payload f"
  by (simp_all add: body_metadata_def body_payload_def wire_def header_of_def)

lemma frame_from_header:
  assumes "frame_wf f"
  shows "frame_from (header_of f) (fr_profile f) (fr_capabilities f) (fr_payload f) = f"
proof -
  define d where "d = (case fr_deadline f of None \<Rightarrow> 0 | Some t \<Rightarrow> t)"
  have d: "(if d = 0 then None else Some d) = fr_deadline f"
    using assms by (auto simp: frame_wf_def d_def split: option.splits)
  show ?thesis
    unfolding frame_from_def header_of_def d_def [symmetric] wire_header.select_convs d frame_flags_read by simp
qed

lemma wire_lengths:
  assumes "limits_validate l = Ok ()" and "frame_fits l f" and "error_payload_fits l f"
  shows "check_lengths l (header_of f) = Ok (length (wire f))"
  unfolding check_lengths_iff [OF assms(1)] using assms(2,3)
  by (simp add: header_of_def length_wire frame_fits_def error_payload_fits_def)

lemma wire_body:
  assumes "limits_validate l = Ok ()" and "frame_fits l f" and "error_payload_fits l f" and "frame_wf f"
  shows "decode_body l (header_of f) (wire f @ rest) (length (wire f)) = Some (Ok (Complete f (length (wire f))))"
proof -
  let ?h = "header_of f" and ?md = "metadata_of f" and ?k = "length (profile_bytes_of f)"
  have len: "length (wire f) \<le> length (wire f @ rest)" by simp
  note e = decode_body_eq [OF assms(1) wire_lengths [OF assms(1-3)] len, unfolded body_of_wire]
  have hf: "wh_profile_len ?h = ?k" "wh_capability_count ?h = length (fr_capabilities f)"
    "wh_flags ?h = frame_flags (fr_cancellation f) (fr_profile f \<noteq> None)" by (simp_all add: header_of_def)
  have k: "?k \<le> length ?md" "take ?k ?md = profile_bytes_of f" "drop ?k ?md = caps_wire (fr_capabilities f)"
    by (simp_all add: metadata_of_def)
  have pn: "fr_profile f \<noteq> None \<longleftrightarrow> ?k \<noteq> 0" "(if ?k = 0 then None else Some (profile_bytes_of f)) = fr_profile f"
    using assms(2) by (auto simp: frame_fits_def profile_bytes_of_def split: option.splits)
  have utf: "?k \<noteq> 0 \<longrightarrow> utf8_valid (profile_bytes_of f)" "\<forall>p \<in> set_option (fr_profile f). utf8_valid p" "\<forall>c \<in> set (fr_capabilities f). utf8_valid c"
    using assms(4) by (auto simp: frame_wf_def profile_bytes_of_def split: option.splits)
  have rp: "read_profile ?md ?k = Some (Ok (fr_profile f, ?k))"
    unfolding read_profile_iff [OF e(5) [unfolded hf(1)]] k(2) using k(1) pn(2) utf(1) by auto
  have caps: "caps_ok l [] 0 (fr_capabilities f)" using assms(2) by (simp add: frame_fits_def)
  have cc: "check_capabilities l ?md ?k 0 ?k 0 (length (fr_capabilities f)) = Some (Ok (length ?md))"
    unfolding check_capabilities_iff [OF k(1) e(4)] k(3) using caps utf(3) by blast
  have cp: "copy_capabilities ?md 0 (wh_profile_len ?h) (wh_capability_count ?h) = Some (Ok (fr_capabilities f))"
    using copy_capabilities_spec [OF caps_ok_short [OF caps] utf(3), of "profile_bytes_of f" "[]" 0]
    by (simp add: hf metadata_of_def)
  have pres: "wh_flags ?h AND FLAG_PROFILE_PRESENT \<noteq> 0 \<longleftrightarrow> fr_profile f \<noteq> None" by (simp add: hf frame_flags_read)
  have fin: "finish_frame l ?h ?md (fr_payload f) (fr_profile f) = Some (Ok f)"
    using finish_frame_eq [OF cp hf(2) [symmetric] pres utf(2)] frame_from_header [OF assms(4)] assms(2)
    by (simp add: frame_fits_def map_error_def)
  show ?thesis
    unfolding e(1) pres pn(1) hf(1,2) using rp cc fin by simp
qed

lemma body_total:
  assumes "limits_validate l = Ok ()" and "check_lengths l h = Ok n" and "n \<le> length input"
  shows "\<exists>r. decode_body l h input n = Some r"
proof -
  let ?md = "body_metadata h input" and ?pay = "body_payload h input" and ?k = "wh_profile_len h"
  note e = decode_body_eq [OF assms]
  obtain rp where rp: "read_profile ?md ?k = Some rp" using read_profile_total by blast
  show ?thesis
  proof (cases "(wh_flags h AND FLAG_PROFILE_PRESENT \<noteq> 0) = (?k \<noteq> 0) \<and> (\<exists>pb off. rp = Ok (pb, off))")
    case False
    then show ?thesis unfolding e(1) rp by (cases rp) auto
  next
    case True
    then obtain pb off where ok: "rp = Ok (pb, off)" by blast
    have k: "off = ?k" "?k \<le> length ?md" "pb = (if ?k = 0 then None else Some (take ?k ?md))" "\<forall>p \<in> set_option pb. utf8_valid p"
      using rp unfolding ok read_profile_iff [OF e(5)] by auto
    obtain rc where rc: "check_capabilities l ?md ?k 0 off 0 (wh_capability_count h) = Some rc"
      unfolding k(1) check_capabilities_top [OF k(2) e(4)] by blast
    show ?thesis
    proof (cases "rc = Ok (length ?md)")
      case False
      then show ?thesis unfolding e(1) rp ok by (cases rc) (auto simp: rc)
    next
      case cc: True
      obtain cs where cs: "drop ?k ?md = caps_wire cs" "length cs = wh_capability_count h" "caps_ok l [] 0 cs" "\<forall>c \<in> set cs. utf8_valid c"
        using rc check_capabilities_iff [OF k(2) e(4)] unfolding cc k(1) by blast
      have "?md = take ?k ?md @ caps_wire cs" using cs(1) append_take_drop_id [of ?k ?md] by simp
      then have cp: "copy_capabilities ?md 0 ?k (wh_capability_count h) = Some (Ok cs)"
        using copy_capabilities_spec [OF caps_ok_short [OF cs(3)] cs(4), of "take ?k ?md" "[]" 0] k(2) cs(2) by (simp add: min_absorb2)
      have present: "wh_flags h AND FLAG_PROFILE_PRESENT \<noteq> 0 \<longleftrightarrow> pb \<noteq> None" using True k(3) by simp
      have "\<exists>rf. finish_frame l h ?md ?pay pb = Some rf"
        unfolding finish_frame_eq [OF cp cs(2) present k(4)] frame_semantics_eq by (auto simp: attempt_def split: sum.split)
      then obtain rf where "finish_frame l h ?md ?pay pb = Some rf" ..
      then show ?thesis unfolding e(1) rp ok by (cases rf) (auto simp: rc cc)
    qed
  qed
qed

end
