(* ===== verification/Bridge_Behaviour.thy ===== *)
theory Bridge_Behaviour
  imports Bridge_Roundtrip
begin

text \<open>
  What the bridge codec promises: round trips in both directions, incremental decoding, totality, and
  the one place where encoder and decoder disagree.
\<close>

section \<open>Decoding as a whole\<close>

lemma decode_wire:
  assumes "limits_validate l = Ok ()" and "frame_fits l f" and "error_payload_fits l f" and "frame_wf f"
  shows "decode l (wire f @ rest) = Some (Ok (Complete f (length (wire f))))"
proof -
  have "read_header (wire f @ rest) = Some (Ok (header_of f))"
    using header_read [OF header_of_wf [OF assms(1,2)]] by (simp add: wire_def)
  then show ?thesis
    using wire_body [OF assms, of rest] wire_lengths [OF assms(1-3)] assms(1)
    by (simp add: decode_def map_error_def length_wire HEADER_LEN_def)
qed

lemma decode_valid_limits: "decode l input = Some (Ok r) \<Longrightarrow> limits_validate l = Ok ()"
  by (auto simp: decode_def)


lemma decode_complete:
  assumes "decode l input = Some (Ok (Complete f n))"
  shows "n \<le> length input" and "take n input = wire f" and "frame_fits l f" and "frame_wf f" and "error_payload_fits l f"
proof -
  note lim = decode_valid_limits [OF assms]
  have len: "36 \<le> length input" using assms by (auto simp: decode_def HEADER_LEN_def split: if_splits)
  obtain h m where h: "read_header input = Some (Ok h)" and c: "check_lengths l h = Ok m" and m: "m \<le> length input"
    and b: "decode_body l h input m = Some (Ok (Complete f n))"
    using assms by (auto simp: decode_def split: if_splits)
  note w = header_written [OF len h] and ci = c [unfolded check_lengths_iff [OF lim]]
  obtain f' where f': "Complete f n = Complete f' m" "header_of f' = h" "metadata_of f' = body_metadata h input"
    "fr_payload f' = body_payload h input" "frame_wf f'" "frame_fits l f'"
    by (rule body_accepted [OF lim c m w(2) b])
  then have f: "f' = f" "m = n" by simp_all
  have "take n input = take 36 input @ take (wh_metadata_len h) (drop 36 input) @
      take (wh_payload_len h) (drop (36 + wh_metadata_len h) input)"
    using ci f(2) take_add [of 36 "wh_metadata_len h + wh_payload_len h" input]
      take_add [of "wh_metadata_len h" "wh_payload_len h" "drop 36 input"] by (simp add: ac_simps)
  then show "take n input = wire f"
    using f' f w(1) by (simp add: wire_def body_metadata_def body_payload_def)
  show "n \<le> length input" "frame_fits l f" "frame_wf f" using m f f' by simp_all
  have "wh_kind h = fr_kind f" "wh_payload_len h = length (fr_payload f)"
    using f'(2) f(1) by (auto simp: header_of_def)
  then show "error_payload_fits l f" using ci by (simp add: error_payload_fits_def)
qed

section \<open>Properties\<close>


definition demo_limits :: frame_limits where
  "demo_limits = frame_limits_new 1048576"

definition demo_frame :: bridge_frame where
  "demo_frame = (frame_new Request 7 [1, 2, 3])\<lparr>fr_deadline := Some 9, fr_profile := Some [97], fr_capabilities := [[98], [99, 100]]\<rparr>"

lemma demo_limits_valid: "limits_validate demo_limits = Ok ()"
  by (simp add: demo_limits_def frame_limits_new_def limits_validate_def frame_constants)

lemma demo_frame_fits: "frame_fits demo_limits demo_frame" "frame_wf demo_frame" "error_payload_fits demo_limits demo_frame"
  by (simp_all add: frame_fits_def frame_wf_def error_payload_fits_def validate_frame_semantics_def caps_ok_def metadata_of_def
      profile_bytes_of_def demo_frame_def frame_new_def demo_limits_def frame_limits_new_def frame_constants byte_in_def)



text \<open>C18: The encoding is canonical. Whatever byte string the decoder accepts, the bytes it consumed are
  the encoding of the frame it returned: there is one encoding per frame, and every accepted frame
  respects the limits and holds valid UTF-8.\<close>

theorem decoded_frame_reencodes:
  assumes "decode l input = Some (Ok (Complete f n))"
  shows "n \<le> length input \<and> encode l f = Some (Ok (take n input)) \<and> frame_wf f \<and>
    length (fr_payload f) \<le> max_payload_len l \<and> n \<le> max_frame_bytes l"
proof -
  note lim = decode_valid_limits [OF assms] and d = decode_complete [OF assms]
  have "length (wire f) = n" using d(1,2) by (metis length_take min_absorb2)
  then have "n \<le> max_frame_bytes l"
    using limits_facts(1) [OF lim] d(3) length_wire [of f] by (simp add: frame_fits_def)
  then show ?thesis using d encode_iff [OF lim] by (simp add: frame_fits_def)
qed

theorem decoded_frame_reencodes_witness:
  "encode demo_limits demo_frame = Some (Ok (take (length (wire demo_frame)) (wire demo_frame @ [0, 1])))"
  using decoded_frame_reencodes [OF decode_wire [OF demo_limits_valid demo_frame_fits(1,3,2), of "[0, 1]"]] by blast

text \<open>C19: Every byte string gets an answer: no input and no configuration makes the decoder index or slice
  out of range, including its second pass over the capabilities and the scan for duplicates.\<close>

theorem decode_never_panics: "\<exists>r. decode l input = Some r"
proof (cases "limits_validate l = Ok () \<and> 36 \<le> length input")
  case False
  then show ?thesis by (cases "limits_validate l") (auto simp: decode_def map_error_def HEADER_LEN_def)
next
  case True
  then obtain rh where rh: "read_header input = Some rh" using header_total by blast
  show ?thesis
  proof (cases rh)
    case (Inl e)
    then show ?thesis using True rh by (simp add: decode_def map_error_def)
  next
    case (Inr h)
    show ?thesis
    proof (cases "check_lengths l h")
      case (Inl e)
      then show ?thesis using True rh Inr by (simp add: decode_def map_error_def)
    next
      case c: (Inr n)
      then show ?thesis using True rh Inr body_total [of l h n input] by (simp add: decode_def map_error_def)
    qed
  qed
qed





lemma code_round_trip: "reserved_code c = None \<Longrightarrow> code_from_u16 (code_as_u16 c) = c"
  by (cases c) (auto simp: code_from_u16_def split: if_splits)

text \<open>Structured remote errors survive their payload: code, retry flag and message come back exactly,
  including unknown codes, and a code that only pretends to be unknown is never written.\<close>

theorem remote_error_round_trip:
  assumes "encode_payload_with_limit e maximum = Ok bs" and "utf8_valid (re_message e)"
  shows "decode_payload_with_limit bs maximum = Some (Ok e)"
proof -
  let ?n = "length (re_message e)" and ?f = "if re_retryable e then ERROR_FLAG_RETRYABLE else 0"
  let ?h = "to_be_bytes 2 (unat (code_as_u16 (re_code e))) @ [?f]"
  have res: "reserved_code (re_code e) = None" and n: "?n \<le> maximum" "?n \<le> 4096"
    and bs: "bs = ?h @ to_be_bytes 2 (unat (of_nat ?n :: u16)) @ re_message e"
    using assms(1) by (auto simp: encode_payload_with_limit_def push_u16_def Let_def frame_constants split: option.splits if_splits)
  have u: "unat (of_nat ?n :: u16) = ?n" using n(2) by (simp add: unat_of_length)
  have r0: "read_u16 bs 0 = Some (code_as_u16 (re_code e))" by (rule read_at(1) [where xs = "[]"]) (simp_all add: bs)
  have r3: "read_u16 bs 3 = Some (of_nat ?n)" by (rule read_at(1) [where xs = ?h]) (simp_all add: bs)
  have v2: "vec_get bs 2 = Some ?f" by (simp add: bs vec_get_def nth_append)
  have len: "length bs = 5 + ?n" and dr: "drop 5 bs = re_message e" by (simp_all add: bs)
  have sl: "slice bs ERROR_PAYLOAD_HEADER_LEN (length bs) = Some (re_message e)"
    using len dr by (simp add: slice_def ERROR_PAYLOAD_HEADER_LEN_def)
  have fl: "?f AND NOT ERROR_FLAG_RETRYABLE = 0" "?f AND ERROR_FLAG_RETRYABLE \<noteq> 0 \<longleftrightarrow> re_retryable e"
    by (simp_all add: ERROR_FLAG_RETRYABLE_def)
  have "validate_remote_error_payload bs maximum = Some (Ok (re_code e))"
    using r0 r3 v2 sl len fl(1) u n assms(2) code_round_trip [OF res]
    by (simp add: validate_remote_error_payload_def Let_def frame_constants)
  then show ?thesis using v2 sl fl(2) assms(2) by (simp add: decode_payload_with_limit_def)
qed

lemma remote_error_round_trip_example:
  "\<exists>bs. encode_payload (remote_error_new (UnknownCode 9) True [104, 105]) = Ok bs \<and>
     decode_payload bs = Some (Ok (remote_error_new (UnknownCode 9) True [104, 105]))"
proof -
  obtain bs where e: "encode_payload_with_limit (remote_error_new (UnknownCode 9) True [104, 105]) MAX_ERROR_MESSAGE_LEN = Ok bs"
    by (simp add: encode_payload_with_limit_def remote_error_new_def code_from_u16_def frame_constants Let_def)
  from remote_error_round_trip [OF this] show ?thesis
    using e by (simp add: encode_payload_def decode_payload_def remote_error_new_def byte_in_def)
qed

text \<open>The validation of the capability list by offsets, with its rescan of the earlier entries for every
  new one, computes exactly what a parser over the remaining bytes with a list of the capabilities seen
  so far computes, errors and consumed length included.\<close>

theorem capability_scan_is_reference_parser:
  assumes "k \<le> length metadata" and "length metadata \<le> MAX_METADATA_LEN"
  shows "check_capabilities l metadata k 0 k 0 n =
    Some (case parse_caps l (length metadata) [] 0 n (drop k metadata) of
        Err e \<Rightarrow> Err e | Ok (cs, rest) \<Rightarrow> Ok (length metadata - length rest))"
  by (rule check_capabilities_top [OF assms])

lemma capability_scan_is_reference_parser_example:
  "check_capabilities demo_limits [0, 1, 98, 0, 1, 98] 0 0 0 0 (Suc (Suc 0)) = Some (Err (DDuplicateCapability 1))"
  by (subst capability_scan_is_reference_parser)
    (simp_all add: frame_constants demo_limits_def frame_limits_new_def byte_in_def from_be_bytes_def)

end
