(* ===== verification/Spec2Isabelle.thy ===== *)
theory Spec2Isabelle
  imports Controller_Behaviour Controller_Budget Test_Element Node_Identity Scheduler_Behaviour Critical_Behaviour
    Barrier_Behaviour Bridge_Behaviour
begin

text \<open>
  Verification of the deterministic core of jmeter-rs, a load-test engine that runs Apache JMeter test
  plans. Six parts of the program are modelled. Each is translated from the Rust source definition by
  definition, and its correctness theorems are stated over these definitions.

  \<^bold>\<open>Controllers\<close> (\<open>crates/runtime/src/controllers.rs\<close>). A plan is a tree of controllers and samplers. It is
  compiled to a table of nodes, and one runner per virtual user walks the table with an explicit stack
  of frames, under transition and sample budgets, and reacts to control signals.
  \<^item> \<open>Control_Signal\<close>: \<open>ControlSignal\<close> and \<open>Cancellation\<close>, sequentially and as interleaved compare-exchange
    loops.
  \<^item> \<open>Controller_Program\<close>, \<open>Controller_Compile\<close>: \<open>ControllerNode\<close>, \<open>ControllerLimits\<close> and the iterative
    compiler. It accepts exactly the trees within its bounds, and its errors are true of the tree.
  \<^item> \<open>Random_Stream\<close>: the SplitMix64 stream and its rejection sampling.
  \<^item> \<open>Controller_Runner\<close>: the runner, its frames, the action of every controller kind, the selection loop,
    \<open>apply_next_loop\<close> and the bounded runs.
  \<^item> \<open>Controller_Semantics\<close>: the reference, a recursive traversal of the source tree that returns the
    selected samples and their cost. \<open>Controller_Refinement\<close>, \<open>Controller_Traversal\<close> and
    \<open>Controller_Runs\<close> show by simulation that the runner computes it.
  \<^item> \<open>Controller_Invariant\<close>: what every reachable runner satisfies and what a failing pass leaves behind.
    \<open>Controller_Budget\<close>: budgets and signals on every path. \<open>Controller_Behaviour\<close>: termination and the
    behaviour of single controllers.

  \<^bold>\<open>Identity tree\<close> (\<open>crates/model/src/tree.rs\<close>). Test elements live in a tree that is stored as a map from
  identities to nodes with links in both directions.
  \<^item> \<open>Ordered_Map\<close>: the interface of \<open>BTreeMap\<close> as a locale, and its interpretation by sorted lists.
  \<^item> \<open>Identity_Tree\<close>: \<open>IdentityTree\<close>, its allocator, mutations, validation, traversals and queries, and the
    normalising \<open>HashTree\<close> view.
  \<^item> \<open>Tree_Forest\<close>, \<open>Tree_Mutation\<close>: the abstract specification is an ordered forest. Every mutation refines
    the corresponding operation on forests, and a refused one changes nothing.
  \<^item> \<open>Tree_Traversal\<close>: the lazy iterator, the bounded visitor and the event traversal end and follow the
    recursive preorder and the Euler tour of the forest.

  \<^bold>\<open>Semantic model\<close> (the other files of \<open>crates/model/src\<close>). The values of the tree: test elements with
  typed, ordered properties, opaque payloads and source locations, all under validation limits.
  \<^item> \<open>Model_Errors\<close> (\<open>error.rs\<close>): error types, stable codes and bounded context. Context changes no code, and
    the codes are distinct. \<open>Node_Identity\<close> (\<open>id.rs\<close>): checked identities and their wire form.
  \<^item> \<open>Model_Limits\<close> (\<open>limits.rs\<close>, \<open>validate_bounded\<close> of \<open>tree.rs\<close>): intersection of limits is their meet; the
    accounting state; the depth check ends and measures the levels of the forest.
  \<^item> \<open>Property_Value\<close> (\<open>property.rs\<close>, \<open>opaque.rs\<close>): nested values and the property collection. The locale
    \<open>named_store\<close> states what lookups return after insertion and removal and how an insertion is undone.
  \<^item> \<open>Property_Equality\<close>, \<open>Property_Validation\<close>: the two loops over explicit task stacks. Comparison decides
    equality of canonical forms; validation runs the charges of a recursive reference in order, and its
    outcome is decided by their totals.
  \<^item> \<open>Source_Location\<close> (\<open>source.rs\<close>): lexical normalisation of labels, exact lines and columns of byte
    offsets, FNV identity, and labels on which normalisation is not canonical.
  \<^item> \<open>Test_Element\<close> (\<open>element.rs\<close>, \<open>IdentityTree<TestElement>\<close>): checked edits are transactions, by the
    locale \<open>transaction\<close>, and validation of a whole plan is exact.

  \<^bold>\<open>Scheduler\<close> (\<open>crates/runtime/src/scheduler.rs\<close>). Virtual users wait on deadlines and are woken or
  cancelled through tokens.
  \<^item> \<open>Cancellation_Token\<close>: tokens, per-user bits and the bounded registry of executor wakers. The \<open>Arc\<close>
    sharing of the source is an explicit store. No wake-up is lost, and users are isolated.
  \<^item> \<open>Scheduler\<close>: deadlines, linear wake registrations, \<open>DeterministicScheduler\<close>, \<open>DeadlineFuture\<close> and
    \<open>ScheduleWindow\<close>, with the registry invariant over all runs. \<open>Scheduler_Behaviour\<close>: each registration
    is resolved once, delivery is exact and ordered, and the deadline future completes.

  \<^bold>\<open>Coordination\<close> (\<open>crates/runtime/src/coordination.rs\<close>). Virtual users share named critical sections,
  throughput cursors and barriers.
  \<^item> \<open>Critical_Section\<close>: \<open>DeterministicCriticalSectionCoordinator\<close>, its queues, generations and wake-ups.
  \<^item> \<open>Critical_Behaviour\<close>: the specification of a lock is a step relation on a holder and a queue. Every
    operation of the coordinator refines it, a release hands over, and two runs forget a waiter.
  \<^item> \<open>Throughput_Pacing\<close>: \<open>DeterministicThroughputCoordinator\<close>, its rounded periods and its cursors. In the
    shared modes samples are at least one period apart, whatever is reserved and cancelled in between.
  \<^item> \<open>Barrier_Timer\<close>: \<open>DeterministicSynchronizingCoordinator\<close>, its slots, leases and generations.
    \<open>Barrier_Behaviour\<close>: their accounting is an invariant of all runs, every answer of an arrival is
    justified by its slot, and a cancellation wakes exactly those left behind.

  \<^bold>\<open>Bridge codec\<close> (\<open>crates/bridge-protocol/src/lib.rs\<close>). Frames are exchanged with worker processes.
  \<^item> \<open>Bridge_Wire\<close>: bytes, big-endian integers, UTF-8, and reads that panic out of range.
  \<^item> \<open>Bridge_Frame\<close>: limits, remote errors, semantic rules, encoder and incremental decoder.
  \<^item> \<open>Bridge_Codec\<close>, \<open>Bridge_Header\<close>, \<open>Bridge_Roundtrip\<close>: the offset-based loops against a reference
    parser, the header layout, and encoder and decoder characterised by one layout function.
    \<open>Bridge_Behaviour\<close>: round trips in both directions, totality, prefixes, and a frame that the encoder
    accepts and the decoder rejects.

  \<^bold>\<open>How the parts interact.\<close> \<open>Rust_Prelude\<close> holds what all of them share: machine integers with checked
  arithmetic, results, state-passing routines and loops. The scheduler's tokens use the signals of
  \<open>Control_Signal\<close> and its registry is an \<open>Ordered_Map\<close>, as is the node table of the identity tree. A test
  plan is an identity tree of test elements: its validation walks the tree by the preorder iterator of
  \<open>Identity_Tree\<close> and charges every element to one accounting state. Source locations read UTF-8 by
  \<open>Bridge_Wire\<close>.

  \<^bold>\<open>Conventions.\<close> \<open>usize\<close> and \<open>u64\<close> counters are natural numbers, and every addition that the source checks
  is checked against the 64-bit bound. Values computed modulo a power of two, and wire integers, are
  words. A \<open>String\<close> of the semantic model is the list of its UTF-8 bytes, and a float is its bits.
  \<open>Result\<close> is a sum, a method on \<open>&mut self\<close> is a state-passing routine, and a panic is \<open>None\<close>.

  \<^bold>\<open>Termination.\<close> No definition uses fuel. Loops whose termination has a measure are functions with that
  measure (the rejection loop, the work list of \<open>collect_subtree_ids\<close>, the waker loop). The loops of the
  runner, of the tree traversals and of the property task stacks are the partial function \<open>iterate\<close>,
  whose value is \<open>None\<close> when the loop does not end; the theorems about bounded runs, traversals, comparison and validation state that a value is returned.

  \<^bold>\<open>Not modelled.\<close> Debug and Display texts, and the error-code tables of the crates other than
  the model; the memory orderings of atomics (the interleavings are those of sequential consistency) and
  overlapping calls of scheduler methods; the panicking executor wakers; the construction of timer
  requests; the structured handshake payload and the JVM and RMI message vocabularies of
  the bridge; and the parts of the repository outside these files: JMX import, expressions, HTTP, results
  and reports, remote control, plug-in supervision, the command line and the tools. They are either
  input and output, process and network control, or text formats that rest on third-party parsers; the
  manifest lists them one by one.
\<close>

end
